(* ===== verification/Prelude.thy ===== *)
theory Prelude
  imports Main "HOL-Library.Word"
begin

text \<open>
  Shared vocabulary of the development: Rust's fixed-width integers as words together with the
  saturating and checked operations the sources call, \<open>Result\<close> values as sums, and the generic
  lemmas on lists, options and words that the component theories share.

  Collections: \<open>rust_arith\<close> holds the readings of the saturating and checked operations as
  natural numbers, \<open>result_simps\<close> the equations of the result combinators.
\<close>

named_theorems rust_arith "natural-number readings of saturating and checked word operations"
named_theorems result_simps "equations of the result combinators"

section \<open>Integers\<close>

type_synonym u32 = "32 word"
type_synonym u64 = "64 word"
type_synonym u128 = "128 word"
type_synonym i64 = int

text \<open>An \<open>i64\<close> is an \<^typ>\<open>int\<close> in this range.\<close>

definition i64_max :: int where
  "i64_max = 2 ^ 63 - 1"

definition is_i64 :: "int \<Rightarrow> bool" where
  "is_i64 i \<longleftrightarrow> - (2 ^ 63) \<le> i \<and> i \<le> i64_max"

definition max_val :: "'a::len word" where
  "max_val = - 1"

definition sat_add :: "'a::len word \<Rightarrow> 'a word \<Rightarrow> 'a word" where
  "sat_add a b = (if unat a + unat b < 2 ^ LENGTH('a) then a + b else max_val)"

definition sat_sub :: "'a::len word \<Rightarrow> 'a word \<Rightarrow> 'a word" where
  "sat_sub a b = (if b \<le> a then a - b else 0)"

definition checked_sub :: "'a::len word \<Rightarrow> 'a word \<Rightarrow> 'a word option" where
  "checked_sub a b = (if b \<le> a then Some (a - b) else None)"

definition checked_mul :: "'a::len word \<Rightarrow> 'a word \<Rightarrow> 'a word option" where
  "checked_mul a b = (if unat a * unat b < 2 ^ LENGTH('a) then Some (a * b) else None)"

lemma max_val_greatest [simp]: "a \<le> (max_val :: 'a::len word)"
  by (simp add: max_val_def)

lemma unat_max_val [rust_arith]: "unat (max_val :: 'a::len word) = 2 ^ LENGTH('a) - 1"
  proof -
  have "mask LENGTH('a) = (2 ^ LENGTH('a) - 1 :: nat)" by (simp add: mask_eq_exp_minus_1)
  then show ?thesis by (simp add: max_val_def unsigned_minus_1_eq_mask)
qed

lemma unat_lt2p: "unat (a :: 'a::len word) < 2 ^ LENGTH('a)"
  by (rule unsigned_less)

lemma unat_le_max: "unat (a :: 'a::len word) \<le> 2 ^ LENGTH('a) - Suc 0"
  using unat_lt2p [of a] by linarith

lemma unat_sat_add [rust_arith]:
  "unat (sat_add a b) = min (unat a + unat b) (2 ^ LENGTH('a) - 1)" for a b :: "'a::len word"
proof (cases "unat a + unat b < 2 ^ LENGTH('a)")
  case True
  then have "unat (a + b) = unat a + unat b" by (simp add: unat_add_lem)
  with True show ?thesis by (simp add: sat_add_def)
next
  case False
  then show ?thesis by (simp add: sat_add_def unat_max_val)
qed

lemma unat_sat_sub [rust_arith]: "unat (sat_sub a b) = unat a - unat b"
  by (auto simp: sat_sub_def unat_sub word_le_nat_alt)

lemma checked_sub_Some_iff [rust_arith]:
  "checked_sub a b = Some c \<longleftrightarrow> b \<le> a \<and> unat c = unat a - unat b"
  by (auto simp: checked_sub_def unat_sub word_le_nat_alt word_unat_eq_iff)

lemma checked_sub_None_iff [rust_arith]: "checked_sub a b = None \<longleftrightarrow> a < b"
  by (auto simp: checked_sub_def)

lemma checked_mul_Some_iff [rust_arith]:
  "checked_mul a b = Some c \<longleftrightarrow> unat c = unat a * unat b" for a b c :: "'a::len word"
proof (cases "unat a * unat b < 2 ^ LENGTH('a)")
  case True
  then have "unat (a * b) = unat a * unat b" by (simp add: unat_mult_lem)
  with True show ?thesis by (auto simp: checked_mul_def word_unat_eq_iff)
next
  case False
  with unat_lt2p [of c] have "unat c \<noteq> unat a * unat b" by linarith
  with False show ?thesis by (simp add: checked_mul_def)
qed

lemma checked_mul_None_iff [rust_arith]:
  "checked_mul a b = None \<longleftrightarrow> 2 ^ LENGTH('a) \<le> unat a * unat b" for a b :: "'a::len word"
  by (auto simp: checked_mul_def)

lemma sat_add_ge [simp]: "a \<le> sat_add a b"
  by (auto simp: word_le_nat_alt unat_sat_add unat_le_max)

lemma sat_add_mono: "a \<le> b \<Longrightarrow> sat_add a c \<le> sat_add b c"
  by (auto simp: word_le_nat_alt unat_sat_add)

lemma sat_sub_le [simp]: "sat_sub a b \<le> a"
  by (simp add: word_le_nat_alt unat_sat_sub)

lemma sat_sub_less: "0 < b \<Longrightarrow> 0 < a \<Longrightarrow> sat_sub a b < a"
  by (simp add: word_less_nat_alt unat_sat_sub)

lemma sat_add_one_greater: "a < max_val \<Longrightarrow> a < sat_add a 1"
proof -
  assume "a < max_val"
  then have "unat a < 2 ^ LENGTH('a) - 1" by (simp add: word_less_nat_alt unat_max_val)
  then show ?thesis by (simp add: word_less_nat_alt unat_sat_add)
qed

lemma word_max_unat: "unat (max a b) = max (unat a) (unat b)" for a b :: "'a::len word"
  by (simp add: max_def word_le_nat_alt)

lemma word_min_unat: "unat (min a b) = min (unat a) (unat b)" for a b :: "'a::len word"
  by (simp add: min_def word_le_nat_alt)

section \<open>Results\<close>

text \<open>\<open>Result<T, E>\<close> is the sum \<open>'e + 'a\<close>: \<open>Err\<close> is the left summand, \<open>Ok\<close> the right one.\<close>

abbreviation Err :: "'e \<Rightarrow> 'e + 'a" where
  "Err \<equiv> Inl"

abbreviation Ok :: "'a \<Rightarrow> 'e + 'a" where
  "Ok \<equiv> Inr"

definition is_ok :: "'e + 'a \<Rightarrow> bool" where
  "is_ok r = (case r of Err _ \<Rightarrow> False | Ok _ \<Rightarrow> True)"

definition bind_res :: "'e + 'a \<Rightarrow> ('a \<Rightarrow> 'e + 'b) \<Rightarrow> 'e + 'b" where
  "bind_res r f = (case r of Err e \<Rightarrow> Err e | Ok a \<Rightarrow> f a)"

text \<open>\<open>collect::<Result<Vec<_>, _>>()\<close>: the first error wins.\<close>

fun collect_res :: "('e + 'a) list \<Rightarrow> 'e + 'a list" where
  "collect_res [] = Ok []"
| "collect_res (Err e # _) = Err e"
| "collect_res (Ok a # rs) = (case collect_res rs of Err e \<Rightarrow> Err e | Ok xs \<Rightarrow> Ok (a # xs))"

lemma is_ok_simps [simp, result_simps]: "is_ok (Ok a)" "\<not> is_ok (Err e)"
  by (simp_all add: is_ok_def)

lemma bind_res_simps [simp, result_simps]:
  "bind_res (Ok a) f = f a" "bind_res (Err e) f = Err e"
  by (simp_all add: bind_res_def)

lemma bind_res_Ok_iff: "bind_res r f = Ok b \<longleftrightarrow> (\<exists>a. r = Ok a \<and> f a = Ok b)"
  by (cases r) auto

lemma collect_res_Ok_iff: "collect_res rs = Ok xs \<longleftrightarrow> rs = map Ok xs" for rs :: "('a + 'b) list"
  proof
  show "collect_res rs = Ok xs \<Longrightarrow> rs = map Ok xs"
    by (induction rs arbitrary: xs rule: collect_res.induct) (auto split: sum.splits)
  have "collect_res (map Ok ys) = Ok ys" for ys :: "'b list"
    by (induction ys) auto
  then show "rs = map Ok xs \<Longrightarrow> collect_res rs = Ok xs" by simp
qed

lemma collect_res_map_Ok [simp, result_simps]: "collect_res (map Ok xs) = Ok xs"
  by (simp add: collect_res_Ok_iff)

section \<open>Lists and options\<close>

definition opt_max :: "'a::linorder option \<Rightarrow> 'a \<Rightarrow> 'a" where
  "opt_max x a = (case x of None \<Rightarrow> a | Some b \<Rightarrow> max b a)"

lemma opt_max_simps [simp]: "opt_max None a = a" "opt_max (Some b) a = max b a"
  by (simp_all add: opt_max_def)

lemma opt_max_ge [simp]: "a \<le> opt_max x a"
  by (cases x) simp_all

text \<open>\<open>iter().position(p)\<close> followed by \<open>swap_remove\<close> on that index.\<close>

fun find_index :: "('a \<Rightarrow> bool) \<Rightarrow> 'a list \<Rightarrow> nat option" where
  "find_index p [] = None"
| "find_index p (x # xs) = (if p x then Some 0 else map_option Suc (find_index p xs))"

definition swap_remove :: "nat \<Rightarrow> 'a list \<Rightarrow> 'a list" where
  "swap_remove i xs = butlast (xs[i := last xs])"

lemma find_index_Some:
  "find_index p xs = Some i \<Longrightarrow> i < length xs \<and> p (xs ! i) \<and> (\<forall>j < i. \<not> p (xs ! j))"
proof (induction xs arbitrary: i)
  case Nil
  then show ?case by simp
next
  case (Cons x xs)
  show ?case
  proof (cases "p x")
    case True
    with Cons.prems show ?thesis by simp
  next
    case False
    with Cons.prems obtain k where k: "find_index p xs = Some k" and i: "i = Suc k" by auto
    have "\<not> p ((x # xs) ! j)" if "j < i" for j
      using Cons.IH [OF k] False that i by (cases j) auto
    with Cons.IH [OF k] i show ?thesis by simp
  qed
qed

lemma find_index_None_iff: "find_index p xs = None \<longleftrightarrow> (\<forall>x \<in> set xs. \<not> p x)"
  by (induction xs) auto

lemma length_swap_remove: "length (swap_remove i xs) = length xs - 1"
  by (simp add: swap_remove_def)

lemma sorted_wrt_filter_append:
  "sorted_wrt (<) (xs :: 'a::linorder list) \<Longrightarrow>
     filter (\<lambda>x. x < k) xs @ filter (\<lambda>x. \<not> x < k) xs = xs"
proof (induction xs)
  case Nil
  then show ?case by simp
next
  case (Cons a xs)
  show ?case
  proof (cases "a < k")
    case True
    with Cons show ?thesis by simp
  next
    case False
    with Cons.prems have "\<forall>x \<in> set xs. \<not> x < k" by auto
    with False show ?thesis by (simp add: filter_empty_conv)
  qed
qed

text \<open>\<open>haystack.contains(needle)\<close> on strings.\<close>

fun contains_str :: "string \<Rightarrow> string \<Rightarrow> bool" where
  "contains_str needle [] = (needle = [])"
| "contains_str needle (c # cs) = (take (length needle) (c # cs) = needle \<or> contains_str needle cs)"

text \<open>\<open>slice.chunks(n)\<close>, for a positive \<open>n\<close>.\<close>

function chunks :: "nat \<Rightarrow> 'a list \<Rightarrow> 'a list list" where
  "chunks n xs = (if xs = [] \<or> n = 0 then [] else take n xs # chunks n (drop n xs))"
  by pat_completeness auto

termination chunks
  by (relation "measure (\<lambda>(n, xs). length xs)") auto

declare chunks.simps [simp del]

lemma chunks_Nil [simp]: "chunks n [] = []"
  by (simp add: chunks.simps)

lemma chunks_step: "xs \<noteq> [] \<Longrightarrow> 0 < n \<Longrightarrow> chunks n xs = take n xs # chunks n (drop n xs)"
  by (subst chunks.simps) simp

lemma concat_chunks: "0 < n \<Longrightarrow> concat (chunks n xs) = xs"
  by (induction n xs rule: chunks.induct) (subst chunks.simps, auto)

lemma chunks_bound:
  "c \<in> set (chunks n xs) \<Longrightarrow> c \<noteq> [] \<and> length c \<le> n"
proof (induction n xs rule: chunks.induct)
  case (1 n xs)
  show ?case
  proof (cases "xs = [] \<or> n = 0")
    case True
    with "1.prems" show ?thesis by (subst (asm) chunks.simps) simp
  next
    case False
    with "1.prems" have "c = take n xs \<or> c \<in> set (chunks n (drop n xs))"
      by (subst (asm) chunks.simps) simp
    with "1.IH" False show ?thesis by auto
  qed
qed

text \<open>Groups of one length flattened and cut again.\<close>

lemma chunks_concat:
  assumes "0 < n" and "\<forall>g \<in> set gs. length g = n"
  shows "chunks n (concat gs) = gs"
  using assms(2)
proof (induction gs)
  case (Cons g gs)
  then have "g @ concat gs \<noteq> []" using assms(1) by auto
  with Cons assms(1) show ?case by (simp add: chunks_step)
qed simp

text \<open>\<open>parts.join(sep)\<close>.\<close>

fun join :: "string \<Rightarrow> string list \<Rightarrow> string" where
  "join sep [] = []"
| "join sep [x] = x"
| "join sep (x # y # ys) = x @ sep @ join sep (y # ys)"

end
