(* ===== verification/Decimal.thy ===== *)
theory Decimal
  imports Prelude
begin

text \<open>
  Decimal text of unsigned integers: \<open>u64::to_string\<close> and \<open>str::parse::<u64>\<close> of the standard
  library, which positions, SQL placeholders, progress rows and query parameters go through.
  \<open>parse_u64\<close> follows the library's digit loop: an empty string, a lone sign, a non-digit and an
  overflowing accumulator are errors; a leading \<open>+\<close> and leading zeros are accepted.
\<close>

definition digit_char :: "nat \<Rightarrow> char" where
  "digit_char d = (char_of (48 + d) :: char)"

fun dec_string :: "nat \<Rightarrow> string" where
  "dec_string n = (if n < 10 then [digit_char n] else dec_string (n div 10) @ [digit_char (n mod 10)])"

declare dec_string.simps [simp del]

definition u64_to_string :: "u64 \<Rightarrow> string" where
  "u64_to_string w = dec_string (unat w)"

definition i64_to_string :: "i64 \<Rightarrow> string" where
  "i64_to_string i = (if i < 0 then CHR ''-'' # dec_string (nat (- i)) else dec_string (nat i))"

datatype parse_error = Empty | InvalidDigit | PosOverflow

definition to_digit :: "char \<Rightarrow> nat option" where
  "to_digit c = (let n = of_char c in if 48 \<le> n \<and> n \<le> (57 :: nat) then Some (n - 48) else None)"

fun parse_digits :: "nat \<Rightarrow> string \<Rightarrow> parse_error + nat" where
  "parse_digits acc [] = Ok acc"
| "parse_digits acc (c # cs) =
     (case to_digit c of
        None \<Rightarrow> Err InvalidDigit
      | Some d \<Rightarrow>
          if 10 * acc + d < 2 ^ 64 then parse_digits (10 * acc + d) cs else Err PosOverflow)"

definition parse_u64 :: "string \<Rightarrow> parse_error + u64" where
  "parse_u64 s =
     (if s = [] then Err Empty
      else if s = ''+'' \<or> s = ''-'' then Err InvalidDigit
      else
        let digits = (if hd s = CHR ''+'' then tl s else s)
        in bind_res (parse_digits 0 digits) (\<lambda>n. Ok (of_nat n)))"

section \<open>Printing and parsing are inverse\<close>

lemma of_char_digit_char: "d < 10 \<Longrightarrow> of_char (digit_char d) = 48 + d"
  by (simp add: digit_char_def of_char_of)

lemma to_digit_digit_char [simp]: "d < 10 \<Longrightarrow> to_digit (digit_char d) = Some d"
  by (simp add: to_digit_def of_char_digit_char)

lemma to_digit_Some: "to_digit c = Some d \<Longrightarrow> d < 10 \<and> c = digit_char d"
  by (auto simp: to_digit_def digit_char_def Let_def split: if_splits)

lemma to_digit_signs [simp]: "to_digit CHR ''+'' = None" "to_digit CHR ''-'' = None"
  by (simp_all add: to_digit_def)

fun digits_value :: "nat \<Rightarrow> string \<Rightarrow> nat" where
  "digits_value acc [] = acc"
| "digits_value acc (c # cs) = digits_value (10 * acc + (of_char c - 48)) cs"

lemma digits_value_snoc: "digits_value acc (cs @ [c]) = 10 * digits_value acc cs + (of_char c - 48)"
  by (induction cs arbitrary: acc) auto

lemma digits_value_ge: "acc \<le> digits_value acc cs"
proof (induction cs arbitrary: acc)
  case Nil
  then show ?case by simp
next
  case (Cons c cs)
  have "acc \<le> 10 * acc + (of_char c - 48)" by simp
  also have "\<dots> \<le> digits_value (10 * acc + (of_char c - 48)) cs" by (rule Cons.IH)
  finally show ?case by simp
qed

lemma to_digit_value: "to_digit c = Some d \<Longrightarrow> d = of_char c - 48"
  by (auto simp: to_digit_def Let_def split: if_splits)

lemma parse_digits_Ok_iff:
  assumes "acc < 2 ^ 64"
  shows "parse_digits acc cs = Ok n \<longleftrightarrow>
     (\<forall>c \<in> set cs. to_digit c \<noteq> None) \<and> digits_value acc cs < 2 ^ 64 \<and> n = digits_value acc cs"
  using assms
proof (induction cs arbitrary: acc)
  case Nil
  then show ?case by auto
next
  case (Cons c cs)
  show ?case
  proof (cases "to_digit c")
    case None
    then show ?thesis by simp
  next
    case (Some d)
    note d = to_digit_value [OF Some]
    show ?thesis
    proof (cases "10 * acc + d < 2 ^ 64")
      case True
      from Cons.IH [OF True] Some True d show ?thesis by simp
    next
      case False
      moreover have "10 * acc + d \<le> digits_value (10 * acc + d) cs" by (rule digits_value_ge)
      ultimately have "\<not> digits_value (10 * acc + d) cs < 2 ^ 64" by linarith
      with False Some d show ?thesis by simp
    qed
  qed
qed

lemma dec_string_digits: "c \<in> set (dec_string n) \<Longrightarrow> to_digit c \<noteq> None"
  by (induction n rule: dec_string.induct)
    (subst (asm) (2) dec_string.simps, auto split: if_splits)

lemma dec_string_nonempty [simp]: "dec_string n \<noteq> []"
  by (subst dec_string.simps) simp

lemma dec_string_value [simp]: "digits_value 0 (dec_string n) = n"
proof (induction n rule: dec_string.induct)
  case (1 n)
  show ?case
  proof (cases "n < 10")
    case True
    then show ?thesis by (subst dec_string.simps) (simp add: of_char_digit_char)
  next
    case False
    with 1 show ?thesis
      by (subst dec_string.simps) (simp add: digits_value_snoc of_char_digit_char)
  qed
qed

lemma dec_string_hd: "hd (dec_string n) \<noteq> CHR ''+''"
  using dec_string_digits [of "hd (dec_string n)" n] by (metis dec_string_nonempty hd_in_set to_digit_signs(1))

lemma dec_string_not_sign: "dec_string n \<noteq> ''+''" "dec_string n \<noteq> ''-''"
  using dec_string_digits [of "CHR ''+''" n] dec_string_digits [of "CHR ''-''" n] by auto

lemma parse_u64_dec_string: "n < 2 ^ 64 \<Longrightarrow> parse_u64 (dec_string n) = Ok (of_nat n)"
proof -
  assume n: "n < 2 ^ 64"
  have "parse_digits 0 (dec_string n) = Ok n"
    using n dec_string_digits by (subst parse_digits_Ok_iff) auto
  then show ?thesis
    by (simp add: parse_u64_def dec_string_hd dec_string_not_sign)
qed

lemma parse_u64_to_string: "parse_u64 (u64_to_string w) = Ok w"
  using parse_u64_dec_string [of "unat w"] unat_lt2p [of w] by (simp add: u64_to_string_def)

lemma parse_u64_negative: "i < 0 \<Longrightarrow> parse_u64 (i64_to_string i) = Err InvalidDigit"
  by (simp add: i64_to_string_def parse_u64_def)

lemma parse_u64_nonnegative:
  "0 \<le> i \<Longrightarrow> is_i64 i \<Longrightarrow> parse_u64 (i64_to_string i) = Ok (word_of_int i)"
proof -
  assume "0 \<le> i" "is_i64 i"
  then have "nat i < 2 ^ 64" by (simp add: is_i64_def i64_max_def)
  with \<open>0 \<le> i\<close> show ?thesis
    by (simp add: i64_to_string_def parse_u64_dec_string)
qed

text \<open>
  What \<open>parse_u64\<close> accepts, exactly: an optional \<open>+\<close>, then at least one digit, nothing else,
  and a value below \<open>2 ^ 64\<close>.
\<close>

lemma parse_u64_Ok_iff:
  "parse_u64 s = Ok w \<longleftrightarrow>
     (\<exists>ds. (s = ds \<or> s = CHR ''+'' # ds) \<and> ds \<noteq> [] \<and> (\<forall>c \<in> set ds. to_digit c \<noteq> None)
        \<and> digits_value 0 ds < 2 ^ 64 \<and> w = of_nat (digits_value 0 ds))"
  (is "?L \<longleftrightarrow> ?R")
proof
  assume L: ?L
  then have ne: "s \<noteq> []" "s \<noteq> ''+''" by (auto simp: parse_u64_def split: if_splits)
  define ds where "ds = (if hd s = CHR ''+'' then tl s else s)"
  from L ne have "bind_res (parse_digits 0 ds) (\<lambda>n. Ok (of_nat n)) = Ok w"
    by (auto simp: parse_u64_def ds_def Let_def split: if_splits)
  then obtain n where n: "parse_digits 0 ds = Ok n" "w = of_nat n"
    by (auto simp: bind_res_Ok_iff)
  from ne have "ds \<noteq> [] \<and> (s = ds \<or> s = CHR ''+'' # ds)"
    by (cases s) (auto simp: ds_def)
  with n show ?R by (auto simp: parse_digits_Ok_iff)
next
  assume ?R
  then obtain ds where ds: "s = ds \<or> s = CHR ''+'' # ds" "ds \<noteq> []"
    "\<forall>c \<in> set ds. to_digit c \<noteq> None" "digits_value 0 ds < 2 ^ 64" "w = of_nat (digits_value 0 ds)"
    by blast
  from ds have p: "parse_digits 0 ds = Ok (digits_value 0 ds)" by (simp add: parse_digits_Ok_iff)
  from ds(2,3) have "hd ds \<noteq> CHR ''+''" "ds \<noteq> ''+''" "ds \<noteq> ''-''" by (cases ds; auto)+
  with p ds show ?L by (auto simp: parse_u64_def)
qed

end
