(* ===== verification/Position.thy ===== *)
theory Position
  imports Decimal "HOL-Library.FSet" "HOL-Library.List_Lexorder" "HOL-Library.Char_ord"
begin

text \<open>
  The persistence key (\<open>src/src/persistence/position.rs\<close>): the \<open>Position\<close> trait as a
  dictionary record of its operations, its laws as locales, and the two built-in positions,
  \<open>BlockPosition\<close> and \<open>TimeFrontier\<close>, as dictionaries that interpret them.  The JSON text of a
  \<open>TimeFrontier\<close> is produced by \<open>serde_json\<close>, which is a parameter of the model.
\<close>

section \<open>The trait\<close>

datatype reobservation = Halt | Dedupe

datatype position_error = BadBlock string parse_error | BadFrontier string

record 'p position_ops =
  reobservation :: reobservation
  sort_key :: "'p \<Rightarrow> u64"
  from_sort_key :: "u64 \<Rightarrow> 'p"
  advance :: "'p option \<Rightarrow> 'p \<Rightarrow> 'p"
  contains :: "'p \<Rightarrow> 'p \<Rightarrow> bool"
  resume_key :: "'p \<Rightarrow> u64"
  encode_position :: "'p \<Rightarrow> string"
  decode_position :: "string \<Rightarrow> position_error + 'p"

section \<open>Its laws\<close>

text \<open>
  \<open>position_order\<close> collects the ordering laws of the trait's documentation (monotone advance,
  contains implies identity, sort-key projection) and the two facts about \<open>contains\<close> that the
  dedupe path of the writers relies on; \<open>position_codec\<close> adds the round trip through the stored
  column.
\<close>

locale position_order =
  fixes P :: "'p position_ops"
  assumes key_of_key: "sort_key P (from_sort_key P k) = k"
    and advance_key: "sort_key P (advance P prev p) = opt_max (map_option (sort_key P) prev) (sort_key P p)"
    and contains_identity: "contains P w p \<Longrightarrow> advance P (Some w) p = w"
    and contains_key: "contains P w p \<Longrightarrow> sort_key P p \<le> sort_key P w"
    and advance_contains: "contains P (advance P prev p) p"
    and contains_trans: "contains P w q \<Longrightarrow> contains P q p \<Longrightarrow> contains P w p"
    and advance_keeps: "contains P w q \<Longrightarrow> contains P (advance P (Some w) p) q"
    and resume_at_or_above: "sort_key P p \<le> resume_key P p"
begin

lemma advance_monotone: "sort_key P w \<le> sort_key P (advance P (Some w) p)"
  by (simp add: advance_key)

lemma advance_reaches: "sort_key P p \<le> sort_key P (advance P prev p)"
  by (simp add: advance_key)

lemma contains_refl: "contains P (advance P (Some w) w) w"
  by (rule advance_contains)

lemma same_key: "sort_key P p = sort_key P q \<Longrightarrow> sort_key P (advance P (Some p) q) = sort_key P p"
  by (simp add: advance_key)

end

locale position_codec = position_order +
  assumes round_trip: "decode_position P (encode_position P p) = Ok p"
begin

lemma encode_injective: "encode_position P p = encode_position P q \<Longrightarrow> p = q"
  by (metis round_trip sum.inject(2))

end

text \<open>Folding a run of processed positions into a watermark, as the writers and the store do.\<close>

fun advance_all :: "'p position_ops \<Rightarrow> 'p option \<Rightarrow> 'p list \<Rightarrow> 'p option" where
  "advance_all P w [] = w"
| "advance_all P w (p # ps) = advance_all P (Some (advance P w p)) ps"

lemma advance_all_append: "advance_all P w (ps @ qs) = advance_all P (advance_all P w ps) qs"
  by (induction ps arbitrary: w) auto

lemma advance_all_None_iff: "advance_all P w ps = None \<longleftrightarrow> w = None \<and> ps = []"
  by (induction ps arbitrary: w) auto

context position_order begin

lemma advance_all_keeps:
  "contains P w q \<Longrightarrow> \<exists>v. advance_all P (Some w) ps = Some v \<and> contains P v q"
  by (induction ps arbitrary: w) (auto intro: advance_keeps)

lemma advance_all_covers:
  "p \<in> set ps \<Longrightarrow> \<exists>v. advance_all P w ps = Some v \<and> contains P v p"
proof (induction ps arbitrary: w)
  case Nil
  then show ?case by simp
next
  case (Cons q ps)
  show ?case
  proof (cases "p = q")
    case True
    then show ?thesis using advance_all_keeps [OF advance_contains] by simp
  next
    case False
    with Cons show ?thesis by simp
  qed
qed

lemma advance_all_monotone:
  "\<exists>v. advance_all P (Some w) ps = Some v \<and> sort_key P w \<le> sort_key P v"
proof (induction ps arbitrary: w)
  case Nil
  then show ?case by simp
next
  case (Cons p ps)
  from Cons [of "advance P (Some w) p"] show ?case
    using order_trans [OF advance_monotone] by fastforce
qed

lemma advance_all_reobserved:
  assumes "\<forall>p \<in> set ps. contains P w p"
  shows "advance_all P (Some w) ps = Some w"
  using assms by (induction ps) (auto simp: contains_identity)

end

section \<open>\<open>BlockPosition\<close>\<close>

datatype block_position = BlockPosition u64

fun block_number :: "block_position \<Rightarrow> u64" where
  "block_number (BlockPosition b) = b"

fun block_advance :: "block_position option \<Rightarrow> block_position \<Rightarrow> block_position" where
  "block_advance (Some prev) n = BlockPosition (max (block_number prev) (block_number n))"
| "block_advance None n = n"

definition block_contains :: "block_position \<Rightarrow> block_position \<Rightarrow> bool" where
  "block_contains w p \<longleftrightarrow> block_number p \<le> block_number w"

definition block_resume_key :: "block_position \<Rightarrow> u64" where
  "block_resume_key p = sat_add (block_number p) 1"

definition block_encode :: "block_position \<Rightarrow> string" where
  "block_encode p = u64_to_string (block_number p)"

definition block_decode :: "string \<Rightarrow> position_error + block_position" where
  "block_decode encoded =
     (case parse_u64 encoded of Err e \<Rightarrow> Err (BadBlock encoded e) | Ok b \<Rightarrow> Ok (BlockPosition b))"

definition block_position_ops :: "block_position position_ops" where
  "block_position_ops = \<lparr>
     reobservation = Halt,
     sort_key = block_number,
     from_sort_key = BlockPosition,
     advance = block_advance,
     contains = block_contains,
     resume_key = block_resume_key,
     encode_position = block_encode,
     decode_position = block_decode \<rparr>"

lemma block_ops_simps [simp]:
  "reobservation block_position_ops = Halt"
  "sort_key block_position_ops = block_number"
  "from_sort_key block_position_ops = BlockPosition"
  "advance block_position_ops = block_advance"
  "contains block_position_ops = block_contains"
  "resume_key block_position_ops = block_resume_key"
  "encode_position block_position_ops = block_encode"
  "decode_position block_position_ops = block_decode"
  by (simp_all add: block_position_ops_def)

lemma block_position_eq_iff: "p = q \<longleftrightarrow> block_number p = block_number q"
  by (cases p; cases q) simp

lemma block_number_advance [simp]:
  "block_number (block_advance w p) = opt_max (map_option block_number w) (block_number p)"
  by (cases w) simp_all

text \<open>The order the code derives; the frontier of a set of blocks is its maximum.\<close>

instantiation block_position :: linorder
begin

definition less_eq_block_position :: "block_position \<Rightarrow> block_position \<Rightarrow> bool" where
  "p \<le> q \<longleftrightarrow> block_number p \<le> block_number q"

definition less_block_position :: "block_position \<Rightarrow> block_position \<Rightarrow> bool" where
  "p < q \<longleftrightarrow> block_number p < block_number q"

instance
  by standard (auto simp: less_eq_block_position_def less_block_position_def block_position_eq_iff)

end

lemma block_contains_le: "block_contains w p \<longleftrightarrow> p \<le> w"
  by (simp add: block_contains_def less_eq_block_position_def)

lemma block_advance_max: "block_advance (Some w) p = max w p"
  by (simp add: block_position_eq_iff max_def less_eq_block_position_def)

lemma sorted_block_numbers: "sorted (map (\<lambda>pe. block_number (fst pe)) pes) \<longleftrightarrow> sorted (map fst pes)"
  by (induction pes) (auto simp: less_eq_block_position_def)

interpretation block: position_codec block_position_ops
proof unfold_locales
  show "decode_position block_position_ops (encode_position block_position_ops p) = Ok p" for p
    by (cases p) (simp add: block_decode_def block_encode_def parse_u64_to_string)
qed (auto simp: block_contains_def block_position_eq_iff max_def block_resume_key_def)

section \<open>\<open>TimeFrontier\<close>\<close>

record time_frontier =
  time_ms :: u64
  seen :: "string fset"

definition frontier_from_sort_key :: "u64 \<Rightarrow> time_frontier" where
  "frontier_from_sort_key key = \<lparr>time_ms = key, seen = {||}\<rparr>"

fun frontier_advance :: "time_frontier option \<Rightarrow> time_frontier \<Rightarrow> time_frontier" where
  "frontier_advance None n = n"
| "frontier_advance (Some prev) n =
     (if time_ms n > time_ms prev then n
      else if time_ms n < time_ms prev then prev
      else \<lparr>time_ms = time_ms prev, seen = seen prev |\<union>| seen n\<rparr>)"

definition frontier_contains :: "time_frontier \<Rightarrow> time_frontier \<Rightarrow> bool" where
  "frontier_contains w p \<longleftrightarrow>
     time_ms p < time_ms w \<or> (time_ms p = time_ms w \<and> seen p |\<subseteq>| seen w)"

definition frontier_encode :: "(time_frontier \<Rightarrow> string option) \<Rightarrow> time_frontier \<Rightarrow> string" where
  "frontier_encode ser p =
     (case ser p of
        Some s \<Rightarrow> s
      | None \<Rightarrow> ''{\"time_ms\":'' @ u64_to_string (time_ms p) @ '',\"seen\":[]}'')"

definition frontier_decode ::
  "(string \<Rightarrow> time_frontier option) \<Rightarrow> string \<Rightarrow> position_error + time_frontier" where
  "frontier_decode de encoded =
     (case de encoded of None \<Rightarrow> Err (BadFrontier encoded) | Some p \<Rightarrow> Ok p)"

definition time_frontier_ops ::
  "(time_frontier \<Rightarrow> string option) \<Rightarrow> (string \<Rightarrow> time_frontier option) \<Rightarrow>
     time_frontier position_ops" where
  "time_frontier_ops ser de = \<lparr>
     reobservation = Dedupe,
     sort_key = time_ms,
     from_sort_key = frontier_from_sort_key,
     advance = frontier_advance,
     contains = frontier_contains,
     resume_key = time_ms,
     encode_position = frontier_encode ser,
     decode_position = frontier_decode de \<rparr>"

lemma frontier_ops_simps [simp]:
  "reobservation (time_frontier_ops ser de) = Dedupe"
  "sort_key (time_frontier_ops ser de) = time_ms"
  "from_sort_key (time_frontier_ops ser de) = frontier_from_sort_key"
  "advance (time_frontier_ops ser de) = frontier_advance"
  "contains (time_frontier_ops ser de) = frontier_contains"
  "resume_key (time_frontier_ops ser de) = time_ms"
  "encode_position (time_frontier_ops ser de) = frontier_encode ser"
  "decode_position (time_frontier_ops ser de) = frontier_decode de"
  by (simp_all add: time_frontier_ops_def)

lemma time_ms_advance [simp]:
  "time_ms (frontier_advance w p) = opt_max (map_option time_ms w) (time_ms p)"
  by (cases w) (auto simp: max_def)

interpretation frontier: position_order "time_frontier_ops ser de" for ser de
proof unfold_locales
  show "advance (time_frontier_ops ser de) (Some w) p = w"
    if "contains (time_frontier_ops ser de) w p" for w p
    using that by (cases w; cases p) (auto simp: frontier_contains_def)
  show "contains (time_frontier_ops ser de) (advance (time_frontier_ops ser de) w p) p" for w p
    by (cases w) (auto simp: frontier_contains_def)
  show "contains (time_frontier_ops ser de) (advance (time_frontier_ops ser de) (Some w) p) q"
    if "contains (time_frontier_ops ser de) w q" for w p q
    using that by (auto simp: frontier_contains_def)
qed (auto simp: frontier_from_sort_key_def frontier_contains_def intro: less_trans)

text \<open>
  A later instant garbage-collects the identities below it; the boundary's identity set is the
  union of what was seen at that instant alone.
\<close>

lemma frontier_fold_seen:
  "advance_all (time_frontier_ops ser de) w ps = Some v \<Longrightarrow>
     fset (seen v) = (\<Union>p \<in> {p \<in> set ps. time_ms p = time_ms v}. fset (seen p))
        \<union> (case w of Some u \<Rightarrow> if time_ms u = time_ms v then fset (seen u) else {} | None \<Rightarrow> {})"
proof (induction ps arbitrary: w)
  case Nil
  then show ?case by simp
next
  case (Cons p ps)
  let ?a = "frontier_advance w p"
  from Cons.prems have fold: "advance_all (time_frontier_ops ser de) (Some ?a) ps = Some v" by simp
  from frontier.advance_all_monotone [of ser de ?a ps] fold have le: "time_ms ?a \<le> time_ms v" by simp
  from Cons.IH [OF fold] le show ?case
    by (cases w) (auto simp: max_def split: if_splits)
qed

end
