(* ===== verification/BTree_Map.thy ===== *)
theory BTree_Map
  imports Prelude
begin

text \<open>
  The standard library's \<open>BTreeMap\<close> as a key-sorted association list: the sources rely on
  lookup, insertion, removal and iteration in ascending key order.  The locale
  \<open>ordered_map\<close> is the interface the clients use; it is interpreted on the model at the end.
\<close>

section \<open>Interface\<close>

locale ordered_map =
  fixes get :: "'m \<Rightarrow> 'k::linorder \<Rightarrow> 'v option"
    and insert_kv :: "'k \<Rightarrow> 'v \<Rightarrow> 'm \<Rightarrow> 'm"
    and remove_k :: "'k \<Rightarrow> 'm \<Rightarrow> 'm"
    and keys :: "'m \<Rightarrow> 'k list"
    and wf :: "'m \<Rightarrow> bool"
    and nil :: 'm
  assumes get_nil: "get nil k = None"
    and wf_nil: "wf nil"
    and get_insert: "wf m \<Longrightarrow> get (insert_kv k v m) l = (if l = k then Some v else get m l)"
    and wf_insert: "wf m \<Longrightarrow> wf (insert_kv k v m)"
    and get_remove: "wf m \<Longrightarrow> get (remove_k k m) l = (if l = k then None else get m l)"
    and wf_remove: "wf m \<Longrightarrow> wf (remove_k k m)"
    and keys_get: "wf m \<Longrightarrow> set (keys m) = {k. get m k \<noteq> None}"
    and keys_sorted: "wf m \<Longrightarrow> sorted_wrt (<) (keys m)"
begin

lemma keys_insert: "wf m \<Longrightarrow> set (keys (insert_kv k v m)) = insert k (set (keys m))"
  by (auto simp: keys_get wf_insert get_insert split: if_splits)

lemma keys_remove: "wf m \<Longrightarrow> set (keys (remove_k k m)) = set (keys m) - {k}"
  by (auto simp: keys_get wf_remove get_remove split: if_splits)

lemma keys_nil: "keys nil = []"
  using keys_get [OF wf_nil] get_nil by simp

lemma insert_remove_get: "wf m \<Longrightarrow> get (remove_k k (insert_kv k v m)) l = get (remove_k k m) l"
  by (simp add: get_remove wf_insert get_insert)

end

section \<open>The sorted association list\<close>

type_synonym ('k, 'v) btree = "('k \<times> 'v) list"

definition bt_wf :: "('k::linorder, 'v) btree \<Rightarrow> bool" where
  "bt_wf m \<longleftrightarrow> sorted_wrt (<) (map fst m)"

definition bt_keys :: "('k, 'v) btree \<Rightarrow> 'k list" where
  "bt_keys m = map fst m"

definition bt_get :: "('k, 'v) btree \<Rightarrow> 'k \<Rightarrow> 'v option" where
  "bt_get m k = map_of m k"

fun bt_insert :: "'k::linorder \<Rightarrow> 'v \<Rightarrow> ('k, 'v) btree \<Rightarrow> ('k, 'v) btree" where
  "bt_insert k v [] = [(k, v)]"
| "bt_insert k v ((l, w) # m) =
     (if k < l then (k, v) # (l, w) # m
      else if k = l then (k, v) # m
      else (l, w) # bt_insert k v m)"

definition bt_remove :: "'k \<Rightarrow> ('k, 'v) btree \<Rightarrow> ('k, 'v) btree" where
  "bt_remove k m = filter (\<lambda>p. fst p \<noteq> k) m"

lemma bt_wf_Nil [simp]: "bt_wf []"
  by (simp add: bt_wf_def)

lemma bt_wf_Cons [simp]: "bt_wf ((k, v) # m) \<longleftrightarrow> (\<forall>p \<in> set m. k < fst p) \<and> bt_wf m"
  by (auto simp: bt_wf_def)

lemma bt_wf_append:
  "bt_wf (m @ n) \<longleftrightarrow> bt_wf m \<and> bt_wf n \<and> (\<forall>p \<in> set m. \<forall>q \<in> set n. fst p < fst q)"
  by (auto simp: bt_wf_def sorted_wrt_append)

lemma set_bt_insert:
  "bt_wf m \<Longrightarrow> set (bt_insert k v m) = insert (k, v) {p \<in> set m. fst p \<noteq> k}"
  by (induction k v m rule: bt_insert.induct) (auto split: if_splits)

lemma bt_wf_insert [simp]: "bt_wf m \<Longrightarrow> bt_wf (bt_insert k v m)"
  by (induction k v m rule: bt_insert.induct) (auto simp: set_bt_insert)

lemma bt_wf_filter [simp]: "bt_wf m \<Longrightarrow> bt_wf (filter P m)"
  by (induction m) auto

lemma bt_wf_remove [simp]: "bt_wf m \<Longrightarrow> bt_wf (bt_remove k m)"
  by (simp add: bt_remove_def)

lemma bt_get_insert: "bt_wf m \<Longrightarrow> bt_get (bt_insert k v m) l = (if l = k then Some v else bt_get m l)"
  by (induction k v m rule: bt_insert.induct) (auto simp: bt_get_def)

lemma bt_get_remove: "bt_get (bt_remove k m) l = (if l = k then None else bt_get m l)"
  by (induction m) (auto simp: bt_get_def bt_remove_def)

lemma bt_get_None_iff: "bt_get m k = None \<longleftrightarrow> k \<notin> fst ` set m"
  by (simp add: bt_get_def map_of_eq_None_iff)

lemma bt_get_Some_iff: "bt_wf m \<Longrightarrow> bt_get m k = Some v \<longleftrightarrow> (k, v) \<in> set m"
  by (simp add: bt_get_def bt_wf_def strict_sorted_iff)

lemma bt_keys_simps [simp]: "bt_keys [] = []" "bt_keys ((k, v) # m) = k # bt_keys m"
  "bt_keys (m @ n) = bt_keys m @ bt_keys n"
  by (simp_all add: bt_keys_def)

text \<open>Inserting at a key above, or equal to, the last one touches the end of the list only.\<close>

lemma bt_insert_above: "\<forall>p \<in> set m. fst p < k \<Longrightarrow> bt_insert k v m = m @ [(k, v)]"
  by (induction k v m rule: bt_insert.induct) auto

lemma bt_insert_last:
  "\<forall>p \<in> set m. fst p < k \<Longrightarrow> bt_insert k v (m @ [(k, w)]) = m @ [(k, v)]"
  by (induction m) auto

lemma bt_insert_append:
  "\<forall>p \<in> set m. fst p < k \<Longrightarrow> bt_insert k v (m @ n) = m @ bt_insert k v n"
  by (induction m) auto

lemma bt_get_append:
  "\<forall>p \<in> set m. fst p \<noteq> k \<Longrightarrow> bt_get (m @ n) k = bt_get n k"
  by (induction m) (auto simp: bt_get_def)

text \<open>A prefix of the keys is a prefix of the list: filtering by an upper bound splits it.\<close>

lemma bt_split_at: "bt_wf m \<Longrightarrow> filter (\<lambda>p. fst p < k) m @ filter (\<lambda>p. \<not> fst p < k) m = m"
proof (induction m)
  case Nil
  then show ?case by simp
next
  case (Cons p m)
  show ?case
  proof (cases "fst p < k")
    case True
    with Cons show ?thesis by (cases p) simp
  next
    case False
    with Cons.prems have "\<forall>q \<in> set m. \<not> fst q < k" by (cases p) auto
    with False show ?thesis by (simp add: filter_empty_conv)
  qed
qed

interpretation bt: ordered_map bt_get bt_insert bt_remove bt_keys bt_wf "[]"
proof unfold_locales
  show "set (bt_keys m) = {k. bt_get m k \<noteq> None}" for m :: "('a, 'b) btree"
    by (auto simp: bt_keys_def bt_get_def map_of_eq_None_iff)
  show "sorted_wrt (<) (bt_keys m)" if "bt_wf m" for m :: "('a, 'b) btree"
    using that by (simp add: bt_wf_def bt_keys_def)
qed (auto simp: bt_get_insert bt_get_remove bt_get_def [of "[]"])

end
