(* ===== verification/Schema.thy ===== *)
theory Schema
  imports BTree_Map "HOL-Library.List_Lexorder" "HOL-Library.Char_ord"
begin

text \<open>
  Table schemas and row values (\<open>src/src/persistence/schema.rs\<close>): the reserved names, identifier
  quoting, column types and the scalar values of a row.  An \<open>f64\<close> is its bit pattern, with the
  IEEE equality that the derived \<open>PartialEq\<close> of \<open>SqlValue\<close> and \<open>Row\<close> uses.
\<close>

unbundle bit_operations_syntax

section \<open>Names\<close>

definition BLOCK_NUMBER_COLUMN :: string where
  "BLOCK_NUMBER_COLUMN = ''block_number''"

definition PAYLOAD_COLUMN :: string where
  "PAYLOAD_COLUMN = ''_payload''"

definition PROGRESS_TABLE :: string where
  "PROGRESS_TABLE = ''_artemis_progress''"

text \<open>\<open>name.replace('"', "\"\"")\<close> between double quotes.\<close>

definition dquote :: char where
  "dquote = CHR 0x22"

fun double_quotes :: "string \<Rightarrow> string" where
  "double_quotes [] = []"
| "double_quotes (c # cs) = (if c = dquote then [dquote, dquote] else [c]) @ double_quotes cs"

definition quote_ident :: "string \<Rightarrow> string" where
  "quote_ident name = dquote # double_quotes name @ [dquote]"

text \<open>
  How SQL reads a quoted identifier: up to the first double quote that is not doubled, giving the
  name and the rest of the statement.
\<close>

fun read_quoted :: "string \<Rightarrow> (string \<times> string) option" where
  "read_quoted [] = None"
| "read_quoted (c # cs) =
     (if c \<noteq> dquote then map_option (\<lambda>(n, r). (c # n, r)) (read_quoted cs)
      else (case cs of
              [] \<Rightarrow> Some ([], [])
            | d # ds \<Rightarrow>
                if d = dquote then map_option (\<lambda>(n, r). (dquote # n, r)) (read_quoted ds)
                else Some ([], cs)))"

definition read_ident :: "string \<Rightarrow> (string \<times> string) option" where
  "read_ident s = (case s of [] \<Rightarrow> None | c # cs \<Rightarrow> if c = dquote then read_quoted cs else None)"

lemma read_quoted_double:
  "rest = [] \<or> hd rest \<noteq> dquote \<Longrightarrow> read_quoted (double_quotes name @ dquote # rest) = Some (name, rest)"
  by (induction name) (auto split: list.splits)

lemma read_ident_quote:
  "rest = [] \<or> hd rest \<noteq> dquote \<Longrightarrow> read_ident (quote_ident name @ rest) = Some (name, rest)"
  by (simp add: read_ident_def quote_ident_def read_quoted_double)

lemma quote_ident_injective: "quote_ident a = quote_ident b \<Longrightarrow> a = b"
  using read_ident_quote [of "[]" a] read_ident_quote [of "[]" b] by simp

section \<open>Types and schemas\<close>

datatype sql_type = SqlInteger | SqlReal | SqlText | SqlBlob | SqlNumeric

fun sql_keyword :: "sql_type \<Rightarrow> string" where
  "sql_keyword SqlInteger = ''INTEGER''"
| "sql_keyword SqlReal = ''REAL''"
| "sql_keyword SqlText = ''TEXT''"
| "sql_keyword SqlBlob = ''BLOB''"
| "sql_keyword SqlNumeric = ''NUMERIC''"

record column =
  col_name :: string
  col_ty :: sql_type

definition column_new :: "string \<Rightarrow> sql_type \<Rightarrow> column" where
  "column_new name ty = \<lparr>col_name = name, col_ty = ty\<rparr>"

record table_schema =
  schema_table :: string
  schema_columns :: "column list"

definition schema_new :: "string \<Rightarrow> table_schema" where
  "schema_new name = \<lparr>schema_table = name, schema_columns = []\<rparr>"

definition schema_col :: "table_schema \<Rightarrow> string \<Rightarrow> sql_type \<Rightarrow> table_schema" where
  "schema_col s name ty = s\<lparr>schema_columns := schema_columns s @ [column_new name ty]\<rparr>"

datatype reserved_error = ReservedTable string | ReservedColumn string

definition reserved_column :: "string \<Rightarrow> bool" where
  "reserved_column name \<longleftrightarrow> name = BLOCK_NUMBER_COLUMN \<or> name = PAYLOAD_COLUMN"

fun first_reserved :: "column list \<Rightarrow> reserved_error + unit" where
  "first_reserved [] = Ok ()"
| "first_reserved (c # cs) =
     (if reserved_column (col_name c) then Err (ReservedColumn (col_name c)) else first_reserved cs)"

definition ensure_no_reserved_names :: "table_schema \<Rightarrow> reserved_error + unit" where
  "ensure_no_reserved_names s =
     (if schema_table s = PROGRESS_TABLE then Err (ReservedTable PROGRESS_TABLE)
      else first_reserved (schema_columns s))"

lemma column_new_simps [simp]: "col_name (column_new n t) = n" "col_ty (column_new n t) = t"
  by (simp_all add: column_new_def)

lemma first_reserved_Ok_iff:
  "first_reserved cs = Ok () \<longleftrightarrow> (\<forall>c \<in> set cs. \<not> reserved_column (col_name c))"
  by (induction cs) auto

lemma ensure_no_reserved_names_Ok_iff:
  "ensure_no_reserved_names s = Ok () \<longleftrightarrow>
     schema_table s \<noteq> PROGRESS_TABLE \<and> (\<forall>c \<in> set (schema_columns s). \<not> reserved_column (col_name c))"
  by (auto simp: ensure_no_reserved_names_def first_reserved_Ok_iff)

section \<open>Values and rows\<close>

type_synonym f64 = "64 word"

definition f64_is_nan :: "f64 \<Rightarrow> bool" where
  "f64_is_nan b \<longleftrightarrow> b AND 0x7FFFFFFFFFFFFFFF > 0x7FF0000000000000"

definition f64_is_zero :: "f64 \<Rightarrow> bool" where
  "f64_is_zero b \<longleftrightarrow> b AND 0x7FFFFFFFFFFFFFFF = 0"

definition f64_eq :: "f64 \<Rightarrow> f64 \<Rightarrow> bool" where
  "f64_eq a b \<longleftrightarrow>
     \<not> f64_is_nan a \<and> \<not> f64_is_nan b \<and> (a = b \<or> f64_is_zero a \<and> f64_is_zero b)"

datatype sql_value = Integer i64 | Real f64 | Text string | Blob "8 word list" | Null

fun value_eq :: "sql_value \<Rightarrow> sql_value \<Rightarrow> bool" where
  "value_eq (Integer i) (Integer j) = (i = j)"
| "value_eq (Real a) (Real b) = f64_eq a b"
| "value_eq (Text s) (Text t) = (s = t)"
| "value_eq (Blob a) (Blob b) = (a = b)"
| "value_eq Null Null = True"
| "value_eq _ _ = False"

type_synonym row = "sql_value list"

definition row_eq :: "row \<Rightarrow> row \<Rightarrow> bool" where
  "row_eq r s = list_all2 value_eq r s"

definition value_nan :: "sql_value \<Rightarrow> bool" where
  "value_nan v = (case v of Real b \<Rightarrow> f64_is_nan b | _ \<Rightarrow> False)"

lemma value_eq_refl: "\<not> value_nan v \<Longrightarrow> value_eq v v"
  by (cases v) (auto simp: value_nan_def f64_eq_def)

lemma row_eq_refl: "\<forall>v \<in> set r. \<not> value_nan v \<Longrightarrow> row_eq r r"
  by (induction r) (auto simp: row_eq_def value_eq_refl)

lemma value_eq_sym: "value_eq v w \<Longrightarrow> value_eq w v"
  by (induction v w rule: value_eq.induct) (auto simp: f64_eq_def)

lemma row_eq_sym: "row_eq r s \<Longrightarrow> row_eq s r"
proof -
  assume "row_eq r s"
  then have "list_all2 (\<lambda>w v. value_eq v w) s r"
    by (simp add: row_eq_def list_all2_conv_all_nth)
  then show ?thesis
    unfolding row_eq_def by (rule list_all2_mono) (rule value_eq_sym)
qed

lemma row_eq_length: "row_eq r s \<Longrightarrow> length r = length s"
  by (simp add: row_eq_def list_all2_lengthD)

end
