(* ===== verification/Event_Record.thy ===== *)
theory Event_Record
  imports Schema Decimal
begin

text \<open>
  The \<open>Record\<close> (\<open>src/src/persistence/record.rs\<close>): the mapping between an event type and its rows,
  with the columns declared or frozen from the first encoded event.  Serialisation of the event
  and the JSON text are \<open>serde_json\<close>'s: the \<open>serde\<close> dictionary holds them as parameters.  A JSON
  number is opaque and known by its documented accessors.
\<close>

section \<open>JSON values\<close>

record json_number =
  as_i64 :: "i64 option"
  as_u64 :: "u64 option"
  as_f64 :: "f64 option"

text \<open>What \<open>serde_json\<close> documents about the accessors of a number.\<close>

definition number_wf :: "json_number \<Rightarrow> bool" where
  "number_wf n \<longleftrightarrow>
     (case as_i64 n of Some i \<Rightarrow> is_i64 i | None \<Rightarrow> True) \<and>
     (case as_u64 n of
        Some u \<Rightarrow> as_i64 n = (if int (unat u) \<le> i64_max then Some (int (unat u)) else None)
      | None \<Rightarrow> True)"

datatype json =
  JNull | JBool bool | JNumber json_number | JString string | JArray "json list"
| JObject "(string \<times> json) list"

record 'e serde =
  to_value :: "'e \<Rightarrow> json option"
  json_text :: "json \<Rightarrow> string"
  from_str :: "string \<Rightarrow> 'e option"

section \<open>Field types and values\<close>

definition infer_type :: "json \<Rightarrow> sql_type" where
  "infer_type v =
     (case v of
        JBool _ \<Rightarrow> SqlInteger
      | JNumber n \<Rightarrow>
          if as_i64 n \<noteq> None then SqlInteger
          else if as_u64 n \<noteq> None then
            (case as_u64 n of
               Some u \<Rightarrow> if int (unat u) > i64_max then SqlText else SqlInteger
             | None \<Rightarrow> SqlInteger)
          else SqlReal
      | JString _ \<Rightarrow> SqlText
      | _ \<Rightarrow> SqlText)"

definition json_to_sql :: "(json \<Rightarrow> string) \<Rightarrow> json \<Rightarrow> sql_value" where
  "json_to_sql txt v =
     (case v of
        JNull \<Rightarrow> Null
      | JBool b \<Rightarrow> Integer (if b then 1 else 0)
      | JNumber n \<Rightarrow>
          (case as_i64 n of
             Some i \<Rightarrow> Integer i
           | None \<Rightarrow>
               (case as_u64 n of
                  Some u \<Rightarrow> Text (u64_to_string u)
                | None \<Rightarrow> Real (case as_f64 n of Some f \<Rightarrow> f | None \<Rightarrow> 0)))
      | JString s \<Rightarrow> Text s
      | other \<Rightarrow> Text (txt other))"

type_synonym field_values = "(string, sql_type \<times> sql_value) btree"

datatype record_error =
    InvalidOverride reserved_error
  | NotSerialisable
  | NotAnObject json
  | ReservedField string
  | DoesNotFit string string
  | BadPayload string

fun collect_fields :: "(json \<Rightarrow> string) \<Rightarrow> (string \<times> json) list \<Rightarrow> field_values" where
  "collect_fields txt kvs =
     foldl (\<lambda>m (k, v). bt_insert k (infer_type v, json_to_sql txt v) m) [] kvs"

definition field_map :: "(json \<Rightarrow> string) \<Rightarrow> json \<Rightarrow> record_error + field_values" where
  "field_map txt v =
     (case v of JObject kvs \<Rightarrow> Ok (collect_fields txt kvs) | other \<Rightarrow> Err (NotAnObject other))"

definition ensure_value_fits :: "column \<Rightarrow> sql_value \<Rightarrow> record_error + unit" where
  "ensure_value_fits c v =
     (case v of
        Text s \<Rightarrow> if col_ty c = SqlInteger then Err (DoesNotFit (col_name c) s) else Ok ()
      | _ \<Rightarrow> Ok ())"

section \<open>The record\<close>

datatype columns_source = Declared "column list" | Inferred "column list option"

record event_record =
  rec_table :: string
  rec_columns :: columns_source

definition record_declared :: "table_schema \<Rightarrow> record_error + event_record" where
  "record_declared s =
     (case ensure_no_reserved_names s of
        Err reason \<Rightarrow> Err (InvalidOverride reason)
      | Ok _ \<Rightarrow> Ok \<lparr>rec_table = schema_table s, rec_columns = Declared (schema_columns s)\<rparr>)"

definition record_inferred :: "string \<Rightarrow> event_record" where
  "record_inferred t = \<lparr>rec_table = t, rec_columns = Inferred None\<rparr>"

fun frozen_columns :: "columns_source \<Rightarrow> column list option" where
  "frozen_columns (Declared cs) = Some cs"
| "frozen_columns (Inferred lock) = lock"

definition record_schema :: "event_record \<Rightarrow> table_schema option" where
  "record_schema r =
     map_option
       (\<lambda>cs. \<lparr>schema_table = rec_table r, schema_columns = cs @ [column_new PAYLOAD_COLUMN SqlText]\<rparr>)
       (frozen_columns (rec_columns r))"

definition payload_schema :: "event_record \<Rightarrow> table_schema" where
  "payload_schema r = schema_col (schema_new (rec_table r)) PAYLOAD_COLUMN SqlText"

definition inferred_columns :: "field_values \<Rightarrow> column list" where
  "inferred_columns fs = map (\<lambda>(name, ty, _). column_new name ty) fs"

definition freeze_columns :: "event_record \<Rightarrow> field_values \<Rightarrow> (record_error + column list) \<times> event_record" where
  "freeze_columns r fs =
     (case rec_columns r of
        Declared cs \<Rightarrow> (Ok cs, r)
      | Inferred (Some cs) \<Rightarrow> (Ok cs, r)
      | Inferred None \<Rightarrow>
          (case find reserved_column (bt_keys fs) of
             Some name \<Rightarrow> (Err (ReservedField name), r)
           | None \<Rightarrow>
               let cs = inferred_columns fs
               in (Ok cs, r\<lparr>rec_columns := Inferred (Some cs)\<rparr>)))"

definition column_value :: "field_values \<Rightarrow> column \<Rightarrow> sql_value" where
  "column_value fs c = (case bt_get fs (col_name c) of Some (_, v) \<Rightarrow> v | None \<Rightarrow> Null)"

fun row_values :: "field_values \<Rightarrow> column list \<Rightarrow> record_error + sql_value list" where
  "row_values fs [] = Ok []"
| "row_values fs (c # cs) =
     bind_res (ensure_value_fits c (column_value fs c)) (\<lambda>_.
     bind_res (row_values fs cs) (\<lambda>vs. Ok (column_value fs c # vs)))"

definition record_encode ::
  "'e serde \<Rightarrow> event_record \<Rightarrow> 'e \<Rightarrow> (record_error + row) \<times> event_record" where
  "record_encode sd r e =
     (case to_value sd e of
        None \<Rightarrow> (Err NotSerialisable, r)
      | Some j \<Rightarrow>
          (case field_map (json_text sd) j of
             Err x \<Rightarrow> (Err x, r)
           | Ok fs \<Rightarrow>
               (case freeze_columns r fs of
                  (Err x, r') \<Rightarrow> (Err x, r')
                | (Ok cs, r') \<Rightarrow>
                    (bind_res (row_values fs cs) (\<lambda>vs. Ok (vs @ [Text (json_text sd j)])), r'))))"

definition record_decode :: "'e serde \<Rightarrow> string \<Rightarrow> record_error + 'e" where
  "record_decode sd payload =
     (case from_str sd payload of None \<Rightarrow> Err (BadPayload payload) | Some e \<Rightarrow> Ok e)"

section \<open>Table names\<close>

definition is_ascii_uppercase :: "char \<Rightarrow> bool" where
  "is_ascii_uppercase c \<longleftrightarrow> 65 \<le> (of_char c :: nat) \<and> (of_char c :: nat) \<le> 90"

definition to_ascii_lowercase :: "char \<Rightarrow> char" where
  "to_ascii_lowercase c = (if is_ascii_uppercase c then char_of (of_char c + (32 :: nat)) else c)"

fun snake_from :: "nat \<Rightarrow> string \<Rightarrow> string" where
  "snake_from i [] = []"
| "snake_from i (c # cs) =
     (if is_ascii_uppercase c
      then (if i \<noteq> 0 then [CHR ''_''] else []) @ [to_ascii_lowercase c]
      else [c]) @ snake_from (Suc i) cs"

definition to_snake_case :: "string \<Rightarrow> string" where
  "to_snake_case s = snake_from 0 s"

text \<open>\<open>signature.split('(').next()\<close>: everything before the first parenthesis.\<close>

definition table_name :: "string \<Rightarrow> string" where
  "table_name signature = to_snake_case (takeWhile (\<lambda>c. c \<noteq> CHR ''('') signature)"

definition record_new :: "string \<Rightarrow> table_schema option \<Rightarrow> record_error + event_record" where
  "record_new signature override =
     (case override of Some s \<Rightarrow> record_declared s | None \<Rightarrow> Ok (record_inferred (table_name signature)))"

section \<open>Fields\<close>

lemma collect_fields_step:
  assumes "bt_wf m" and "\<forall>(k, w) \<in> set m. \<exists>v. w = (infer_type v, json_to_sql txt v) \<and> (k, v) \<in> S"
    and "set kvs \<subseteq> S"
  shows "bt_wf (foldl (\<lambda>m (k, v). bt_insert k (infer_type v, json_to_sql txt v) m) m kvs)
    \<and> (\<forall>(k, w) \<in> set (foldl (\<lambda>m (k, v). bt_insert k (infer_type v, json_to_sql txt v) m) m kvs).
          \<exists>v. w = (infer_type v, json_to_sql txt v) \<and> (k, v) \<in> S)"
  using assms
proof (induction kvs arbitrary: m)
  case Nil
  then show ?case by simp
next
  case (Cons kv kvs)
  obtain k v where kv: "kv = (k, v)" by (cases kv)
  let ?m = "bt_insert k (infer_type v, json_to_sql txt v) m"
  have "bt_wf ?m" using Cons.prems(1) by simp
  moreover have "\<forall>(l, w) \<in> set ?m. \<exists>v. w = (infer_type v, json_to_sql txt v) \<and> (l, v) \<in> S"
    using Cons.prems kv by (auto simp: set_bt_insert)
  ultimately show ?case using Cons.IH [of ?m] Cons.prems(3) kv by simp
qed

lemma collect_fields_wf [simp]: "bt_wf (collect_fields txt kvs)"
  using collect_fields_step [of "[]" "txt" "set kvs" kvs] by simp

lemma collect_fields_entry:
  "(k, t, w) \<in> set (collect_fields txt kvs) \<Longrightarrow>
     \<exists>v. (k, v) \<in> set kvs \<and> t = infer_type v \<and> w = json_to_sql txt v"
  using collect_fields_step [of "[]" "txt" "set kvs" kvs] by fastforce

lemma field_map_Ok_iff:
  "field_map txt j = Ok fs \<longleftrightarrow> (\<exists>kvs. j = JObject kvs \<and> fs = collect_fields txt kvs)"
  by (cases j) (auto simp: field_map_def)

lemma inferred_value_fits:
  assumes "\<And>n. v = JNumber n \<Longrightarrow> number_wf n"
  shows "ensure_value_fits (column_new name (infer_type v)) (json_to_sql txt v) = Ok ()"
proof (cases v)
  case (JNumber n)
  with assms have "number_wf n" by simp
  with JNumber show ?thesis
    by (auto simp: ensure_value_fits_def infer_type_def json_to_sql_def number_wf_def
        split: option.splits if_splits)
qed (auto simp: ensure_value_fits_def infer_type_def json_to_sql_def)

section \<open>Encoding\<close>

lemma row_values_Ok_iff:
  "row_values fs cs = Ok vs \<longleftrightarrow>
     vs = map (column_value fs) cs \<and> (\<forall>c \<in> set cs. ensure_value_fits c (column_value fs c) = Ok ())"
  by (induction cs arbitrary: vs) (auto simp: bind_res_Ok_iff)

lemma freeze_columns_Ok:
  assumes "freeze_columns r fs = (Ok cs, r')"
  shows "frozen_columns (rec_columns r') = Some cs" and "rec_table r' = rec_table r"
    and "frozen_columns (rec_columns r) = Some cs \<and> r' = r \<or>
         rec_columns r = Inferred None \<and> cs = inferred_columns fs \<and>
           (\<forall>c \<in> set cs. \<not> reserved_column (col_name c))"
proof -
  have "frozen_columns (rec_columns r') = Some cs \<and> rec_table r' = rec_table r \<and>
    (frozen_columns (rec_columns r) = Some cs \<and> r' = r \<or>
         rec_columns r = Inferred None \<and> cs = inferred_columns fs \<and>
           (\<forall>c \<in> set cs. \<not> reserved_column (col_name c)))"
  proof (cases "rec_columns r")
    case (Declared x1)
    with assms show ?thesis by (auto simp: freeze_columns_def)
  next
    case (Inferred lock)
    show ?thesis
    proof (cases lock)
      case (Some a)
      with Inferred assms show ?thesis by (auto simp: freeze_columns_def)
    next
      case None
      with Inferred assms show ?thesis
        by (fastforce simp: freeze_columns_def Let_def find_None_iff bt_keys_def inferred_columns_def
            split: option.splits)
    qed
  qed
  then show "frozen_columns (rec_columns r') = Some cs" "rec_table r' = rec_table r"
    "frozen_columns (rec_columns r) = Some cs \<and> r' = r \<or>
         rec_columns r = Inferred None \<and> cs = inferred_columns fs \<and>
           (\<forall>c \<in> set cs. \<not> reserved_column (col_name c))"
    by simp_all
qed

lemma freeze_columns_Err: "freeze_columns r fs = (Err x, r') \<Longrightarrow> r' = r"
  by (auto simp: freeze_columns_def Let_def split: columns_source.splits option.splits)

lemma record_encode_Ok:
  assumes "record_encode sd r e = (Ok vs, r')"
  obtains j fs cs where "to_value sd e = Some j" "field_map (json_text sd) j = Ok fs"
    "freeze_columns r fs = (Ok cs, r')" "frozen_columns (rec_columns r') = Some cs"
    "vs = map (column_value fs) cs @ [Text (json_text sd j)]"
    "\<forall>c \<in> set cs. ensure_value_fits c (column_value fs c) = Ok ()"
  using assms
  by (auto simp: record_encode_def bind_res_Ok_iff row_values_Ok_iff
      dest: freeze_columns_Ok(1) split: option.splits sum.splits prod.splits)

lemma record_encode_table: "record_encode sd r e = (x, r') \<Longrightarrow> rec_table r' = rec_table r"
  by (auto simp: record_encode_def dest: freeze_columns_Ok(2) freeze_columns_Err
      split: option.splits sum.splits prod.splits)

text \<open>The freeze contract: once columns are frozen, no encode changes the record.\<close>

lemma record_encode_frozen:
  "frozen_columns (rec_columns r) = Some cs \<Longrightarrow> snd (record_encode sd r e) = r"
  by (auto simp: record_encode_def freeze_columns_def split: option.splits sum.splits
      prod.splits columns_source.splits)

lemma record_encode_schema:
  assumes "record_encode sd r e = (Ok vs, r')"
  shows "\<exists>sch. record_schema r' = Some sch \<and> schema_table sch = rec_table r
     \<and> length vs = length (schema_columns sch)"
  using assms
proof (rule record_encode_Ok)
  fix j fs cs
  assume "frozen_columns (rec_columns r') = Some cs"
    "vs = map (column_value fs) cs @ [Text (json_text sd j)]"
  then show ?thesis
    using record_encode_table [OF assms] by (simp add: record_schema_def)
qed

lemma record_schema_frozen:
  "record_schema r = Some sch \<Longrightarrow> snd (record_encode sd r e) = r"
  using record_encode_frozen by (auto simp: record_schema_def)

lemma inferred_columns_distinct: "bt_wf fs \<Longrightarrow> distinct (map col_name (inferred_columns fs))"
  by (simp add: inferred_columns_def bt_wf_def strict_sorted_iff comp_def case_prod_beta)

section \<open>Snake case\<close>

lemma lowercase_not_upper: "\<not> is_ascii_uppercase (to_ascii_lowercase c)"
  by (auto simp: is_ascii_uppercase_def to_ascii_lowercase_def of_char_of)

lemma snake_from_no_upper: "c \<in> set (snake_from i cs) \<Longrightarrow> \<not> is_ascii_uppercase c"
proof (induction i cs rule: snake_from.induct)
  case (1 i)
  then show ?case by simp
next
  case (2 i d cs)
  have "\<not> is_ascii_uppercase CHR ''_''" by (simp add: is_ascii_uppercase_def)
  with 2 show ?case by (auto simp: lowercase_not_upper split: if_splits)
qed

lemma snake_from_id: "\<forall>c \<in> set cs. \<not> is_ascii_uppercase c \<Longrightarrow> snake_from i cs = cs"
  by (induction cs arbitrary: i) auto

lemma to_snake_case_idem: "to_snake_case (to_snake_case s) = to_snake_case s"
  unfolding to_snake_case_def by (rule snake_from_id) (simp add: snake_from_no_upper)

end
