(* ===== verification/Store.thy ===== *)
theory Store
  imports Position Event_Record "HOL-Library.Multiset"
begin

text \<open>
  The \<open>Store\<close> trait (\<open>src/src/persistence/store.rs\<close>) as a dictionary of state-passing operations,
  the contract its documentation states as a locale, and the logging store used to speak about
  the sequence of writes that succeeded, for any store.
\<close>

section \<open>The trait\<close>

datatype store_error =
    Backend string
  | DdlRaceError string
  | BadPosition position_error
  | RowShape string nat nat
  | KeyTooLarge u64
  | CorruptProgress string

record ('p, 's) store_ops =
  store_write :: "table_schema \<Rightarrow> 'p \<Rightarrow> row list \<Rightarrow> 's \<Rightarrow> (store_error + unit) \<times> 's"
  stored_position :: "string \<Rightarrow> 's \<Rightarrow> store_error + 'p option"
  store_replay :: "table_schema \<Rightarrow> 'p \<Rightarrow> 's \<Rightarrow> store_error + row list"

text \<open>The blanket \<open>impl Store for Arc<T>\<close>: every method delegates.\<close>

definition arc_store :: "('p, 's) store_ops \<Rightarrow> ('p, 's) store_ops" where
  "arc_store S = \<lparr>
     store_write = (\<lambda>sch p rows s. store_write S sch p rows s),
     stored_position = (\<lambda>t s. stored_position S t s),
     store_replay = (\<lambda>sch p s. store_replay S sch p s) \<rparr>"

lemma arc_store_same: "arc_store S = S"
  by (simp add: arc_store_def)

section \<open>Its contract\<close>

text \<open>
  A stored row as replay sees it: its sort key and the text of its payload cell. A row fits when it
  has the schema's shape and carries a text payload in a text column, as \<open>Record::encode\<close> makes it.
\<close>

type_synonym stored_row = "int \<times> string"

definition payload_cell :: "table_schema \<Rightarrow> row \<Rightarrow> sql_value option" where
  "payload_cell sch r = map_of (zip (map col_name (schema_columns sch)) r) PAYLOAD_COLUMN"

definition payload_text :: "table_schema \<Rightarrow> row \<Rightarrow> string" where
  "payload_text sch r = (case payload_cell sch r of Some (Text j) \<Rightarrow> j | _ \<Rightarrow> [])"

definition fits :: "table_schema \<Rightarrow> row \<Rightarrow> bool" where
  "fits sch r \<longleftrightarrow> length r = length (schema_columns sch) \<and>
     map_of (map (\<lambda>c. (col_name c, col_ty c)) (schema_columns sch)) PAYLOAD_COLUMN = Some SqlText \<and>
     (case payload_cell sch r of Some (Text j) \<Rightarrow> True | _ \<Rightarrow> False)"

definition stored_rows :: "'p position_ops \<Rightarrow> table_schema \<Rightarrow> 'p \<Rightarrow> row list \<Rightarrow> stored_row list" where
  "stored_rows P sch p rows = map (\<lambda>r. (int (unat (sort_key P p)), payload_text sch r)) rows"

definition replay_schema :: "string \<Rightarrow> table_schema" where
  "replay_schema t = schema_col (schema_new t) PAYLOAD_COLUMN SqlText"

text \<open>
  A write that succeeds appends the rows at the position's sort key and advances the table's
  watermark; a write that fails changes neither (one transaction); other tables are untouched. A
  replay returns the payloads up to a position in key order; the order within one key is the
  backend's.
\<close>

locale store_contract =
  fixes P :: "'p position_ops" and S :: "('p, 's) store_ops"
    and contents :: "'s \<Rightarrow> string \<Rightarrow> stored_row list" and mark :: "'s \<Rightarrow> string \<Rightarrow> 'p option"
    and ok_state :: "'s \<Rightarrow> bool"
  assumes write_keeps: "ok_state s \<Longrightarrow> ok_state (snd (store_write S sch p rows s))"
    and write_ok: "ok_state s \<Longrightarrow> store_write S sch p rows s = (Ok (), s') \<Longrightarrow> \<forall>r \<in> set rows. fits sch r \<Longrightarrow>
      contents s' t = contents s t @ (if t = schema_table sch then stored_rows P sch p rows else [])"
    and write_mark: "ok_state s \<Longrightarrow> store_write S sch p rows s = (Ok (), s') \<Longrightarrow>
      mark s' t = (if t = schema_table sch then Some (advance P (mark s t) p) else mark s t)"
    and write_err: "ok_state s \<Longrightarrow> store_write S sch p rows s = (Err e, s') \<Longrightarrow>
      contents s' t = contents s t \<and> mark s' t = mark s t"
    and position_read: "ok_state s \<Longrightarrow> stored_position S t s = Ok w \<Longrightarrow> w = mark s t"
    and replay_read: "ok_state s \<Longrightarrow> store_replay S (replay_schema t) p s = Ok rs \<Longrightarrow>
      \<exists>out. rs = map (\<lambda>kj. [Text (snd kj)]) out \<and> sorted (map fst out) \<and>
        mset out = mset (filter (\<lambda>kj. fst kj \<le> int (unat (sort_key P p))) (contents s t))"

section \<open>Sequences of successful writes\<close>

type_synonym 'p write_log = "(table_schema \<times> 'p \<times> row list) list"

definition logging :: "('p, 's) store_ops \<Rightarrow> ('p, 's \<times> 'p write_log) store_ops" where
  "logging S = \<lparr>
     store_write = (\<lambda>sch p rows (s, log).
       case store_write S sch p rows s of
         (Ok u, s') \<Rightarrow> (Ok u, (s', log @ [(sch, p, rows)]))
       | (Err e, s') \<Rightarrow> (Err e, (s', log))),
     stored_position = (\<lambda>t (s, log). stored_position S t s),
     store_replay = (\<lambda>sch p (s, log). store_replay S sch p s) \<rparr>"

lemma logging_write:
  "store_write (logging S) sch p rows sl =
     (case store_write S sch p rows (fst sl) of
        (Ok u, s') \<Rightarrow> (Ok u, (s', snd sl @ [(sch, p, rows)]))
      | (Err e, s') \<Rightarrow> (Err e, (s', snd sl)))"
  by (cases sl) (auto simp: logging_def split: prod.splits sum.splits)

text \<open>The key and the rows of a write.\<close>

fun log_entry :: "'p position_ops \<Rightarrow> table_schema \<times> 'p \<times> row list \<Rightarrow> u64 \<times> row list" where
  "log_entry P (sch, p, rows) = (sort_key P p, rows)"

definition log_groups :: "'p position_ops \<Rightarrow> 'p write_log \<Rightarrow> (u64 \<times> row list) list" where
  "log_groups P log = map (log_entry P) log"

lemma log_groups_append [simp]: "log_groups P (l @ m) = log_groups P l @ log_groups P m"
  by (simp add: log_groups_def)

lemma log_groups_simps [simp]:
  "log_groups P [] = []" "log_groups P ((sch, p, rows) # l) = (sort_key P p, rows) # log_groups P l"
  by (simp_all add: log_groups_def)

text \<open>What a log of writes leaves in a table, and in its watermark.\<close>

definition log_rows :: "'p position_ops \<Rightarrow> string \<Rightarrow> 'p write_log \<Rightarrow> stored_row list" where
  "log_rows P t log =
     concat (map (\<lambda>(sch, p, rows). if schema_table sch = t then stored_rows P sch p rows else []) log)"

definition log_positions :: "string \<Rightarrow> 'p write_log \<Rightarrow> 'p list" where
  "log_positions t log =
     concat (map (\<lambda>(sch, p, rows). if schema_table sch = t then [p] else []) log)"

lemma log_rows_append [simp]: "log_rows P t (l @ m) = log_rows P t l @ log_rows P t m"
  by (simp add: log_rows_def)

lemma log_positions_append [simp]: "log_positions t (l @ m) = log_positions t l @ log_positions t m"
  by (simp add: log_positions_def)

context store_contract begin

text \<open>
  A logging run over a store that keeps the contract: the table holds what it held plus the rows
  of the logged writes, and the watermark is the fold of the logged positions.
\<close>

definition agrees :: "'s \<Rightarrow> 's \<times> 'p write_log \<Rightarrow> bool" where
  "agrees s0 sl \<longleftrightarrow> ok_state (fst sl) \<and>
     (\<forall>t. contents (fst sl) t = contents s0 t @ log_rows P t (snd sl)
        \<and> mark (fst sl) t = advance_all P (mark s0 t) (log_positions t (snd sl)))"

lemma agrees_start: "ok_state s0 \<Longrightarrow> agrees s0 (s0, [])"
  by (simp add: agrees_def log_rows_def log_positions_def)

lemma agrees_write:
  assumes "agrees s0 sl" and "\<forall>r \<in> set rows. fits sch r"
  shows "agrees s0 (snd (store_write (logging S) sch p rows sl))"
proof -
  obtain s log where sl: "sl = (s, log)" by (cases sl)
  obtain r s' where w: "store_write S sch p rows s = (r, s')" by fastforce
  from assms sl have ok: "ok_state s" by (simp add: agrees_def)
  with write_keeps [of s sch p rows] w have ok': "ok_state s'" by simp
  show ?thesis
  proof (cases r)
    case (Inl e)
    with write_err [OF ok, of sch p rows e s'] w assms(1) sl ok' show ?thesis
      by (simp add: agrees_def logging_write)
  next
    case (Inr u)
    with w have "store_write S sch p rows s = (Ok (), s')" by simp
    from write_ok [OF ok this assms(2)] write_mark [OF ok this] w Inr assms(1) sl ok' show ?thesis
      by (auto simp: agrees_def logging_write log_rows_def log_positions_def advance_all_append)
  qed
qed

end

end
