(* ===== verification/Gap_Free.thy ===== *)
theory Gap_Free
  imports Store
begin

text \<open>
  \<open>GapFreeWriter\<close> (\<open>src/src/persistence/writer/mod.rs\<close>): the store handle, the record and the
  sticky health flag that \<open>BlockWriter\<close> and \<open>ConfirmationWindow\<close> share.  The store and the
  record are shared handles in the code, so both are passed as the \<open>world\<close>.
\<close>

record ('p, 'e, 's) writer_env =
  env_pos :: "'p position_ops"
  env_serde :: "'e serde"
  env_store :: "('p, 's) store_ops"

record 's world =
  w_store :: 's
  w_record :: event_record

record core =
  core_schema :: "table_schema option"
  core_healthy :: bool

definition core_new :: core where
  "core_new = \<lparr>core_schema = None, core_healthy = True\<rparr>"

definition core_fail :: "core \<Rightarrow> core" where
  "core_fail c = c\<lparr>core_healthy := False\<rparr>"

definition core_encode ::
  "('p, 'e, 's) writer_env \<Rightarrow> core \<Rightarrow> 's world \<Rightarrow> 'e \<Rightarrow> row option \<times> core \<times> 's world" where
  "core_encode env c w e =
     (case record_encode (env_serde env) (w_record w) e of
        (Ok r, rec) \<Rightarrow>
          (Some r,
           (if core_schema c = None then c\<lparr>core_schema := record_schema rec\<rparr> else c),
           w\<lparr>w_record := rec\<rparr>)
      | (Err x, rec) \<Rightarrow> (None, core_fail c, w\<lparr>w_record := rec\<rparr>))"

definition core_flush ::
  "('p, 'e, 's) writer_env \<Rightarrow> core \<Rightarrow> 's world \<Rightarrow> 'p \<Rightarrow> row list \<Rightarrow> bool \<times> core \<times> 's world" where
  "core_flush env c w p rows =
     (case core_schema c of
        None \<Rightarrow> (True, c, w)
      | Some sch \<Rightarrow>
          (case store_write (env_store env) sch p rows (w_store w) of
             (Ok u, s) \<Rightarrow> (True, c, w\<lparr>w_store := s\<rparr>)
           | (Err x, s) \<Rightarrow> (False, core_fail c, w\<lparr>w_store := s\<rparr>)))"

section \<open>Health is sticky, and a row in hand means a schema in hand\<close>

lemma core_fail_simps [simp]:
  "core_healthy (core_fail c) = False" "core_schema (core_fail c) = core_schema c"
  by (simp_all add: core_fail_def)

lemma core_new_simps [simp]: "core_healthy core_new" "core_schema core_new = None"
  by (simp_all add: core_new_def)

lemma core_encode_healthy:
  "core_encode env c w e = (x, c', w') \<Longrightarrow> core_healthy c' \<longleftrightarrow> core_healthy c \<and> x \<noteq> None"
  by (auto simp: core_encode_def split: prod.splits sum.splits if_splits)

lemma core_encode_store: "core_encode env c w e = (x, c', w') \<Longrightarrow> w_store w' = w_store w"
  by (auto simp: core_encode_def split: prod.splits sum.splits if_splits)

lemma core_flush_record: "core_flush env c w p rows = (ok, c', w') \<Longrightarrow> w_record w' = w_record w"
  by (auto simp: core_flush_def split: prod.splits sum.splits option.splits)

lemma core_flush_healthy:
  "core_flush env c w p rows = (ok, c', w') \<Longrightarrow>
     core_healthy c' \<longleftrightarrow> core_healthy c \<and> ok"
  by (auto simp: core_flush_def split: prod.splits sum.splits option.splits)

lemma core_flush_schema:
  "core_flush env c w p rows = (ok, c', w') \<Longrightarrow> core_schema c' = core_schema c"
  by (auto simp: core_flush_def split: prod.splits sum.splits option.splits)

lemma core_encode_Some:
  assumes "core_encode env c w e = (Some r, c', w')"
  shows "record_encode (env_serde env) (w_record w) e = (Ok r, w_record w')"
    and "core_schema c' = (if core_schema c = None then record_schema (w_record w') else core_schema c)"
    and "core_schema c' \<noteq> None"
proof -
  from assms show *: "record_encode (env_serde env) (w_record w) e = (Ok r, w_record w')"
    by (auto simp: core_encode_def split: prod.splits sum.splits if_splits)
  from assms show **: "core_schema c' =
      (if core_schema c = None then record_schema (w_record w') else core_schema c)"
    by (auto simp: core_encode_def split: prod.splits sum.splits if_splits)
  from record_encode_schema [OF *] ** show "core_schema c' \<noteq> None" by auto
qed

lemma core_encode_None:
  "core_encode env c w e = (None, c', w') \<Longrightarrow>
     \<exists>x. record_encode (env_serde env) (w_record w) e = (Err x, w_record w')"
  by (auto simp: core_encode_def split: prod.splits sum.splits if_splits)

section \<open>Encoding a run of events\<close>

text \<open>
  The rows a run of events encodes to, threading the record; an event that cannot be encoded
  counts as an empty row (no writer stores anything from it on).
\<close>

fun rows_of :: "'e serde \<Rightarrow> event_record \<Rightarrow> 'e list \<Rightarrow> row list" where
  "rows_of sd rec [] = []"
| "rows_of sd rec (e # es) =
     (case record_encode sd rec e of
        (Ok r, rec') \<Rightarrow> r # rows_of sd rec' es
      | (Err x, rec') \<Rightarrow> [] # rows_of sd rec' es)"

fun record_after :: "'e serde \<Rightarrow> event_record \<Rightarrow> 'e list \<Rightarrow> event_record" where
  "record_after sd rec [] = rec"
| "record_after sd rec (e # es) = record_after sd (snd (record_encode sd rec e)) es"

lemma length_rows_of [simp]: "length (rows_of sd rec es) = length es"
  by (induction es arbitrary: rec) (auto split: sum.splits prod.splits)

lemma rows_of_append:
  "rows_of sd rec (es @ fs) = rows_of sd rec es @ rows_of sd (record_after sd rec es) fs"
  by (induction es arbitrary: rec) (auto split: sum.splits prod.splits)

lemma record_after_append:
  "record_after sd rec (es @ fs) = record_after sd (record_after sd rec es) fs"
  by (induction es arbitrary: rec) auto

section \<open>Groups\<close>

text \<open>
  A run of keyed rows cut into its position groups: adjacent rows with the same sort key form one
  group.  Complete when no higher key has been seen: every group but the last.
\<close>

definition add_row :: "u64 \<times> row \<Rightarrow> (u64 \<times> row list) list \<Rightarrow> (u64 \<times> row list) list" where
  "add_row kr gs =
     (if gs \<noteq> [] \<and> fst (last gs) = fst kr
      then butlast gs @ [(fst kr, snd (last gs) @ [snd kr])]
      else gs @ [(fst kr, [snd kr])])"

definition groups_from :: "(u64 \<times> row list) list \<Rightarrow> (u64 \<times> row) list \<Rightarrow> (u64 \<times> row list) list" where
  "groups_from gs krs = foldl (\<lambda>gs kr. add_row kr gs) gs krs"

definition groups :: "(u64 \<times> row) list \<Rightarrow> (u64 \<times> row list) list" where
  "groups krs = groups_from [] krs"

lemma groups_from_simps [simp]:
  "groups_from gs [] = gs"
  "groups_from gs (kr # krs) = groups_from (add_row kr gs) krs"
  by (simp_all add: groups_from_def)

lemma groups_from_append: "groups_from gs (krs @ lrs) = groups_from (groups_from gs krs) lrs"
  by (simp add: groups_from_def)

lemma groups_snoc: "groups (krs @ [kr]) = add_row kr (groups krs)"
  by (simp add: groups_def groups_from_append)

lemma groups_Nil [simp]: "groups [] = []"
  by (simp add: groups_def)

lemma groups_single [simp]: "groups [kr] = [(fst kr, [snd kr])]"
  by (simp add: groups_def add_row_def)

text \<open>Only the last group can still grow.\<close>

lemma butlast_add_row: "\<exists>t. butlast (add_row kr gs) = butlast gs @ t"
proof (cases "gs = []")
  case True
  then show ?thesis by (simp add: add_row_def)
next
  case False
  then have "gs = butlast gs @ [last gs]" by simp
  then show ?thesis by (auto simp: add_row_def intro: exI [of _ "[last gs]"])
qed

lemma groups_from_closed: "\<exists>t. groups_from gs krs = butlast gs @ t"
proof (induction krs arbitrary: gs)
  case Nil
  then show ?case by (cases gs rule: rev_cases) auto
next
  case (Cons kr krs)
  obtain t where "butlast (add_row kr gs) = butlast gs @ t" using butlast_add_row by blast
  moreover obtain u where "groups_from (add_row kr gs) krs = butlast (add_row kr gs) @ u"
    using Cons by blast
  ultimately show ?case by auto
qed

lemma groups_closed_prefix: "\<exists>t. groups (krs @ lrs) = butlast (groups krs) @ t"
  unfolding groups_def groups_from_append by (rule groups_from_closed)

lemma groups_concat: "concat (map (\<lambda>(k, rs). map (Pair k) rs) (groups krs)) = krs"
proof (induction krs rule: rev_induct)
  case Nil
  then show ?case by simp
next
  case (snoc kr krs)
  have "concat (map (\<lambda>(k, rs). map (Pair k) rs) (add_row kr gs)) =
      concat (map (\<lambda>(k, rs). map (Pair k) rs) gs) @ [kr]" for gs
    by (cases gs rule: rev_cases) (auto simp: add_row_def split: prod.splits)
  with snoc show ?case by (simp add: groups_snoc)
qed

lemma fst_add_row:
  "map fst (add_row kr gs) =
     (if gs \<noteq> [] \<and> fst (last gs) = fst kr then map fst gs else map fst gs @ [fst kr])"
  by (cases gs rule: rev_cases) (auto simp: add_row_def)

lemma groups_last_key: "krs \<noteq> [] \<Longrightarrow> groups krs \<noteq> [] \<and> fst (last (groups krs)) = fst (last krs)"
  by (cases krs rule: rev_cases) (auto simp: groups_snoc add_row_def)

text \<open>An ordered run has one group per key, in strictly ascending key order.\<close>

lemma groups_sorted:
  assumes "sorted (map fst krs)"
  shows "sorted_wrt (<) (map fst (groups krs))"
  using assms
proof (induction krs rule: rev_induct)
  case Nil
  then show ?case by simp
next
  case (snoc kr krs)
  then have IH: "sorted_wrt (<) (map fst (groups krs))" and le: "\<forall>k \<in> set (map fst krs). k \<le> fst kr"
    by (auto simp: sorted_append)
  show ?case
  proof (cases "krs = []")
    case True
    then show ?thesis using groups_snoc [of "[]" kr] by (simp add: add_row_def)
  next
    case False
    note last = groups_last_key [OF False]
    then obtain gs g where gs: "groups krs = gs @ [g]" by (cases "groups krs" rule: rev_cases) auto
    from last gs le False have "fst g \<le> fst kr" by (cases krs rule: rev_cases) auto
    with IH gs show ?thesis
      by (fastforce simp: groups_snoc fst_add_row sorted_wrt_append)
  qed
qed

end
