(* ===== verification/Block_Writer.thy ===== *)
theory Block_Writer
  imports Gap_Free "HOL-Library.Sublist"
begin

text \<open>
  \<open>BlockWriter\<close> (\<open>src/src/persistence/writer/block.rs\<close>): the finite backfill range, one store
  transaction per complete position group.
\<close>

record 'p block_writer =
  bw_core :: core
  bw_buffer :: "row list"
  bw_current :: "'p option"
  bw_watermark :: "'p option"

definition bw_new :: "'p option \<Rightarrow> 'p block_writer" where
  "bw_new seed = \<lparr>bw_core = core_new, bw_buffer = [], bw_current = None, bw_watermark = seed\<rparr>"

definition bw_covered :: "'p position_ops \<Rightarrow> 'p block_writer \<Rightarrow> 'p \<Rightarrow> bool" where
  "bw_covered P bw pos \<longleftrightarrow>
     (case bw_watermark bw of Some w \<Rightarrow> contains P w pos | None \<Rightarrow> False) \<or>
     (case bw_current bw of
        Some c \<Rightarrow> sort_key P c = sort_key P pos \<and> contains P c pos
      | None \<Rightarrow> False)"

text \<open>The tail of \<open>record\<close>: fold the position into the open group and push the row.\<close>

definition bw_push :: "'p position_ops \<Rightarrow> 'p block_writer \<Rightarrow> 'p \<Rightarrow> row \<Rightarrow> 'p block_writer" where
  "bw_push P bw pos r =
     bw\<lparr>bw_current := Some (advance P (bw_current bw) pos), bw_buffer := bw_buffer bw @ [r]\<rparr>"

definition bw_record ::
  "('p, 'e, 's) writer_env \<Rightarrow> 'p block_writer \<Rightarrow> 's world \<Rightarrow> 'p \<Rightarrow> 'e
     \<Rightarrow> bool \<times> 'p block_writer \<times> 's world" where
  "bw_record env bw w pos e =
     (let P = env_pos env in
      if \<not> core_healthy (bw_core bw) then (True, bw, w)
      else if reobservation P = Dedupe \<and> bw_covered P bw pos then (False, bw, w)
      else
        case core_encode env (bw_core bw) w e of
          (None, c, w') \<Rightarrow> (True, bw\<lparr>bw_core := c, bw_buffer := []\<rparr>, w')
        | (Some r, c, w') \<Rightarrow>
            let bw = bw\<lparr>bw_core := c\<rparr> in
            case bw_current bw of
              None \<Rightarrow> (True, bw_push P bw pos r, w')
            | Some cur \<Rightarrow>
                if sort_key P pos < sort_key P cur then
                  (True, bw\<lparr>bw_core := core_fail c, bw_buffer := []\<rparr>, w')
                else if sort_key P pos > sort_key P cur then
                  (case core_flush env c w' cur (bw_buffer bw) of
                     (False, c', w'') \<Rightarrow>
                       (True, bw\<lparr>bw_core := c', bw_current := None, bw_buffer := []\<rparr>, w'')
                   | (True, c', w'') \<Rightarrow>
                       (True,
                        bw_push P
                          (bw\<lparr>bw_core := c', bw_current := None, bw_buffer := [],
                              bw_watermark := Some (advance P (bw_watermark bw) cur)\<rparr>) pos r,
                        w''))
                else (True, bw_push P bw pos r, w'))"

definition bw_finish ::
  "('p, 'e, 's) writer_env \<Rightarrow> 'p block_writer \<Rightarrow> 's world \<Rightarrow> 'p block_writer \<times> 's world" where
  "bw_finish env bw w =
     (if core_healthy (bw_core bw) then
        (case bw_current bw of
           None \<Rightarrow> (bw, w)
         | Some cur \<Rightarrow>
             (case core_flush env (bw_core bw) w cur (bw_buffer bw) of
                (True, c, w') \<Rightarrow>
                  (bw\<lparr>bw_core := c, bw_current := None, bw_buffer := [],
                      bw_watermark := Some (advance (env_pos env) (bw_watermark bw) cur)\<rparr>, w')
              | (False, c, w') \<Rightarrow>
                  (bw\<lparr>bw_core := c, bw_current := None, bw_buffer := []\<rparr>, w')))
      else (bw, w))"

text \<open>A run of \<open>record\<close> calls; the output lists what each call returned.\<close>

fun bw_run ::
  "('p, 'e, 's) writer_env \<Rightarrow> 'p block_writer \<Rightarrow> 's world \<Rightarrow> ('p \<times> 'e) list
     \<Rightarrow> bool list \<times> 'p block_writer \<times> 's world" where
  "bw_run env bw w [] = ([], bw, w)"
| "bw_run env bw w ((pos, e) # pes) =
     (case bw_record env bw w pos e of
        (d, bw', w') \<Rightarrow>
          (case bw_run env bw' w' pes of (ds, bw'', w'') \<Rightarrow> (d # ds, bw'', w'')))"

lemma bw_run_append:
  "bw_run env bw w (xs @ ys) =
     (case bw_run env bw w xs of
        (ds, bw', w') \<Rightarrow>
          (case bw_run env bw' w' ys of (ds', bw'', w'') \<Rightarrow> (ds @ ds', bw'', w'')))"
  by (induction xs arbitrary: bw w) (auto split: prod.splits)

text \<open>A halted writer never touches the store again, and lets every event flow.\<close>

lemma bw_record_halted: "\<not> core_healthy (bw_core bw) \<Longrightarrow> bw_record env bw w pos e = (True, bw, w)"
  by (simp add: bw_record_def)

lemma bw_run_halted:
  "\<not> core_healthy (bw_core bw) \<Longrightarrow> bw_run env bw w pes = (replicate (length pes) True, bw, w)"
  by (induction pes) (auto simp: bw_record_halted)

lemma bw_finish_halted: "\<not> core_healthy (bw_core bw) \<Longrightarrow> bw_finish env bw w = (bw, w)"
  by (simp add: bw_finish_def)

section \<open>The written groups are a prefix of the groups of the input\<close>

text \<open>
  For a healthy writer over a logging store, the logged groups followed by the open group are the
  groups of what was recorded; for a halted one the logged groups are complete groups of it.
\<close>

definition bw_open :: "'p position_ops \<Rightarrow> 'p block_writer \<Rightarrow> (u64 \<times> row list) list" where
  "bw_open P bw = (case bw_current bw of None \<Rightarrow> [] | Some c \<Rightarrow> [(sort_key P c, bw_buffer bw)])"

definition bw_tracks ::
  "'p position_ops \<Rightarrow> 'p block_writer \<Rightarrow> 'p write_log \<Rightarrow> (u64 \<times> row) list \<Rightarrow> bool" where
  "bw_tracks P bw log krs \<longleftrightarrow>
     (core_healthy (bw_core bw) \<longrightarrow> log_groups P log @ bw_open P bw = groups krs
        \<and> (bw_current bw = None \<longrightarrow> bw_buffer bw = [])
        \<and> (bw_current bw \<noteq> None \<longrightarrow> core_schema (bw_core bw) \<noteq> None)
        \<and> (bw_current bw = None \<longrightarrow> krs = []))
   \<and> (\<not> core_healthy (bw_core bw) \<longrightarrow> prefix (log_groups P log) (butlast (groups krs)))"

lemma bw_tracks_new: "bw_tracks P (bw_new seed) [] []"
  by (simp add: bw_tracks_def bw_new_def bw_open_def)

lemma prefix_butlast_groups:
  "prefix gs (butlast (groups krs)) \<Longrightarrow> prefix gs (butlast (groups (krs @ lrs)))"
proof (induction lrs rule: rev_induct)
  case Nil
  then show ?case by simp
next
  case (snoc kr lrs)
  then have "prefix gs (butlast (groups (krs @ lrs)))" by simp
  moreover obtain t where "butlast (groups (krs @ lrs @ [kr])) = butlast (groups (krs @ lrs)) @ t"
    using butlast_add_row [of kr "groups (krs @ lrs)"] by (auto simp: groups_snoc simp flip: append_assoc)
  ultimately show ?case by (simp add: prefix_order.order_trans)
qed


lemma log_write_Ok:
  "core_flush (env\<lparr>env_store := logging S\<rparr>) c w p rows = (ok, c', w') \<Longrightarrow>
     snd (w_store w') = snd (w_store w) @
       (case core_schema c of None \<Rightarrow> [] | Some sch \<Rightarrow> if ok then [(sch, p, rows)] else [])"
  by (auto simp: core_flush_def logging_write split: option.splits prod.splits sum.splits)

lemma bw_push_simps [simp]:
  "bw_core (bw_push P bw p r) = bw_core bw"
  "bw_buffer (bw_push P bw p r) = bw_buffer bw @ [r]"
  "bw_current (bw_push P bw p r) = Some (advance P (bw_current bw) p)"
  "bw_watermark (bw_push P bw p r) = bw_watermark bw"
  by (simp_all add: bw_push_def)

context position_order begin

lemma bw_record_tracks:
  assumes tracks: "bw_tracks P bw (snd (w_store w)) krs"
    and halt: "reobservation P = Halt" and pos: "env_pos env = P"
    and run: "bw_record (env\<lparr>env_store := logging S\<rparr>) bw w p e = (d, bw', w')"
    and r: "core_healthy (bw_core bw) \<Longrightarrow>
      \<forall>r'. fst (record_encode (env_serde env) (w_record w) e) = Ok r' \<longrightarrow> r = r'"
  shows "bw_tracks P bw' (snd (w_store w')) (krs @ [(sort_key P p, r)])"
proof (cases "core_healthy (bw_core bw)")
  case False
  with run tracks show ?thesis
    by (auto simp: bw_record_halted bw_tracks_def intro: prefix_butlast_groups)
next
  case healthy: True
  let ?env = "env\<lparr>env_store := logging S\<rparr>"
  obtain x c w1 where enc: "core_encode ?env (bw_core bw) w e = (x, c, w1)" by (cases "core_encode ?env (bw_core bw) w e")
  note st = core_encode_store [OF enc] and he = core_encode_healthy [OF enc]
  from tracks healthy have gs: "log_groups P (snd (w_store w)) @ bw_open P bw = groups krs"
    and empty: "bw_current bw = None \<Longrightarrow> bw_buffer bw = [] \<and> krs = []"
    and sch: "bw_current bw \<noteq> None \<Longrightarrow> core_schema (bw_core bw) \<noteq> None"
    by (auto simp: bw_tracks_def)
  have pre: "prefix (log_groups P (snd (w_store w))) (butlast (groups (krs @ [(sort_key P p, r)])))"
  proof -
    have "prefix (log_groups P (snd (w_store w))) (butlast (groups krs)) \<or>
        bw_current bw = None"
      by (cases "bw_current bw") (auto simp: bw_open_def simp flip: gs)
    then show ?thesis using empty gs by (auto intro: prefix_butlast_groups simp: bw_open_def)
  qed
  show ?thesis
  proof (cases x)
    case None
    with run enc healthy halt pos st he pre show ?thesis
      by (auto simp: bw_record_def Let_def bw_tracks_def)
  next
    case (Some r')
    from core_encode_Some [OF enc [unfolded Some]] r [OF healthy] have "r = r'"
      and csch: "core_schema c \<noteq> None" by auto
    with Some have x: "x = Some r" by simp
    from he healthy x have hc: "core_healthy c" by simp
    show ?thesis
    proof (cases "bw_current bw")
      case None
      with run enc x healthy halt st hc csch gs empty show ?thesis
        by (auto simp: pos bw_record_def Let_def bw_tracks_def bw_open_def add_row_def groups_snoc advance_key)
    next
      case cur: (Some cu)
      with gs have last: "groups krs = log_groups P (snd (w_store w)) @ [(sort_key P cu, bw_buffer bw)]"
        by (simp add: bw_open_def)
      consider "sort_key P p < sort_key P cu" | "sort_key P p > sort_key P cu"
        | "sort_key P p = sort_key P cu" by fastforce
      then show ?thesis
      proof cases
        case 1
        with run enc x healthy halt st hc cur pre show ?thesis
          by (auto simp: pos bw_record_def Let_def bw_tracks_def)
      next
        case 2
        obtain ok c2 w2 where fl: "core_flush ?env c w1 cu (bw_buffer bw) = (ok, c2, w2)"
          by (cases "core_flush ?env c w1 cu (bw_buffer bw)")
        note log = log_write_Ok [OF fl] and hf = core_flush_healthy [OF fl] and sf = core_flush_schema [OF fl]
        from 2 have nl: "\<not> sort_key P p < sort_key P cu" by simp
        have bw': "bw' = (if ok then bw_push P (bw\<lparr>bw_core := c2, bw_current := None, bw_buffer := [],
              bw_watermark := Some (advance P (bw_watermark bw) cu)\<rparr>) p r
            else bw\<lparr>bw_core := c2, bw_current := None, bw_buffer := []\<rparr>)" and "w' = w2"
          using run by (simp_all add: bw_record_def Let_def pos healthy halt enc x cur fl nl 2 split: bool.splits)
        with 2 log hf sf csch hc st last pre show ?thesis
          by (cases ok) (auto simp: bw_tracks_def bw_open_def add_row_def groups_snoc advance_key)
      next
        case 3
        with run enc x healthy halt st hc cur csch last show ?thesis
          by (auto simp: pos bw_record_def Let_def bw_tracks_def bw_open_def add_row_def groups_snoc advance_key)
      qed
    qed
  qed
qed

lemma bw_record_record:
  assumes "bw_record env bw w p e = (d, bw', w')" "core_healthy (bw_core bw')"
    "reobservation (env_pos env) = Halt"
  shows "w_record w' = snd (record_encode (env_serde env) (w_record w) e)" "core_healthy (bw_core bw)"
proof -
  have h: "core_healthy (bw_core bw)"
    using assms by (cases "core_healthy (bw_core bw)") (auto simp: bw_record_halted)
  then show "core_healthy (bw_core bw)" .
  obtain x c w1 where enc: "core_encode env (bw_core bw) w e = (x, c, w1)"
    by (cases "core_encode env (bw_core bw) w e")
  have rec: "w_record w1 = snd (record_encode (env_serde env) (w_record w) e)"
    using enc by (auto simp: core_encode_def split: prod.splits sum.splits if_splits)
  have "w_record w' = w_record w1"
    using assms h enc
    by (auto simp: bw_record_def Let_def dest: core_flush_record split: option.splits prod.splits
        if_splits bool.splits)
  with rec show "w_record w' = snd (record_encode (env_serde env) (w_record w) e)" by simp
qed

lemma bw_run_tracks:
  assumes "bw_tracks P bw (snd (w_store w)) krs"
    and "reobservation P = Halt" and "env_pos env = P"
    and "bw_run (env\<lparr>env_store := logging S\<rparr>) bw w pes = (ds, bw', w')"
    and "core_healthy (bw_core bw) \<Longrightarrow> rec = w_record w"
  shows "bw_tracks P bw' (snd (w_store w'))
     (krs @ zip (map (\<lambda>pe. sort_key P (fst pe)) pes) (rows_of (env_serde env) rec (map snd pes)))"
  using assms
proof (induction pes arbitrary: bw w krs ds rec)
  case Nil
  then show ?case by simp
next
  case (Cons pe pes)
  obtain p e where pe: "pe = (p, e)" by (cases pe)
  let ?env = "env\<lparr>env_store := logging S\<rparr>"
  obtain d bw1 w1 where st: "bw_record ?env bw w p e = (d, bw1, w1)" by (cases "bw_record ?env bw w p e")
  from Cons.prems(4) pe st obtain ds1 where rest: "bw_run ?env bw1 w1 pes = (ds1, bw', w')"
    by (auto split: prod.splits)
  obtain res rec' where enc: "record_encode (env_serde env) rec e = (res, rec')"
    by (cases "record_encode (env_serde env) rec e")
  let ?r = "case res of Ok r \<Rightarrow> r | Err _ \<Rightarrow> []"
  have one: "bw_tracks P bw1 (snd (w_store w1)) (krs @ [(sort_key P p, ?r)])"
    by (rule bw_record_tracks [OF Cons.prems(1-3) st]) (use enc Cons.prems(5) in auto)
  have "core_healthy (bw_core bw1) \<Longrightarrow> rec' = w_record w1"
    using bw_record_record [OF st] Cons.prems(2,3,5) enc by auto
  from Cons.IH [OF one Cons.prems(2,3) rest this] show ?case
    by (cases res) (auto simp: pe enc)
qed

text \<open>The whole settled pass: record everything, then finish.\<close>

lemma bw_finish_tracks:
  assumes "bw_tracks P bw (snd (w_store w)) krs"
    and "bw_finish (env\<lparr>env_store := logging S\<rparr>) bw w = (bw', w')" and "env_pos env = P"
  shows "prefix (log_groups P (snd (w_store w'))) (groups krs)
    \<and> (core_healthy (bw_core bw') \<longrightarrow> log_groups P (snd (w_store w')) = groups krs)"
proof (cases "core_healthy (bw_core bw)")
  case False
  with assms show ?thesis
    by (auto simp: bw_finish_halted bw_tracks_def intro: prefix_order.order_trans prefixeq_butlast)
next
  case healthy: True
  show ?thesis
  proof (cases "bw_current bw")
    case None
    with assms healthy show ?thesis by (auto simp: bw_finish_def bw_tracks_def bw_open_def)
  next
    case (Some cur)
    obtain ok c w1 where fl: "core_flush (env\<lparr>env_store := logging S\<rparr>) (bw_core bw) w cur (bw_buffer bw) = (ok, c, w1)"
      by (cases "core_flush (env\<lparr>env_store := logging S\<rparr>) (bw_core bw) w cur (bw_buffer bw)")
    note log = log_write_Ok [OF fl] and hf = core_flush_healthy [OF fl]
    from assms(1) healthy Some have g: "groups krs = log_groups P (snd (w_store w)) @ [(sort_key P cur, bw_buffer bw)]"
      and "core_schema (bw_core bw) \<noteq> None"
      by (auto simp: bw_tracks_def bw_open_def)
    with assms(2,3) healthy Some fl log hf show ?thesis
      by (cases ok) (auto simp: bw_finish_def)
  qed
qed

end

section \<open>The order of the written groups, and what is delivered\<close>

text \<open>A Halt source is never suppressed by the backfill writer.\<close>

lemma bw_record_delivers:
  "reobservation (env_pos env) = Halt \<Longrightarrow> bw_record env bw w pos e = (d, bw', w') \<Longrightarrow> d"
  by (auto simp: bw_record_def Let_def split: if_splits option.splits prod.splits bool.splits)

text \<open>Only ascending keys are ever written: the writer halts on a key that falls back.\<close>

definition bw_ordered :: "'p position_ops \<Rightarrow> 'p block_writer \<Rightarrow> 'p write_log \<Rightarrow> bool" where
  "bw_ordered P bw log \<longleftrightarrow>
     sorted_wrt (<) (map fst (log_groups P log @ (if core_healthy (bw_core bw) then bw_open P bw else [])))"

lemma bw_ordered_new: "bw_ordered P (bw_new seed) []"
  by (simp add: bw_ordered_def bw_new_def bw_open_def)

lemma bw_ordered_log: "bw_ordered P bw log \<Longrightarrow> sorted_wrt (<) (map fst (log_groups P log))"
  by (auto simp: bw_ordered_def sorted_wrt_append)

context position_order begin

lemma bw_record_ordered:
  assumes tracks: "bw_tracks P bw (snd (w_store w)) krs" and ord: "bw_ordered P bw (snd (w_store w))"
    and halt: "reobservation P = Halt" and pos: "env_pos env = P"
    and run: "bw_record (env\<lparr>env_store := logging S\<rparr>) bw w p e = (d, bw', w')"
  shows "bw_ordered P bw' (snd (w_store w'))"
proof (cases "core_healthy (bw_core bw)")
  case False
  with run ord show ?thesis by (auto simp: bw_record_halted)
next
  case healthy: True
  let ?env = "env\<lparr>env_store := logging S\<rparr>"
  obtain x c w1 where enc: "core_encode ?env (bw_core bw) w e = (x, c, w1)" by (cases "core_encode ?env (bw_core bw) w e")
  note st = core_encode_store [OF enc] and he = core_encode_healthy [OF enc]
  note log_ord = bw_ordered_log [OF ord]
  show ?thesis
  proof (cases x)
    case None
    with run enc healthy halt st he log_ord show ?thesis
      by (auto simp: pos bw_record_def Let_def bw_ordered_def)
  next
    case (Some r)
    from he healthy Some have hc: "core_healthy c" by simp
    show ?thesis
    proof (cases "bw_current bw")
      case None
      with tracks healthy have "log_groups P (snd (w_store w)) = []" by (auto simp: bw_tracks_def bw_open_def)
      with None run enc Some healthy halt st show ?thesis
        by (auto simp: pos bw_record_def Let_def bw_ordered_def bw_open_def)
    next
      case cur: (Some cu)
      with ord healthy have low: "\<forall>k \<in> set (map fst (log_groups P (snd (w_store w)))). k < sort_key P cu"
        by (auto simp: bw_ordered_def bw_open_def sorted_wrt_append)
      consider "sort_key P p < sort_key P cu" | "sort_key P p > sort_key P cu"
        | "sort_key P p = sort_key P cu" by fastforce
      then show ?thesis
      proof cases
        case 1
        with run enc Some healthy halt st cur log_ord show ?thesis
          by (auto simp: pos bw_record_def Let_def bw_ordered_def)
      next
        case 2
        obtain ok c2 w2 where fl: "core_flush ?env c w1 cu (bw_buffer bw) = (ok, c2, w2)"
          by (cases "core_flush ?env c w1 cu (bw_buffer bw)")
        note log = log_write_Ok [OF fl] and hf = core_flush_healthy [OF fl]
        from 2 have nl: "\<not> sort_key P p < sort_key P cu" by simp
        have bw': "bw' = (if ok then bw_push P (bw\<lparr>bw_core := c2, bw_current := None, bw_buffer := [],
              bw_watermark := Some (advance P (bw_watermark bw) cu)\<rparr>) p r
            else bw\<lparr>bw_core := c2, bw_current := None, bw_buffer := []\<rparr>)" and "w' = w2"
          using run by (simp_all add: bw_record_def Let_def pos healthy halt enc Some cur fl nl 2 split: bool.splits)
        with log hf st hc log_ord low 2 show ?thesis
          by (cases ok; cases "core_schema c")
            (auto simp: bw_ordered_def bw_open_def sorted_wrt_append advance_key dest: less_trans)
      next
        case 3
        with run enc Some healthy halt st cur ord show ?thesis
          by (auto simp: pos bw_record_def Let_def bw_ordered_def bw_open_def advance_key sorted_wrt_append)
      qed
    qed
  qed
qed

lemma bw_finish_ordered:
  assumes "bw_ordered P bw (snd (w_store w))"
    and "bw_finish (env\<lparr>env_store := logging S\<rparr>) bw w = (bw', w')"
  shows "sorted_wrt (<) (map fst (log_groups P (snd (w_store w'))))"
proof (cases "core_healthy (bw_core bw)")
  case False
  with assms bw_ordered_log show ?thesis by (auto simp: bw_finish_halted)
next
  case healthy: True
  show ?thesis
  proof (cases "bw_current bw")
    case None
    with assms healthy bw_ordered_log show ?thesis by (auto simp: bw_finish_def)
  next
    case (Some cur)
    obtain ok c w1 where fl: "core_flush (env\<lparr>env_store := logging S\<rparr>) (bw_core bw) w cur (bw_buffer bw) = (ok, c, w1)"
      by (cases "core_flush (env\<lparr>env_store := logging S\<rparr>) (bw_core bw) w cur (bw_buffer bw)")
    from assms healthy Some fl log_write_Ok [OF fl] show ?thesis
      by (cases ok; cases "core_schema (bw_core bw)")
        (auto simp: bw_finish_def bw_ordered_def bw_open_def sorted_wrt_append)
  qed
qed

end

text \<open>A property of keys that the seed and every recorded key have, the watermark has.\<close>

definition bw_marks :: "'p position_ops \<Rightarrow> (u64 \<Rightarrow> bool) \<Rightarrow> 'p block_writer \<Rightarrow> bool" where
  "bw_marks P Q bw \<longleftrightarrow> (\<forall>p. bw_watermark bw = Some p \<longrightarrow> Q (sort_key P p))
     \<and> (\<forall>p. bw_current bw = Some p \<longrightarrow> Q (sort_key P p))"

lemma bw_record_marks:
  assumes "position_order (env_pos env)" "bw_marks (env_pos env) Q bw" "Q (sort_key (env_pos env) pos)"
    and "bw_record env bw w pos e = (d, bw', w')"
  shows "bw_marks (env_pos env) Q bw'"
  using assms(2-)
  by (auto simp: bw_record_def Let_def bw_marks_def position_order.advance_key [OF assms(1)] opt_max_def max_def
      split: if_splits option.splits prod.splits bool.splits)

lemma bw_finish_marks:
  assumes "position_order (env_pos env)" "bw_marks (env_pos env) Q bw" "bw_finish env bw w = (bw', w')"
  shows "bw_marks (env_pos env) Q bw'"
  using assms(2-)
  by (auto simp: bw_finish_def bw_marks_def position_order.advance_key [OF assms(1)] opt_max_def max_def
      split: if_splits option.splits prod.splits bool.splits)

end
