(* ===== verification/Confirmation_Window.thy ===== *)
theory Confirmation_Window
  imports Gap_Free "HOL-Library.Sublist"
begin

text \<open>
  \<open>ConfirmationWindow\<close> (\<open>src/src/persistence/writer/window.rs\<close>): the live tail, buffered until a
  group is buried \<open>depth\<close> deep, with in-window reorgs corrected before anything is written.
\<close>

record 'p pending =
  pend_position :: 'p
  pend_rows :: "row list"
  pend_expected :: "row list"
  pend_seeded :: bool

record 'p window =
  cw_core :: core
  cw_depth :: u64
  cw_pending :: "(u64, 'p pending) btree"
  cw_head :: "u64 option"
  cw_flushed :: "u64 option"
  cw_watermark :: "'p option"

definition cw_new :: "'p position_ops \<Rightarrow> u64 \<Rightarrow> 'p option \<Rightarrow> 'p window" where
  "cw_new P depth seed = \<lparr>
     cw_core = core_new, cw_depth = depth, cw_pending = [], cw_head = None,
     cw_flushed = map_option (sort_key P) seed, cw_watermark = seed \<rparr>"

definition cw_covered :: "'p position_ops \<Rightarrow> 'p window \<Rightarrow> 'p \<Rightarrow> bool" where
  "cw_covered P win pos \<longleftrightarrow>
     (case cw_watermark win of Some w \<Rightarrow> contains P w pos | None \<Rightarrow> False) \<or>
     (case bt_get (cw_pending win) (sort_key P pos) of
        Some pd \<Rightarrow> contains P (pend_position pd) pos
      | None \<Rightarrow> False)"

definition cw_fail :: "'p window \<Rightarrow> 'p window" where
  "cw_fail win = win\<lparr>cw_core := core_fail (cw_core win), cw_pending := []\<rparr>"

text \<open>\<open>std::mem::take\<close> of the rows of a seeded group into its dedupe set.\<close>

definition pend_convert :: "'p pending \<Rightarrow> 'p pending" where
  "pend_convert pd = pd\<lparr>pend_expected := pend_rows pd, pend_rows := [], pend_seeded := False\<rparr>"

definition cw_rewind :: "u64 \<Rightarrow> 'p window \<Rightarrow> 'p window" where
  "cw_rewind key win = win\<lparr>cw_pending :=
     map (\<lambda>(b, pd). (b, if key \<le> b \<and> pend_seeded pd then pend_convert pd else pd))
       (filter (\<lambda>(b, pd). \<not> (key \<le> b \<and> \<not> pend_seeded pd)) (cw_pending win))\<rparr>"

text \<open>The loop of \<open>flush_matured\<close> over the collected keys, and the collection.\<close>

fun cw_flush_keys ::
  "('p, 'e, 's) writer_env \<Rightarrow> u64 list \<Rightarrow> 'p window \<Rightarrow> 's world \<Rightarrow> 'p window \<times> 's world" where
  "cw_flush_keys env [] win w = (win, w)"
| "cw_flush_keys env (b # bs) win w =
     (case bt_get (cw_pending win) b of
        None \<Rightarrow> cw_flush_keys env bs win w
      | Some pd \<Rightarrow>
          let win = win\<lparr>cw_pending := bt_remove b (cw_pending win)\<rparr> in
          (case core_flush env (cw_core win) w (pend_position pd) (pend_rows pd) of
             (False, c, w') \<Rightarrow> (win\<lparr>cw_core := c, cw_pending := []\<rparr>, w')
           | (True, c, w') \<Rightarrow>
               cw_flush_keys env bs
                 (win\<lparr>cw_core := c, cw_flushed := Some (opt_max (cw_flushed win) b),
                      cw_watermark := Some (advance (env_pos env) (cw_watermark win) (pend_position pd))\<rparr>)
                 w'))"

definition cw_matured :: "'p window \<Rightarrow> u64 \<Rightarrow> u64 list" where
  "cw_matured win head = filter (\<lambda>b. sat_add b (cw_depth win) \<le> head) (bt_keys (cw_pending win))"

definition cw_flush_matured ::
  "('p, 'e, 's) writer_env \<Rightarrow> 'p window \<Rightarrow> 's world \<Rightarrow> 'p window \<times> 's world" where
  "cw_flush_matured env win w =
     (case cw_head win of
        None \<Rightarrow> (win, w)
      | Some head \<Rightarrow> cw_flush_keys env (cw_matured win head) win w)"

text \<open>The entry of a live row: what its slot becomes, and whether the event is delivered.\<close>

definition live_slot ::
  "'p position_ops \<Rightarrow> 'p pending option \<Rightarrow> 'p \<Rightarrow> row \<Rightarrow> bool \<times> 'p pending" where
  "live_slot P slot pos r =
     (case slot of
        None \<Rightarrow> (True, \<lparr>pend_position = pos, pend_rows = [r], pend_expected = [], pend_seeded = False\<rparr>)
      | Some pd \<Rightarrow>
          let pd = (if reobservation P = Halt \<and> pend_seeded pd then pend_convert pd else pd);
              pd = pd\<lparr>pend_position := advance P (Some (pend_position pd)) pos\<rparr>
          in (case find_index (\<lambda>q. row_eq q r) (pend_expected pd) of
                Some i \<Rightarrow>
                  (False, pd\<lparr>pend_expected := swap_remove i (pend_expected pd),
                             pend_rows := pend_rows pd @ [r]\<rparr>)
              | None \<Rightarrow> (True, pd\<lparr>pend_rows := pend_rows pd @ [r]\<rparr>)))"

definition cw_put :: "u64 \<Rightarrow> 'p pending \<Rightarrow> 'p window \<Rightarrow> 'p window" where
  "cw_put key pd win =
     win\<lparr>cw_pending := bt_insert key pd (cw_pending win), cw_head := Some (opt_max (cw_head win) key)\<rparr>"

definition head_above :: "'p window \<Rightarrow> u64 \<Rightarrow> bool" where
  "head_above win key \<longleftrightarrow> (case cw_head win of Some h \<Rightarrow> key < h | None \<Rightarrow> False)"

definition finalized :: "'p window \<Rightarrow> u64 \<Rightarrow> bool" where
  "finalized win key \<longleftrightarrow> (case cw_flushed win of Some f \<Rightarrow> key \<le> f | None \<Rightarrow> False)"

definition cw_record ::
  "('p, 'e, 's) writer_env \<Rightarrow> 'p window \<Rightarrow> 's world \<Rightarrow> 'p \<Rightarrow> 'e \<Rightarrow> bool \<times> 'p window \<times> 's world" where
  "cw_record env win w pos e =
     (let P = env_pos env; key = sort_key P pos in
      if \<not> core_healthy (cw_core win) then (True, win, w)
      else if reobservation P = Dedupe \<and> cw_covered P win pos then (False, win, w)
      else if reobservation P = Halt \<and> finalized win key then (True, cw_fail win, w)
      else
        case core_encode env (cw_core win) w e of
          (None, c, w') \<Rightarrow> (True, win\<lparr>cw_core := c, cw_pending := []\<rparr>, w')
        | (Some r, c, w') \<Rightarrow>
            let win = win\<lparr>cw_core := c\<rparr>;
                win = (if reobservation P = Halt \<and> head_above win key
                       then (cw_rewind key win)\<lparr>cw_head := Some key\<rparr> else win)
            in (case live_slot P (bt_get (cw_pending win) key) pos r of
                  (delivered, pd) \<Rightarrow>
                    (case cw_flush_matured env (cw_put key pd win) w' of
                       (win', w'') \<Rightarrow> (delivered, win', w''))))"

definition seeded_slot :: "'p position_ops \<Rightarrow> 'p pending option \<Rightarrow> 'p \<Rightarrow> row \<Rightarrow> 'p pending" where
  "seeded_slot P slot pos r =
     (case slot of
        None \<Rightarrow> \<lparr>pend_position = pos, pend_rows = [r], pend_expected = [], pend_seeded = True\<rparr>
      | Some pd \<Rightarrow> pd\<lparr>pend_position := advance P (Some (pend_position pd)) pos,
                      pend_rows := pend_rows pd @ [r]\<rparr>)"

definition cw_record_seeded ::
  "('p, 'e, 's) writer_env \<Rightarrow> 'p window \<Rightarrow> 's world \<Rightarrow> 'p \<Rightarrow> 'e \<Rightarrow> bool \<times> 'p window \<times> 's world" where
  "cw_record_seeded env win w pos e =
     (let P = env_pos env; key = sort_key P pos in
      if \<not> core_healthy (cw_core win) then (True, win, w)
      else if reobservation P = Dedupe \<and> cw_covered P win pos then (False, win, w)
      else if reobservation P = Halt \<and> head_above win key then (True, cw_fail win, w)
      else
        case core_encode env (cw_core win) w e of
          (None, c, w') \<Rightarrow> (True, win\<lparr>cw_core := c, cw_pending := []\<rparr>, w')
        | (Some r, c, w') \<Rightarrow>
            let win = win\<lparr>cw_core := c\<rparr>;
                pd = seeded_slot P (bt_get (cw_pending win) key) pos r
            in (case cw_flush_matured env (cw_put key pd win) w' of
                  (win', w'') \<Rightarrow> (True, win', w'')))"

definition cw_halt :: "'p window \<Rightarrow> 'p window" where
  "cw_halt win = cw_fail win"

definition cw_absorb :: "'p position_ops \<Rightarrow> 'p option \<Rightarrow> 'p window \<Rightarrow> 'p window" where
  "cw_absorb P settled win =
     (case settled of
        None \<Rightarrow> win
      | Some p \<Rightarrow>
          win\<lparr>cw_flushed := Some (opt_max (cw_flushed win) (sort_key P p)),
              cw_watermark := Some (advance P (cw_watermark win) p)\<rparr>)"

definition cw_retract :: "'p position_ops \<Rightarrow> 'p \<Rightarrow> 'p window \<Rightarrow> 'p window" where
  "cw_retract P pos win =
     (let key = sort_key P pos in
      if \<not> core_healthy (cw_core win) then win
      else if reobservation P = Dedupe then win
      else if finalized win key then cw_fail win
      else
        let win = cw_rewind key win
        in win\<lparr>cw_head := map_option (\<lambda>h. min h (sat_sub key 1)) (cw_head win)\<rparr>)"


section \<open>Flushing\<close>

text \<open>The key and the rows of every pending group, in flush order.\<close>

definition pend_groups :: "(u64, 'p pending) btree \<Rightarrow> (u64 \<times> row list) list" where
  "pend_groups m = map (\<lambda>(b, pd). (b, pend_rows pd)) m"

lemma pend_groups_simps [simp]:
  "pend_groups [] = []" "pend_groups ((b, pd) # m) = (b, pend_rows pd) # pend_groups m"
  "pend_groups (m @ n) = pend_groups m @ pend_groups n"
  by (simp_all add: pend_groups_def)

lemma map_fst_pend_groups [simp]: "map fst (pend_groups m) = bt_keys m"
  by (induction m) auto

text \<open>
  Between two calls: the buffer is sorted, each slot is keyed by its position, a buffered group
  means a captured schema, no buffered group is mature, and a halted window buffers nothing.
\<close>

definition slots_ok :: "'p position_ops \<Rightarrow> (u64, 'p pending) btree \<Rightarrow> bool" where
  "slots_ok P m \<longleftrightarrow> bt_wf m \<and> (\<forall>(b, pd) \<in> set m. sort_key P (pend_position pd) = b)"

definition cw_wf :: "'p position_ops \<Rightarrow> 'p window \<Rightarrow> bool" where
  "cw_wf P win \<longleftrightarrow> slots_ok P (cw_pending win)
     \<and> (cw_pending win \<noteq> [] \<longrightarrow> core_schema (cw_core win) \<noteq> None)
     \<and> (\<not> core_healthy (cw_core win) \<longrightarrow> cw_pending win = [])"

lemma slots_ok_simps [simp]:
  "slots_ok P []"
  "slots_ok P ((b, pd) # m) \<longleftrightarrow>
     (\<forall>p \<in> set m. b < fst p) \<and> sort_key P (pend_position pd) = b \<and> slots_ok P m"
  by (auto simp: slots_ok_def)

lemma slots_ok_wf: "slots_ok P m \<Longrightarrow> bt_wf m"
  by (simp add: slots_ok_def)

lemma slots_ok_append: "slots_ok P (m @ n) \<Longrightarrow> slots_ok P m \<and> slots_ok P n"
  by (auto simp: slots_ok_def bt_wf_append)

lemma slots_ok_insert:
  "slots_ok P m \<Longrightarrow> sort_key P (pend_position pd) = b \<Longrightarrow> slots_ok P (bt_insert b pd m)"
  by (auto simp: slots_ok_def set_bt_insert)

lemma slots_ok_get: "slots_ok P m \<Longrightarrow> bt_get m b = Some pd \<Longrightarrow> sort_key P (pend_position pd) = b"
  by (auto simp: slots_ok_def bt_get_Some_iff)

lemma bt_remove_head: "bt_wf ((b, v) # m) \<Longrightarrow> bt_remove b ((b, v) # m) = m"
  by (auto simp: bt_remove_def filter_id_conv)

lemma bt_get_head [simp]: "bt_get ((b, v) # m) b = Some v"
  by (simp add: bt_get_def)

text \<open>
  Flushing the groups at the front of the buffer writes them in order; a failed write keeps what
  was written before it and drops the rest of the window.
\<close>

definition flushed_to :: "u64 option \<Rightarrow> (u64, 'p pending) btree \<Rightarrow> u64 option" where
  "flushed_to f m = foldl (\<lambda>f b. Some (opt_max f b)) f (bt_keys m)"

lemma flushed_to_simps [simp]:
  "flushed_to f [] = f" "flushed_to f ((b, pd) # m) = flushed_to (Some (opt_max f b)) m"
  by (simp_all add: flushed_to_def)

lemma flush_keys_front:
  assumes "slots_ok (env_pos env) (m1 @ m2)" "cw_pending win = m1 @ m2"
    and "core_schema (cw_core win) \<noteq> None" "core_healthy (cw_core win)"
    and "cw_flush_keys (env\<lparr>env_store := logging S\<rparr>) (bt_keys m1) win w = (win', w')"
  shows "core_schema (cw_core win') = core_schema (cw_core win) \<and> cw_head win' = cw_head win \<and>
     cw_depth win' = cw_depth win \<and> w_record w' = w_record w \<and>
     (\<exists>n1 n2. m1 = n1 @ n2 \<and>
        log_groups (env_pos env) (snd (w_store w')) =
          log_groups (env_pos env) (snd (w_store w)) @ pend_groups n1 \<and>
        log_positions (schema_table (the (core_schema (cw_core win)))) (snd (w_store w')) =
          log_positions (schema_table (the (core_schema (cw_core win)))) (snd (w_store w))
            @ map (\<lambda>(b, pd). pend_position pd) n1 \<and>
        cw_flushed win' = flushed_to (cw_flushed win) n1 \<and>
        cw_watermark win' = advance_all (env_pos env) (cw_watermark win) (map (\<lambda>(b, pd). pend_position pd) n1) \<and>
        (if core_healthy (cw_core win') then n2 = [] \<and> cw_pending win' = m2
         else cw_pending win' = []))"
  using assms
proof (induction m1 arbitrary: win w)
  case Nil
  then show ?case by (auto simp: bt_keys_def)
next
  case (Cons bp m1)
  obtain b pd where bp: "bp = (b, pd)" by (cases bp)
  let ?env = "env\<lparr>env_store := logging S\<rparr>"
  let ?win = "win\<lparr>cw_pending := bt_remove b (cw_pending win)\<rparr>"
  from Cons.prems(1,2) bp have get: "bt_get (cw_pending win) b = Some pd"
    and rm: "bt_remove b (cw_pending win) = m1 @ m2" and key: "sort_key (env_pos env) (pend_position pd) = b"
    and ok: "slots_ok (env_pos env) (m1 @ m2)"
    using bt_remove_head [of b pd "m1 @ m2"] by (auto simp: slots_ok_wf)
  obtain sch where sch: "core_schema (cw_core win) = Some sch" using Cons.prems(3) by auto
  obtain r s where wr: "store_write S sch (pend_position pd) (pend_rows pd) (fst (w_store w)) = (r, s)" by fastforce
  obtain st log where st: "w_store w = (st, log)" by (cases "w_store w")
  show ?case
  proof (cases r)
    case (Inl x)
    with wr sch st have "core_flush ?env (cw_core win) w (pend_position pd) (pend_rows pd) =
        (False, core_fail (cw_core win), w\<lparr>w_store := (s, log)\<rparr>)"
      by (simp add: core_flush_def logging_write)
    with Cons.prems(5) get bp st have r: "win' = win\<lparr>cw_core := core_fail (cw_core win), cw_pending := []\<rparr>"
      "w' = w\<lparr>w_store := (s, log)\<rparr>"
      by (auto simp: Let_def)
    show ?thesis
      unfolding r using st by (intro conjI; (rule exI [of _ "[]"], rule exI [of _ "bp # m1"])?) auto
  next
    case (Inr u)
    let ?w = "w\<lparr>w_store := (s, log @ [(sch, pend_position pd, pend_rows pd)])\<rparr>"
    let ?win2 = "win\<lparr>cw_pending := m1 @ m2, cw_flushed := Some (opt_max (cw_flushed win) b),
                 cw_watermark := Some (advance (env_pos env) (cw_watermark win) (pend_position pd))\<rparr>"
    from Inr wr sch st have "core_flush ?env (cw_core win) w (pend_position pd) (pend_rows pd) =
        (True, cw_core win, ?w)"
      by (simp add: core_flush_def logging_write)
    with Cons.prems(5) get bp rm have fl: "cw_flush_keys ?env (bt_keys m1) ?win2 ?w = (win', w')"
      by (simp add: Let_def)
    have "core_schema (cw_core ?win2) \<noteq> None" "core_healthy (cw_core ?win2)" using Cons.prems(3,4) by auto
    from Cons.IH [OF ok _ this fl]
    obtain n1 n2 where n: "m1 = n1 @ n2"
      and l: "log_groups (env_pos env) (snd (w_store w')) =
          log_groups (env_pos env) (snd (w_store ?w)) @ pend_groups n1"
      and lp: "log_positions (schema_table sch) (snd (w_store w')) =
          log_positions (schema_table sch) (snd (w_store ?w)) @ map (\<lambda>(b, pd). pend_position pd) n1"
      and f: "cw_flushed win' = flushed_to (cw_flushed ?win2) n1"
      and wm: "cw_watermark win' = advance_all (env_pos env) (cw_watermark ?win2) (map (\<lambda>(b, pd). pend_position pd) n1)"
      and h: "if core_healthy (cw_core win') then n2 = [] \<and> cw_pending win' = m2 else cw_pending win' = []"
      and rest: "core_schema (cw_core win') = core_schema (cw_core win)" "cw_head win' = cw_head win"
        "cw_depth win' = cw_depth win" "w_record w' = w_record w"
      using sch by auto
    show ?thesis
      by (intro conjI; (rule rest | (rule exI [of _ "(b, pd) # n1"], rule exI [of _ n2])))
        (use n l lp f wm h bp st key sch in \<open>auto simp: log_positions_def\<close>)
  qed
qed

text \<open>The mature groups are the front of the buffer.\<close>

lemma matured_front:
  assumes "bt_wf m"
  shows "\<exists>m1 m2. m = m1 @ m2 \<and> filter (\<lambda>b. sat_add b depth \<le> head) (bt_keys m) = bt_keys m1
     \<and> (\<forall>b \<in> set (bt_keys m1). sat_add b depth \<le> head) \<and> (\<forall>b \<in> set (bt_keys m2). head < sat_add b depth)"
  using assms
proof (induction m)
  case Nil
  then show ?case by (auto simp: bt_keys_def)
next
  case (Cons bp m)
  obtain b pd where bp: "bp = (b, pd)" by (cases bp)
  show ?case
  proof (cases "sat_add b depth \<le> head")
    case True
    from Cons bp obtain m1 m2 where m: "m = m1 @ m2"
      "filter (\<lambda>b. sat_add b depth \<le> head) (bt_keys m) = bt_keys m1"
      "\<forall>b \<in> set (bt_keys m1). sat_add b depth \<le> head" "\<forall>b \<in> set (bt_keys m2). head < sat_add b depth"
      by auto
    with True bp show ?thesis by (intro exI [of _ "bp # m1"] exI [of _ m2]) auto
  next
    case False
    have "\<forall>c \<in> set (bt_keys m). head < sat_add c depth"
    proof
      fix c assume "c \<in> set (bt_keys m)"
      with Cons.prems bp have "b \<le> c" by (auto simp: bt_keys_def)
      with False sat_add_mono [of b c depth] show "head < sat_add c depth" by simp
    qed
    with False bp show ?thesis
      by (intro exI [of _ "[]"] exI [of _ "bp # m"]) (auto simp: filter_empty_conv)
  qed
qed

text \<open>What a call of \<open>flush_matured\<close> does, as a relation between the states around it.\<close>

definition flush_step ::
  "'p position_ops \<Rightarrow> u64 \<Rightarrow> 'p window \<Rightarrow> 'p write_log \<Rightarrow> 'p window \<Rightarrow> 'p write_log \<Rightarrow> bool" where
  "flush_step P h win log win' log' \<longleftrightarrow>
     core_schema (cw_core win') = core_schema (cw_core win) \<and> cw_head win' = cw_head win \<and>
     cw_depth win' = cw_depth win \<and>
     (\<exists>m1 m2. cw_pending win = m1 @ m2 \<and>
        log_groups P log' = log_groups P log @ pend_groups m1 \<and>
        (\<forall>b \<in> set (bt_keys m1). sat_add b (cw_depth win) \<le> h) \<and>
        cw_flushed win' = flushed_to (cw_flushed win) m1 \<and>
        cw_watermark win' = advance_all P (cw_watermark win) (map (\<lambda>(b, pd). pend_position pd) m1) \<and>
        (if core_healthy (cw_core win')
         then cw_pending win' = m2 \<and> (\<forall>b \<in> set (bt_keys m2). h < sat_add b (cw_depth win))
         else cw_pending win' = []))"

lemma flush_matured_step:
  assumes "slots_ok (env_pos env) (cw_pending win)" "cw_head win = Some h"
    and "core_schema (cw_core win) \<noteq> None" "core_healthy (cw_core win)"
    and "cw_flush_matured (env\<lparr>env_store := logging S\<rparr>) win w = (win', w')"
  shows "flush_step (env_pos env) h win (snd (w_store w)) win' (snd (w_store w')) \<and> w_record w' = w_record w"
proof -
  obtain m1 m2 where m: "cw_pending win = m1 @ m2"
    and k: "cw_matured win h = bt_keys m1"
    and le: "\<forall>b \<in> set (bt_keys m1). sat_add b (cw_depth win) \<le> h"
    and gr: "\<forall>b \<in> set (bt_keys m2). h < sat_add b (cw_depth win)"
    using matured_front [OF slots_ok_wf [OF assms(1)], of "cw_depth win" h]
    unfolding cw_matured_def by blast
  from assms(2,5) k have run: "cw_flush_keys (env\<lparr>env_store := logging S\<rparr>) (bt_keys m1) win w = (win', w')"
    by (simp add: cw_flush_matured_def)
  from flush_keys_front [OF _ m assms(3,4) run] assms(1) m
  obtain n1 n2 where n: "m1 = n1 @ n2"
    and *: "log_groups (env_pos env) (snd (w_store w')) = log_groups (env_pos env) (snd (w_store w)) @ pend_groups n1"
      "cw_flushed win' = flushed_to (cw_flushed win) n1"
      "cw_watermark win' = advance_all (env_pos env) (cw_watermark win) (map (\<lambda>(b, pd). pend_position pd) n1)"
      "if core_healthy (cw_core win') then n2 = [] \<and> cw_pending win' = m2 else cw_pending win' = []"
    and frame: "core_schema (cw_core win') = core_schema (cw_core win)" "cw_head win' = cw_head win"
      "cw_depth win' = cw_depth win" "w_record w' = w_record w"
    by auto
  have "flush_step (env_pos env) h win (snd (w_store w)) win' (snd (w_store w'))"
    unfolding flush_step_def
    by (intro conjI frame exI [of _ n1] exI [of _ "n2 @ m2"])
      (use m n * le gr in \<open>auto split: if_splits\<close>)
  with frame show ?thesis by simp
qed

section \<open>What each call does\<close>

lemma cw_fail_simps [simp]:
  "core_healthy (cw_core (cw_fail win)) = False" "cw_pending (cw_fail win) = []"
  "cw_flushed (cw_fail win) = cw_flushed win" "cw_watermark (cw_fail win) = cw_watermark win"
  "core_schema (cw_core (cw_fail win)) = core_schema (cw_core win)"
  "cw_head (cw_fail win) = cw_head win" "cw_depth (cw_fail win) = cw_depth win"
  by (simp_all add: cw_fail_def)

lemma cw_put_simps [simp]:
  "cw_core (cw_put k pd win) = cw_core win" "cw_depth (cw_put k pd win) = cw_depth win"
  "cw_flushed (cw_put k pd win) = cw_flushed win" "cw_watermark (cw_put k pd win) = cw_watermark win"
  "cw_pending (cw_put k pd win) = bt_insert k pd (cw_pending win)"
  "cw_head (cw_put k pd win) = Some (opt_max (cw_head win) k)"
  by (simp_all add: cw_put_def)

lemma cw_rewind_simps [simp]:
  "cw_core (cw_rewind k win) = cw_core win" "cw_depth (cw_rewind k win) = cw_depth win"
  "cw_flushed (cw_rewind k win) = cw_flushed win" "cw_watermark (cw_rewind k win) = cw_watermark win"
  "cw_head (cw_rewind k win) = cw_head win"
  by (simp_all add: cw_rewind_def)

lemma slots_ok_map_filter:
  assumes "slots_ok P m" "\<forall>b pd. pend_position (f b pd) = pend_position pd"
  shows "slots_ok P (map (\<lambda>(b, pd). (b, f b pd)) (filter Q m))"
  using assms by (induction m) fastforce+

lemma slots_ok_rewind: "slots_ok P (cw_pending win) \<Longrightarrow> slots_ok P (cw_pending (cw_rewind k win))"
  by (simp add: cw_rewind_def slots_ok_map_filter pend_convert_def)

lemma keys_rewind: "set (bt_keys (cw_pending (cw_rewind k win))) \<subseteq> set (bt_keys (cw_pending win))"
  by (force simp: cw_rewind_def bt_keys_def)

text \<open>The window a live row is put into: rewound when the key is below the head.\<close>

definition rewound :: "'p position_ops \<Rightarrow> u64 \<Rightarrow> 'p window \<Rightarrow> 'p window" where
  "rewound P key win =
     (if reobservation P = Halt \<and> head_above win key then (cw_rewind key win)\<lparr>cw_head := Some key\<rparr> else win)"

lemma rewound_simps [simp]:
  "cw_core (rewound P k win) = cw_core win" "cw_depth (rewound P k win) = cw_depth win"
  "cw_flushed (rewound P k win) = cw_flushed win" "cw_watermark (rewound P k win) = cw_watermark win"
  by (simp_all add: rewound_def)

lemma rewound_head:
  "opt_max (cw_head (rewound P k win)) k =
     (if reobservation P = Halt then k else opt_max (cw_head win) k)"
  by (auto simp: rewound_def head_above_def split: option.splits)

lemma slots_ok_rewound: "slots_ok P (cw_pending win) \<Longrightarrow> slots_ok P (cw_pending (rewound P k win))"
  using slots_ok_rewind by (auto simp: rewound_def)

lemma keys_rewound: "set (bt_keys (cw_pending (rewound P k win))) \<subseteq> set (bt_keys (cw_pending win))"
  using keys_rewind by (auto simp: rewound_def)

lemma live_slot_key:
  assumes "live_slot P slot pos r = (d, pd)"
    and "\<forall>q. slot = Some q \<longrightarrow> sort_key P (advance P (Some (pend_position q)) pos) = sort_key P pos"
  shows "sort_key P (pend_position pd) = sort_key P pos"
  using assms
  by (auto simp: live_slot_def pend_convert_def Let_def split: option.splits if_splits)

lemma seeded_slot_key:
  assumes "\<forall>q. slot = Some q \<longrightarrow> sort_key P (advance P (Some (pend_position q)) pos) = sort_key P pos"
  shows "sort_key P (pend_position (seeded_slot P slot pos r)) = sort_key P pos"
  using assms by (auto simp: seeded_slot_def split: option.splits)

lemma slot_advance_key:
  assumes "position_order P" "slots_ok P m"
  shows "\<forall>q. bt_get m (sort_key P pos) = Some q \<longrightarrow>
     sort_key P (advance P (Some (pend_position q)) pos) = sort_key P pos"
  using slots_ok_get [OF assms(2)] by (simp add: position_order.advance_key [OF assms(1)])

lemma cw_record_rewound:
  "cw_record env win w pos e =
     (let P = env_pos env; key = sort_key P pos in
      if \<not> core_healthy (cw_core win) then (True, win, w)
      else if reobservation P = Dedupe \<and> cw_covered P win pos then (False, win, w)
      else if reobservation P = Halt \<and> finalized win key then (True, cw_fail win, w)
      else
        case core_encode env (cw_core win) w e of
          (None, c, w') \<Rightarrow> (True, win\<lparr>cw_core := c, cw_pending := []\<rparr>, w')
        | (Some r, c, w') \<Rightarrow>
            let win = rewound P key (win\<lparr>cw_core := c\<rparr>)
            in (case live_slot P (bt_get (cw_pending win) key) pos r of
                  (delivered, pd) \<Rightarrow>
                    (case cw_flush_matured env (cw_put key pd win) w' of
                       (win', w'') \<Rightarrow> (delivered, win', w''))))"
  unfolding cw_record_def rewound_def Let_def by (rule refl)

lemma cw_record_cases:
  assumes order: "position_order (env_pos env)" and wf: "cw_wf (env_pos env) win"
    and healthy: "core_healthy (cw_core win)"
    and run: "cw_record (env\<lparr>env_store := logging S\<rparr>) win w pos e = (d, win', w')"
  obtains
    (Covered) "reobservation (env_pos env) = Dedupe" "cw_covered (env_pos env) win pos" "\<not> d" "win' = win" "w' = w"
  | (Finalized) "reobservation (env_pos env) = Halt" "finalized win (sort_key (env_pos env) pos)" "d" "win' = cw_fail win" "w' = w"
  | (Unencodable) "d" "cw_pending win' = []" "\<not> core_healthy (cw_core win')" "w_store w' = w_store w"
      "cw_flushed win' = cw_flushed win" "cw_watermark win' = cw_watermark win"
      "cw_head win' = cw_head win" "cw_depth win' = cw_depth win"
  | (Put) r pd win1 where
      "reobservation (env_pos env) = Halt \<longrightarrow> \<not> finalized win (sort_key (env_pos env) pos)"
      "reobservation (env_pos env) = Dedupe \<longrightarrow> \<not> cw_covered (env_pos env) win pos"
      "record_encode (env_serde env) (w_record w) e = (Ok r, w_record w')"
      "cw_pending win1 = cw_pending (rewound (env_pos env) (sort_key (env_pos env) pos) win)"
      "cw_depth win1 = cw_depth win" "cw_flushed win1 = cw_flushed win"
      "cw_watermark win1 = cw_watermark win" "core_schema (cw_core win1) \<noteq> None"
      "cw_head win1 = cw_head (rewound (env_pos env) (sort_key (env_pos env) pos) win)"
      "live_slot (env_pos env) (bt_get (cw_pending win1) (sort_key (env_pos env) pos)) pos r = (d, pd)"
      "sort_key (env_pos env) (pend_position pd) = sort_key (env_pos env) pos"
      "slots_ok (env_pos env) (cw_pending win1)"
      "flush_step (env_pos env) (if reobservation (env_pos env) = Halt then sort_key (env_pos env) pos else opt_max (cw_head win) (sort_key (env_pos env) pos))
         (cw_put (sort_key (env_pos env) pos) pd win1) (snd (w_store w)) win' (snd (w_store w'))"
proof -
  let ?env = "env\<lparr>env_store := logging S\<rparr>" and ?key = "sort_key (env_pos env) pos"
  consider "reobservation (env_pos env) = Dedupe" "cw_covered (env_pos env) win pos"
    | "reobservation (env_pos env) = Halt" "finalized win ?key"
    | "reobservation (env_pos env) = Halt \<longrightarrow> \<not> finalized win ?key" "reobservation (env_pos env) = Dedupe \<longrightarrow> \<not> cw_covered (env_pos env) win pos"
    by (cases "reobservation (env_pos env)") auto
  then show thesis
  proof cases
    case 1
    with run healthy show thesis by (intro Covered) (auto simp: cw_record_def Let_def)
  next
    case 2
    with run healthy show thesis by (intro Finalized) (auto simp: cw_record_def Let_def)
  next
    case 3
    then have go: "\<not> (reobservation (env_pos env) = Dedupe \<and> cw_covered (env_pos env) win pos)"
      "\<not> (reobservation (env_pos env) = Halt \<and> finalized win ?key)" by auto
    obtain x c w1 where enc: "core_encode ?env (cw_core win) w e = (x, c, w1)"
      by (cases "core_encode ?env (cw_core win) w e")
    note st = core_encode_store [OF enc] and he = core_encode_healthy [OF enc]
    show thesis
    proof (cases x)
      case None
      with run healthy go enc he st show thesis
        by (intro Unencodable) (auto simp: cw_record_def Let_def)
    next
      case (Some r)
      let ?win1 = "rewound (env_pos env) ?key (win\<lparr>cw_core := c\<rparr>)"
      have same: "cw_pending ?win1 = cw_pending (rewound (env_pos env) ?key win)"
        "cw_head ?win1 = cw_head (rewound (env_pos env) ?key win)"
        by (auto simp: rewound_def cw_rewind_def head_above_def)
      obtain pd d' where slot: "live_slot (env_pos env) (bt_get (cw_pending ?win1) ?key) pos r = (d', pd)" by fastforce
      obtain win2 w2 where fl: "cw_flush_matured ?env (cw_put ?key pd ?win1) w1 = (win2, w2)" by fastforce
      have "d' = d" "win2 = win'" "w2 = w'"
        using run by (simp_all add: cw_record_rewound Let_def healthy go enc Some slot fl )
      note out = this
      from core_encode_Some [OF enc [unfolded Some]] have rec: "record_encode (env_serde env) (w_record w) e = (Ok r, w_record w1)"
        and sch: "core_schema c \<noteq> None" by auto
      from wf have ok: "slots_ok (env_pos env) (cw_pending ?win1)" by (simp add: cw_wf_def slots_ok_rewound same)
      note key = live_slot_key [OF slot slot_advance_key [OF order ok]]
      have "slots_ok (env_pos env) (cw_pending (cw_put ?key pd ?win1))" using ok key by (simp add: slots_ok_insert)
      from flush_matured_step [OF this _ _ _ fl]
      have fs: "flush_step (env_pos env) (if reobservation (env_pos env) = Halt then ?key else opt_max (cw_head win) ?key)
          (cw_put ?key pd ?win1) (snd (w_store w)) win' (snd (w_store w'))" and "w_record w' = w_record w1"
        using sch he healthy Some st out rewound_head [of "env_pos env" ?key "win\<lparr>cw_core := c\<rparr>"] by auto
      with rec go slot out key ok sch same show thesis
        by (intro Put [of r ?win1 pd]) auto
    qed
  qed
qed

lemma cw_record_seeded_cases:
  assumes order: "position_order (env_pos env)" and wf: "cw_wf (env_pos env) win"
    and healthy: "core_healthy (cw_core win)"
    and run: "cw_record_seeded (env\<lparr>env_store := logging S\<rparr>) win w pos e = (d, win', w')"
  obtains
    (Covered) "reobservation (env_pos env) = Dedupe" "cw_covered (env_pos env) win pos" "\<not> d"
      "win' = win" "w' = w"
  | (Backwards) "reobservation (env_pos env) = Halt" "head_above win (sort_key (env_pos env) pos)" "d"
      "win' = cw_fail win" "w' = w"
  | (Unencodable) "d" "cw_pending win' = []" "\<not> core_healthy (cw_core win')" "w_store w' = w_store w"
      "cw_flushed win' = cw_flushed win" "cw_watermark win' = cw_watermark win"
      "cw_head win' = cw_head win" "cw_depth win' = cw_depth win"
  | (Put) r win1 where "d"
      "reobservation (env_pos env) = Halt \<longrightarrow> \<not> head_above win (sort_key (env_pos env) pos)"
      "reobservation (env_pos env) = Dedupe \<longrightarrow> \<not> cw_covered (env_pos env) win pos"
      "record_encode (env_serde env) (w_record w) e = (Ok r, w_record w')"
      "cw_pending win1 = cw_pending win" "cw_depth win1 = cw_depth win" "cw_flushed win1 = cw_flushed win"
      "cw_watermark win1 = cw_watermark win" "core_schema (cw_core win1) \<noteq> None"
      "cw_head win1 = cw_head win"
      "flush_step (env_pos env) (opt_max (cw_head win) (sort_key (env_pos env) pos))
         (cw_put (sort_key (env_pos env) pos)
            (seeded_slot (env_pos env) (bt_get (cw_pending win) (sort_key (env_pos env) pos)) pos r) win1)
         (snd (w_store w)) win' (snd (w_store w'))"
proof -
  let ?env = "env\<lparr>env_store := logging S\<rparr>" and ?P = "env_pos env" and ?key = "sort_key (env_pos env) pos"
  consider "reobservation ?P = Dedupe" "cw_covered ?P win pos"
    | "reobservation ?P = Halt" "head_above win ?key"
    | "reobservation ?P = Halt \<longrightarrow> \<not> head_above win ?key" "reobservation ?P = Dedupe \<longrightarrow> \<not> cw_covered ?P win pos"
    by (cases "reobservation ?P") auto
  then show thesis
  proof cases
    case 1
    with run healthy show thesis by (intro Covered) (auto simp: cw_record_seeded_def Let_def)
  next
    case 2
    with run healthy show thesis by (intro Backwards) (auto simp: cw_record_seeded_def Let_def)
  next
    case 3
    then have go: "\<not> (reobservation ?P = Dedupe \<and> cw_covered ?P win pos)"
      "\<not> (reobservation ?P = Halt \<and> head_above win ?key)" by auto
    obtain x c w1 where enc: "core_encode ?env (cw_core win) w e = (x, c, w1)"
      by (cases "core_encode ?env (cw_core win) w e")
    note st = core_encode_store [OF enc] and he = core_encode_healthy [OF enc]
    show thesis
    proof (cases x)
      case None
      with run healthy go enc he st show thesis
        by (intro Unencodable) (auto simp: cw_record_seeded_def Let_def)
    next
      case (Some r)
      let ?win1 = "win\<lparr>cw_core := c\<rparr>"
      let ?pd = "seeded_slot ?P (bt_get (cw_pending win) ?key) pos r"
      obtain win2 w2 where fl: "cw_flush_matured ?env (cw_put ?key ?pd ?win1) w1 = (win2, w2)" by fastforce
      have out: "d" "win2 = win'" "w2 = w'"
        using run by (simp_all add: cw_record_seeded_def Let_def healthy go enc Some fl)
      from core_encode_Some [OF enc [unfolded Some]]
      have rec: "record_encode (env_serde env) (w_record w) e = (Ok r, w_record w1)"
        and sch: "core_schema c \<noteq> None" by auto
      from wf have ok: "slots_ok ?P (cw_pending win)" by (simp add: cw_wf_def)
      note key = seeded_slot_key [OF slot_advance_key [OF order ok]]
      have "slots_ok ?P (cw_pending (cw_put ?key ?pd ?win1))" using ok key by (simp add: slots_ok_insert)
      from flush_matured_step [OF this _ _ _ fl]
      have fs: "flush_step ?P (opt_max (cw_head win) ?key)
          (cw_put ?key ?pd ?win1) (snd (w_store w)) win' (snd (w_store w'))" and "w_record w' = w_record w1"
        using sch he healthy Some st out by auto
      with rec 3 out sch show thesis
        by (intro Put [of r ?win1]) auto
    qed
  qed
qed

text \<open>A halted window never writes again, and every event flows.\<close>

lemma cw_record_halted:
  "\<not> core_healthy (cw_core win) \<Longrightarrow> cw_record env win w pos e = (True, win, w)"
  "\<not> core_healthy (cw_core win) \<Longrightarrow> cw_record_seeded env win w pos e = (True, win, w)"
  "\<not> core_healthy (cw_core win) \<Longrightarrow> cw_retract P pos win = win"
  by (simp_all add: cw_record_def cw_record_seeded_def cw_retract_def Let_def)

section \<open>The invariant of a window over its write log\<close>

text \<open>
  For a Halt source: what has been written is in strictly ascending key order, at or below the
  finalized key, and every buffered key is above it.
\<close>

definition ascending :: "'p position_ops \<Rightarrow> u64 option \<Rightarrow> 'p window \<Rightarrow> 'p write_log \<Rightarrow> bool" where
  "ascending P seed win log \<longleftrightarrow>
     sorted_wrt (<) (map fst (log_groups P log)) \<and>
     (\<forall>k \<in> set (map fst (log_groups P log)). finalized win k \<and> (\<forall>s. seed = Some s \<longrightarrow> s < k)) \<and>
     (\<forall>s. seed = Some s \<longrightarrow> finalized win s) \<and>
     (\<forall>k \<in> set (bt_keys (cw_pending win)). \<not> finalized win k)"

definition buried :: "'p position_ops \<Rightarrow> u64 \<Rightarrow> u64 \<Rightarrow> 'p write_log \<Rightarrow> bool" where
  "buried P depth crest log \<longleftrightarrow> (\<forall>k \<in> set (map fst (log_groups P log)). sat_add k depth \<le> crest)"

lemma flushed_to_bound:
  assumes "flushed_to f m = g"
  shows "(\<forall>x. f = Some x \<longrightarrow> (\<exists>y. g = Some y \<and> x \<le> y))
    \<and> (\<forall>b \<in> set (bt_keys m). \<exists>y. g = Some y \<and> b \<le> y)
    \<and> (\<forall>y. g = Some y \<longrightarrow> f = Some y \<or> y \<in> set (bt_keys m))"
  using assms
proof (induction m arbitrary: f)
  case Nil
  then show ?case by (auto simp: bt_keys_def)
next
  case (Cons bp m)
  obtain b pd where [simp]: "bp = (b, pd)" by (cases bp)
  from Cons.IH [of "Some (opt_max f b)"] Cons.prems show ?case
    by (cases f) (auto simp: max_def split: if_splits)
qed

lemma finalized_flushed:
  assumes "cw_flushed win' = flushed_to (cw_flushed win) m"
  shows "finalized win k \<Longrightarrow> finalized win' k"
    and "k \<in> set (bt_keys m) \<Longrightarrow> finalized win' k"
    and "finalized win' k \<Longrightarrow> finalized win k \<or> (\<exists>b \<in> set (bt_keys m). k \<le> b)"
  using flushed_to_bound [OF assms [symmetric]]
  by (auto simp: finalized_def split: option.splits)

lemma finalized_less: "finalized win a \<Longrightarrow> \<not> finalized win b \<Longrightarrow> a < b"
  by (auto simp: finalized_def split: option.splits)

lemma flush_stepE:
  assumes "flush_step P h win log win' log'"
  obtains m1 m2 where "cw_pending win = m1 @ m2"
    "log_groups P log' = log_groups P log @ pend_groups m1"
    "\<forall>b \<in> set (bt_keys m1). sat_add b (cw_depth win) \<le> h"
    "cw_flushed win' = flushed_to (cw_flushed win) m1"
    "cw_watermark win' = advance_all P (cw_watermark win) (map (\<lambda>(b, pd). pend_position pd) m1)"
    "core_healthy (cw_core win') \<Longrightarrow> cw_pending win' = m2"
    "core_healthy (cw_core win') \<Longrightarrow> \<forall>b \<in> set (bt_keys m2). h < sat_add b (cw_depth win)"
    "cw_pending win' = m2 \<or> cw_pending win' = []"
    "\<not> core_healthy (cw_core win') \<Longrightarrow> cw_pending win' = []"
    "core_schema (cw_core win') = core_schema (cw_core win)" "cw_head win' = cw_head win"
    "cw_depth win' = cw_depth win"
proof -
  from assms obtain m1 m2 where "cw_pending win = m1 @ m2"
    "log_groups P log' = log_groups P log @ pend_groups m1"
    "\<forall>b \<in> set (bt_keys m1). sat_add b (cw_depth win) \<le> h"
    "cw_flushed win' = flushed_to (cw_flushed win) m1"
    "cw_watermark win' = advance_all P (cw_watermark win) (map (\<lambda>(b, pd). pend_position pd) m1)"
    "if core_healthy (cw_core win')
     then cw_pending win' = m2 \<and> (\<forall>b \<in> set (bt_keys m2). h < sat_add b (cw_depth win))
     else cw_pending win' = []"
    "core_schema (cw_core win') = core_schema (cw_core win)" "cw_head win' = cw_head win"
    "cw_depth win' = cw_depth win"
    unfolding flush_step_def by (elim conjE exE)
  then show thesis by (intro that [of m1 m2]) (auto split: if_splits)
qed

lemma flush_step_ascending:
  assumes "flush_step P h win log win' log'" and asc: "ascending P seed win log"
    and wf: "bt_wf (cw_pending win)"
  shows "ascending P seed win' log'"
proof -
  from assms(1) obtain m1 m2 where m: "cw_pending win = m1 @ m2"
    and l: "log_groups P log' = log_groups P log @ pend_groups m1"
    and f: "cw_flushed win' = flushed_to (cw_flushed win) m1"
    and p: "cw_pending win' = m2 \<or> cw_pending win' = []"
    by (elim flush_stepE) blast
  note fin = finalized_flushed [OF f]
  have new: "\<forall>k \<in> set (bt_keys m1). \<not> finalized win k \<and> (\<forall>s. seed = Some s \<longrightarrow> s < k)"
    using asc m unfolding ascending_def by (auto intro: finalized_less [of win])
  have s1: "sorted_wrt (<) (bt_keys m1)" and cross: "\<forall>b \<in> set (bt_keys m1). \<forall>c \<in> set (bt_keys m2). b < c"
    using wf m by (auto simp: bt_wf_append bt_keys_def bt_wf_def sorted_wrt_append)
  have low: "a < b" if "a \<in> set (map fst (log_groups P log))" "b \<in> set (bt_keys m1)" for a b
    using new that asc finalized_less unfolding ascending_def by metis
  have "\<forall>k \<in> set (bt_keys (cw_pending win')). \<not> finalized win' k"
  proof
    fix k assume "k \<in> set (bt_keys (cw_pending win'))"
    with p have k: "k \<in> set (bt_keys m2)" by (auto simp: bt_keys_def)
    with asc m have "\<not> finalized win k" by (auto simp: ascending_def)
    with cross k fin(3) [of k] show "\<not> finalized win' k" by fastforce
  qed
  with asc l new s1 low fin show ?thesis
    by (auto simp: ascending_def sorted_wrt_append)
qed

lemma flush_step_buried:
  assumes "flush_step P h win log win' log'" "buried P (cw_depth win) h0 log" "h0 \<le> crest" "h \<le> crest"
  shows "buried P (cw_depth win') crest log'"
proof -
  from assms(1) obtain m1 m2 where "cw_pending win = m1 @ m2" "log_groups P log' = log_groups P log @ pend_groups m1"
    "\<forall>b \<in> set (bt_keys m1). sat_add b (cw_depth win) \<le> h" "cw_depth win' = cw_depth win"
    by (elim flush_stepE) blast
  with assms show ?thesis by (auto simp: buried_def image_Un simp flip: set_map intro: order_trans)
qed

lemma flush_step_wf:
  assumes "flush_step P h win log win' log'" "slots_ok P (cw_pending win)" "core_schema (cw_core win) \<noteq> None"
  shows "cw_wf P win'"
proof -
  from assms(1) obtain m1 m2 where "cw_pending win = m1 @ m2" "cw_pending win' = m2 \<or> cw_pending win' = []"
    "\<not> core_healthy (cw_core win') \<Longrightarrow> cw_pending win' = []"
    "core_schema (cw_core win') = core_schema (cw_core win)"
    by (elim flush_stepE) blast
  with assms(2,3) slots_ok_append [of P m1 m2] show ?thesis by (auto simp: cw_wf_def)
qed

text \<open>The invariant: \<open>crest\<close> bounds every key seen so far.\<close>

definition cw_inv :: "'p position_ops \<Rightarrow> u64 option \<Rightarrow> u64 \<Rightarrow> 'p window \<Rightarrow> 'p write_log \<Rightarrow> bool" where
  "cw_inv P seed crest win log \<longleftrightarrow> cw_wf P win \<and> ascending P seed win log
     \<and> buried P (cw_depth win) crest log \<and> (\<forall>h. cw_head win = Some h \<longrightarrow> h \<le> crest)"

lemma buried_mono: "buried P d c log \<Longrightarrow> c \<le> c' \<Longrightarrow> buried P d c' log"
  by (auto simp: buried_def intro: order_trans)

lemma ascending_fewer:
  assumes "ascending P seed win log" "cw_flushed win' = cw_flushed win"
    and "set (bt_keys (cw_pending win')) \<subseteq> set (bt_keys (cw_pending win))"
  shows "ascending P seed win' log"
  using assms by (auto simp: ascending_def finalized_def)

lemma cw_inv_quiet:
  assumes "cw_inv P seed crest win log" "cw_wf P win'" "cw_flushed win' = cw_flushed win"
    and "set (bt_keys (cw_pending win')) \<subseteq> set (bt_keys (cw_pending win))"
    and "cw_depth win' = cw_depth win" "\<forall>h. cw_head win' = Some h \<longrightarrow> h \<le> crest'" "crest \<le> crest'"
  shows "cw_inv P seed crest' win' log"
  using assms ascending_fewer [of P seed win log win'] buried_mono
  unfolding cw_inv_def by metis

lemma cw_inv_fail: "cw_inv P seed crest win log \<Longrightarrow> cw_inv P seed crest (cw_fail win) log"
  by (rule cw_inv_quiet) (auto simp: cw_inv_def cw_wf_def bt_keys_def)

lemma cw_inv_mono: "cw_inv P seed crest win log \<Longrightarrow> crest \<le> crest' \<Longrightarrow> cw_inv P seed crest' win log"
  by (rule cw_inv_quiet) (auto simp: cw_inv_def intro: order_trans)

lemma cw_inv_put:
  assumes inv: "cw_inv P seed crest win log"
    and win1: "cw_depth win1 = cw_depth win" "cw_flushed win1 = cw_flushed win"
      "core_schema (cw_core win1) \<noteq> None" "slots_ok P (cw_pending win1)"
      "set (bt_keys (cw_pending win1)) \<subseteq> set (bt_keys (cw_pending win))"
    and key: "\<not> finalized win key" "sort_key P (pend_position pd) = key"
    and fs: "flush_step P h (cw_put key pd win1) log win' log'"
    and h: "opt_max (cw_head win1) key \<le> crest'" "h \<le> crest'" "crest \<le> crest'"
  shows "cw_inv P seed crest' win' log'"
proof -
  let ?w = "cw_put key pd win1"
  have ok: "slots_ok P (cw_pending ?w)" using win1 key by (simp add: slots_ok_insert)
  have "set (bt_keys (cw_pending ?w)) = insert key (set (bt_keys (cw_pending win1)))"
    using bt.keys_insert [OF slots_ok_wf [OF win1(4)]] by simp
  with inv win1 key have asc: "ascending P seed ?w log"
    by (auto simp: cw_inv_def ascending_def finalized_def)
  from fs have "cw_head win' = Some (opt_max (cw_head win1) key)" by (auto elim: flush_stepE)
  moreover have "buried P (cw_depth win') crest' log'"
    using flush_step_buried [OF fs, of crest crest'] inv win1 h by (simp add: cw_inv_def)
  ultimately show ?thesis
    using flush_step_ascending [OF fs asc slots_ok_wf [OF ok]] flush_step_wf [OF fs ok] win1 h
    by (simp add: cw_inv_def)
qed

lemma cw_record_inv:
  assumes order: "position_order (env_pos env)" and halt: "reobservation (env_pos env) = Halt"
    and inv: "cw_inv (env_pos env) seed crest win (snd (w_store w))"
    and run: "cw_record (env\<lparr>env_store := logging S\<rparr>) win w pos e = (d, win', w')"
    and crest: "crest \<le> crest'" "sort_key (env_pos env) pos \<le> crest'"
  shows "cw_inv (env_pos env) seed crest' win' (snd (w_store w'))"
proof (cases "core_healthy (cw_core win)")
  case False
  with run inv crest show ?thesis by (auto simp: cw_record_halted cw_inv_mono)
next
  case True
  from inv have wf: "cw_wf (env_pos env) win" by (simp add: cw_inv_def)
  from order wf True run show ?thesis
  proof (cases rule: cw_record_cases)
    case Covered
    with halt show ?thesis by simp
  next
    case Finalized
    with inv crest show ?thesis by (auto intro: cw_inv_fail cw_inv_mono)
  next
    case Unencodable
    have "cw_inv (env_pos env) seed crest' win' (snd (w_store w))"
      by (rule cw_inv_quiet [OF inv]) (use Unencodable inv crest in \<open>auto simp: cw_inv_def cw_wf_def bt_keys_def intro: order_trans\<close>)
    with Unencodable show ?thesis by simp
  next
    case (Put r pd win1)
    show ?thesis
      by (rule cw_inv_put [OF inv _ _ _ _ _ _ Put(11,13)])
        (use Put halt crest keys_rewound in \<open>auto simp: rewound_head\<close>)
  qed
qed

lemma cw_record_seeded_inv:
  assumes order: "position_order (env_pos env)" and halt: "reobservation (env_pos env) = Halt"
    and inv: "cw_inv (env_pos env) seed crest win (snd (w_store w))"
    and run: "cw_record_seeded (env\<lparr>env_store := logging S\<rparr>) win w pos e = (d, win', w')"
    and crest: "crest \<le> crest'" "sort_key (env_pos env) pos \<le> crest'"
    and above: "\<not> finalized win (sort_key (env_pos env) pos)"
  shows "cw_inv (env_pos env) seed crest' win' (snd (w_store w'))"
proof (cases "core_healthy (cw_core win)")
  case False
  with run inv crest show ?thesis by (auto simp: cw_record_halted cw_inv_mono)
next
  case True
  from inv have wf: "cw_wf (env_pos env) win" by (simp add: cw_inv_def)
  from inv crest have top: "opt_max (cw_head win) (sort_key (env_pos env) pos) \<le> crest'"
    by (cases "cw_head win") (auto simp: cw_inv_def intro: order_trans)
  from order wf True run show ?thesis
  proof (cases rule: cw_record_seeded_cases)
    case Covered
    with halt show ?thesis by simp
  next
    case Backwards
    with inv crest show ?thesis by (auto intro: cw_inv_fail cw_inv_mono)
  next
    case Unencodable
    have "cw_inv (env_pos env) seed crest' win' (snd (w_store w))"
      by (rule cw_inv_quiet [OF inv]) (use Unencodable inv crest in \<open>auto simp: cw_inv_def cw_wf_def bt_keys_def intro: order_trans\<close>)
    with Unencodable show ?thesis by simp
  next
    case (Put r win1)
    from wf have ok: "slots_ok (env_pos env) (cw_pending win)" by (simp add: cw_wf_def)
    note key = seeded_slot_key [OF slot_advance_key [OF order ok]]
    show ?thesis
      by (rule cw_inv_put [OF inv _ _ _ _ _ above key Put(11)])
        (use Put ok top crest in auto)
  qed
qed

lemma cw_retract_inv:
  assumes "cw_inv P seed crest win log"
  shows "cw_inv P seed crest (cw_retract P pos win) log"
proof -
  consider "cw_retract P pos win = win" | "cw_retract P pos win = cw_fail win"
    | "cw_retract P pos win = (cw_rewind (sort_key P pos) win)\<lparr>cw_head :=
         map_option (\<lambda>h. min h (sat_sub (sort_key P pos) 1)) (cw_head win)\<rparr>" "core_healthy (cw_core win)"
    unfolding cw_retract_def Let_def cw_rewind_simps by metis
  then show ?thesis
  proof cases
    case 3
    let ?k = "sort_key P pos" and ?win = "cw_retract P pos win"
    from assms have "slots_ok P (cw_pending win)" "cw_pending win \<noteq> [] \<longrightarrow> core_schema (cw_core win) \<noteq> None"
      by (auto simp: cw_inv_def cw_wf_def)
    with 3 have "cw_wf P ?win"
      using slots_ok_rewind [of P win ?k] by (auto simp: cw_wf_def cw_rewind_def)
    moreover have "set (bt_keys (cw_pending ?win)) \<subseteq> set (bt_keys (cw_pending win))"
      using 3 keys_rewind [of ?k win] by simp
    moreover have "\<forall>h. cw_head ?win = Some h \<longrightarrow> h \<le> crest"
      using 3 assms by (auto simp: cw_inv_def intro: min.coboundedI1)
    ultimately show ?thesis
      by (intro cw_inv_quiet [OF assms]) (use 3 in auto)
  qed (simp_all add: assms cw_inv_fail)
qed

lemma finalized_absorb:
  "finalized (cw_absorb P settled win) k \<longleftrightarrow>
     finalized win k \<or> (case settled of Some p \<Rightarrow> k \<le> sort_key P p | None \<Rightarrow> False)"
  by (auto simp: cw_absorb_def finalized_def le_max_iff_disj split: option.splits)

lemma cw_absorb_simps [simp]:
  "cw_core (cw_absorb P x win) = cw_core win" "cw_depth (cw_absorb P x win) = cw_depth win"
  "cw_pending (cw_absorb P x win) = cw_pending win" "cw_head (cw_absorb P x win) = cw_head win"
  by (simp_all add: cw_absorb_def split: option.splits)

lemma cw_absorb_inv:
  assumes "cw_inv P seed crest win log"
    and "\<forall>p. settled = Some p \<longrightarrow> (\<forall>k \<in> set (bt_keys (cw_pending win)). sort_key P p < k)"
  shows "cw_inv P seed crest (cw_absorb P settled win) log"
proof -
  have "ascending P seed (cw_absorb P settled win) log"
    using assms by (fastforce simp: cw_inv_def ascending_def finalized_absorb split: option.splits)
  with assms(1) show ?thesis by (simp add: cw_inv_def cw_wf_def)
qed

end
