(* ===== verification/Chain.thy ===== *)
theory Chain
  imports Confirmation_Window
begin

text \<open>
  The abstract specification of the confirmation window for a block-like (Halt) source: the
  canonical chain of groups as the events so far describe it, with nothing flushed, nothing
  matured and no confirmation depth.  A healthy window refines it: what it has written followed
  by what it buffers is the chain.
\<close>

section \<open>The specification\<close>

text \<open>
  A chain maps a key to its rows and whether they still are the backfill's copy; next to it the
  highest key of the current fork.
\<close>

type_synonym chain = "(u64, row list \<times> bool) btree"
type_synonym chain_state = "u64 option \<times> chain"

definition chain_groups :: "chain \<Rightarrow> (u64 \<times> row list) list" where
  "chain_groups ch = map (\<lambda>(b, rs, sd). (b, rs)) ch"

text \<open>
  A fork at \<open>k\<close>: live groups from there on are gone; backfilled ones keep their place, emptied,
  until the live feed fills them.
\<close>

definition chain_rewind :: "u64 \<Rightarrow> chain \<Rightarrow> chain" where
  "chain_rewind k ch =
     map (\<lambda>(b, rs, sd). (b, if k \<le> b \<and> sd then ([], False) else (rs, sd)))
       (filter (\<lambda>(b, rs, sd). \<not> (k \<le> b \<and> \<not> sd)) ch)"

fun chain_live :: "u64 \<Rightarrow> row \<Rightarrow> chain_state \<Rightarrow> chain_state" where
  "chain_live k r (h, ch) =
     (let ch = (if \<exists>x \<in> set_option h. k < x then chain_rewind k ch else ch) in
      (Some k,
       bt_insert k
         (case bt_get ch k of
            None \<Rightarrow> ([r], False)
          | Some (rs, sd) \<Rightarrow> ((if sd then [] else rs) @ [r], False)) ch))"

fun chain_seed :: "u64 \<Rightarrow> row \<Rightarrow> chain_state \<Rightarrow> chain_state" where
  "chain_seed k r (h, ch) =
     (Some (opt_max h k),
      bt_insert k
        (case bt_get ch k of None \<Rightarrow> ([r], True) | Some (rs, sd) \<Rightarrow> (rs @ [r], sd)) ch)"

fun chain_retract :: "u64 \<Rightarrow> chain_state \<Rightarrow> chain_state" where
  "chain_retract k (h, ch) = (map_option (\<lambda>h. min h (sat_sub k 1)) h, chain_rewind k ch)"

lemma chain_groups_simps [simp]:
  "chain_groups [] = []" "chain_groups ((b, rs, sd) # ch) = (b, rs) # chain_groups ch"
  "chain_groups (c @ d) = chain_groups c @ chain_groups d"
  by (simp_all add: chain_groups_def)

lemma map_fst_chain_groups [simp]: "map fst (chain_groups ch) = bt_keys ch"
  by (induction ch) auto

lemma chain_rewind_simps [simp]:
  "chain_rewind k [] = []"
  "chain_rewind k (c @ d) = chain_rewind k c @ chain_rewind k d"
  by (simp_all add: chain_rewind_def)

lemma chain_rewind_below: "\<forall>b \<in> set (bt_keys ch). b < k \<Longrightarrow> chain_rewind k ch = ch"
  by (induction ch) (auto simp: chain_rewind_def bt_keys_def)

section \<open>The refinement\<close>

definition pend_chain :: "(u64, 'p pending) btree \<Rightarrow> chain" where
  "pend_chain m = map (\<lambda>(b, pd). (b, pend_rows pd, pend_seeded pd)) m"

definition chain_sim :: "'p position_ops \<Rightarrow> 'p window \<Rightarrow> 'p write_log \<Rightarrow> chain_state \<Rightarrow> bool" where
  "chain_sim P win log st \<longleftrightarrow> cw_head win = fst st \<and>
     (\<exists>fl. snd st = fl @ pend_chain (cw_pending win) \<and> chain_groups fl = log_groups P log)"

lemma pend_chain_simps [simp]:
  "pend_chain [] = []" "pend_chain ((b, pd) # m) = (b, pend_rows pd, pend_seeded pd) # pend_chain m"
  "pend_chain (m @ n) = pend_chain m @ pend_chain n"
  by (simp_all add: pend_chain_def)

lemma chain_groups_pend_chain [simp]: "chain_groups (pend_chain m) = pend_groups m"
  by (induction m) auto

lemma bt_keys_pend_chain [simp]: "bt_keys (pend_chain m) = bt_keys m"
  by (induction m) auto

lemma pend_chain_insert:
  "pend_chain (bt_insert k pd m) = bt_insert k (pend_rows pd, pend_seeded pd) (pend_chain m)"
  by (induction k pd m rule: bt_insert.induct) auto

lemma pend_chain_get:
  "bt_get (pend_chain m) k = map_option (\<lambda>pd. (pend_rows pd, pend_seeded pd)) (bt_get m k)"
  by (induction m) (auto simp: bt_get_def)

lemma pend_chain_rewind: "pend_chain (cw_pending (cw_rewind k win)) = chain_rewind k (pend_chain (cw_pending win))"
proof -
  have "pend_chain (map (\<lambda>(b, pd). (b, if k \<le> b \<and> pend_seeded pd then pend_convert pd else pd))
      (filter (\<lambda>(b, pd). \<not> (k \<le> b \<and> \<not> pend_seeded pd)) m)) = chain_rewind k (pend_chain m)" for m :: "(u64, 'a pending) btree"
    by (induction m) (auto simp: chain_rewind_def pend_convert_def split: if_splits)
  then show ?thesis by (simp add: cw_rewind_def)
qed

text \<open>Nothing written is at or above a key that is not finalized.\<close>

lemma chain_split_get:
  assumes "\<forall>b \<in> set (bt_keys fl). b < k"
  shows "bt_get (fl @ ch) k = bt_get ch k" "bt_insert k v (fl @ ch) = fl @ bt_insert k v ch"
  using assms by (auto intro!: bt_get_append bt_insert_append simp: bt_keys_def)

lemma chain_sim_put:
  assumes fl: "ch = fl @ pend_chain (cw_pending win1)" "chain_groups fl = log_groups P log"
    and fs: "flush_step P h (cw_put key pd win1) log win' log'" and healthy: "core_healthy (cw_core win')"
    and new: "ch' = fl @ bt_insert key (pend_rows pd, pend_seeded pd) (pend_chain (cw_pending win1))"
    and hd: "opt_max (cw_head win1) key = hd'"
  shows "chain_sim P win' log' (Some hd', ch')"
proof -
  from fs healthy obtain m1 m2 where m: "bt_insert key pd (cw_pending win1) = m1 @ m2"
    and "log_groups P log' = log_groups P log @ pend_groups m1" "cw_pending win' = m2"
    and "cw_head win' = Some hd'"
    using hd by (elim flush_stepE) auto
  with fl new show ?thesis
    by (auto simp: chain_sim_def simp flip: pend_chain_insert intro!: exI [of _ "fl @ pend_chain m1"])
qed

lemma live_slot_rows:
  "live_slot P slot pos r = (d, pd) \<Longrightarrow> reobservation P = Halt \<Longrightarrow>
     (pend_rows pd, pend_seeded pd) =
       (case map_option (\<lambda>pd. (pend_rows pd, pend_seeded pd)) slot of
          None \<Rightarrow> ([r], False)
        | Some (rs, sd) \<Rightarrow> ((if sd then [] else rs) @ [r], False))"
  by (auto simp: live_slot_def pend_convert_def Let_def split: option.splits if_splits)

lemma seeded_slot_rows:
  "(pend_rows (seeded_slot P slot pos r), pend_seeded (seeded_slot P slot pos r)) =
     (case map_option (\<lambda>pd. (pend_rows pd, pend_seeded pd)) slot of
        None \<Rightarrow> ([r], True) | Some (rs, sd) \<Rightarrow> (rs @ [r], sd))"
  by (auto simp: seeded_slot_def split: option.splits)

lemma below_key:
  assumes "ascending P seed win log" "\<not> finalized win k" "chain_groups fl = log_groups P log"
  shows "\<forall>b \<in> set (bt_keys fl). b < k"
proof -
  have "map fst (log_groups P log) = bt_keys fl" by (simp flip: assms(3))
  with assms(1,2) show ?thesis by (auto simp: ascending_def intro: finalized_less)
qed

lemma cw_record_sim:
  assumes order: "position_order (env_pos env)" and halt: "reobservation (env_pos env) = Halt"
    and inv: "cw_inv (env_pos env) seed crest win (snd (w_store w))"
    and sim: "chain_sim (env_pos env) win (snd (w_store w)) st"
    and run: "cw_record (env\<lparr>env_store := logging S\<rparr>) win w pos e = (d, win', w')"
    and healthy: "core_healthy (cw_core win')"
  shows "\<exists>r. record_encode (env_serde env) (w_record w) e = (Ok r, w_record w') \<and>
    chain_sim (env_pos env) win' (snd (w_store w')) (chain_live (sort_key (env_pos env) pos) r st)"
proof -
  from run healthy have h: "core_healthy (cw_core win)"
    by (cases "core_healthy (cw_core win)") (auto simp: cw_record_halted)
  from inv have wf: "cw_wf (env_pos env) win" by (simp add: cw_inv_def)
  let ?key = "sort_key (env_pos env) pos"
  from order wf h run show ?thesis
  proof (cases rule: cw_record_cases)
    case (Put r pd win1)
    from sim obtain fl where fl: "snd st = fl @ pend_chain (cw_pending win)"
      and log: "chain_groups fl = log_groups (env_pos env) (snd (w_store w))" and hd: "cw_head win = fst st"
      by (auto simp: chain_sim_def)
    from Put(1) halt inv log have below: "\<forall>b \<in> set (bt_keys fl). b < ?key"
      by (intro below_key [of "env_pos env" seed win "snd (w_store w)"]) (auto simp: cw_inv_def)
    let ?ch = "if \<exists>x \<in> set_option (fst st). ?key < x then chain_rewind ?key (snd st) else snd st"
    have ch: "?ch = fl @ pend_chain (cw_pending win1)"
      using halt below hd by (auto simp: Put(4) rewound_def head_above_def fl pend_chain_rewind chain_rewind_below
          split: option.splits)
    have "chain_sim (env_pos env) win' (snd (w_store w')) (Some ?key, bt_insert ?key
        (case bt_get ?ch ?key of None \<Rightarrow> ([r], False)
          | Some (rs, sd) \<Rightarrow> ((if sd then [] else rs) @ [r], False)) ?ch)"
      by (rule chain_sim_put [OF ch log Put(13) healthy])
        (use halt live_slot_rows [OF Put(10) halt] below
          in \<open>auto simp: ch chain_split_get pend_chain_get Put(9) rewound_head\<close>)
    with Put(3) show ?thesis by (cases st) (auto simp: Let_def)
  qed (use halt healthy in auto)
qed

lemma cw_record_seeded_sim:
  assumes order: "position_order (env_pos env)" and halt: "reobservation (env_pos env) = Halt"
    and inv: "cw_inv (env_pos env) seed crest win (snd (w_store w))"
    and above: "\<not> finalized win (sort_key (env_pos env) pos)"
    and sim: "chain_sim (env_pos env) win (snd (w_store w)) st"
    and run: "cw_record_seeded (env\<lparr>env_store := logging S\<rparr>) win w pos e = (d, win', w')"
    and healthy: "core_healthy (cw_core win')"
  shows "\<exists>r. record_encode (env_serde env) (w_record w) e = (Ok r, w_record w') \<and>
    chain_sim (env_pos env) win' (snd (w_store w')) (chain_seed (sort_key (env_pos env) pos) r st)"
proof -
  from run healthy have h: "core_healthy (cw_core win)"
    by (cases "core_healthy (cw_core win)") (auto simp: cw_record_halted)
  from inv have wf: "cw_wf (env_pos env) win" by (simp add: cw_inv_def)
  let ?key = "sort_key (env_pos env) pos"
  from order wf h run show ?thesis
  proof (cases rule: cw_record_seeded_cases)
    case (Put r win1)
    from sim obtain fl where fl: "snd st = fl @ pend_chain (cw_pending win)"
      and log: "chain_groups fl = log_groups (env_pos env) (snd (w_store w))" and hd: "cw_head win = fst st"
      by (auto simp: chain_sim_def)
    from above inv log have below: "\<forall>b \<in> set (bt_keys fl). b < ?key"
      by (intro below_key [of "env_pos env" seed win "snd (w_store w)"]) (auto simp: cw_inv_def)
    have ch: "snd st = fl @ pend_chain (cw_pending win1)" using fl Put(5) by simp
    have "chain_sim (env_pos env) win' (snd (w_store w')) (Some (opt_max (fst st) ?key), bt_insert ?key
        (case bt_get (snd st) ?key of None \<Rightarrow> ([r], True) | Some (rs, sd) \<Rightarrow> (rs @ [r], sd)) (snd st))"
      by (rule chain_sim_put [OF ch log Put(11) healthy])
        (use below in \<open>auto simp: ch chain_split_get pend_chain_get seeded_slot_rows Put(5,10) hd\<close>)
    with Put(4) show ?thesis by (cases st) auto
  qed (use halt healthy in auto)
qed

lemma cw_retract_sim:
  assumes halt: "reobservation P = Halt" and inv: "cw_inv P seed crest win log"
    and sim: "chain_sim P win log st" and healthy: "core_healthy (cw_core (cw_retract P pos win))"
  shows "chain_sim P (cw_retract P pos win) log (chain_retract (sort_key P pos) st)"
proof -
  let ?key = "sort_key P pos"
  from healthy halt have h: "core_healthy (cw_core win)" and nf: "\<not> finalized win ?key"
    by (auto simp: cw_retract_def Let_def split: if_splits)
  from sim obtain fl where fl: "snd st = fl @ pend_chain (cw_pending win)"
    and log: "chain_groups fl = log_groups P log" and hd: "cw_head win = fst st"
    by (auto simp: chain_sim_def)
  have below: "\<forall>b \<in> set (bt_keys fl). b < ?key"
    using below_key [of P seed win log ?key fl] inv nf log by (simp add: cw_inv_def)
  from h nf halt have "cw_retract P pos win =
      (cw_rewind ?key win)\<lparr>cw_head := map_option (\<lambda>h. min h (sat_sub ?key 1)) (cw_head win)\<rparr>"
    by (simp add: cw_retract_def Let_def)
  with fl log hd below show ?thesis
    by (cases st) (auto simp: chain_sim_def chain_rewind_below simp flip: pend_chain_rewind)
qed

section \<open>Chains of ordered feeds\<close>

text \<open>A feed in key order builds its groups; so does a fork, on the chain below it.\<close>

lemma chain_live_append:
  assumes "\<forall>x \<in> set_option h. x \<le> k" "\<forall>p \<in> set ch. fst p \<le> k \<and> \<not> snd (snd p)" "bt_wf ch"
  shows "\<exists>ch'. chain_live k r (h, ch) = (Some k, ch') \<and> chain_groups ch' = add_row (k, r) (chain_groups ch)
    \<and> (\<forall>p \<in> set ch'. fst p \<le> k \<and> \<not> snd (snd p)) \<and> bt_wf ch'"
proof (cases ch rule: rev_cases)
  case Nil
  with assms show ?thesis by (auto simp: add_row_def bt_get_def)
next
  case (snoc c p)
  obtain b rs sd where p: "p = (b, rs, sd)" by (cases p)
  from assms(2,3) snoc p have sd: "\<not> sd" and bk: "b \<le> k" and low: "\<forall>q \<in> set c. fst q < b"
    by (auto simp: bt_wf_append)
  have st: "(if \<exists>x \<in> set_option h. k < x then chain_rewind k ch else ch) = ch" using assms(1) by fastforce
  have wf: "bt_wf (bt_insert k v ch)" for v :: "row list \<times> bool" using assms(3) by simp
  show ?thesis
  proof (cases "b = k")
    case True
    then have "bt_get ch k = Some (rs, sd)" and "bt_insert k v ch = c @ [(k, v)]" for v
      using snoc p low assms(3) by (auto simp: bt_get_Some_iff bt_insert_last)
    with snoc p True sd st low wf [of "(rs @ [r], False)"] assms(2) show ?thesis
      by (auto simp: add_row_def)
  next
    case False
    with bk have "b < k" by simp
    with low snoc p have all: "\<forall>q \<in> set ch. fst q < k" by auto
    then have "bt_get ch k = None" and "bt_insert k v ch = ch @ [(k, v)]" for v
      by (auto simp: bt_get_None_iff bt_insert_above)
    with snoc p False sd st wf [of "([r], False)"] assms(2) show ?thesis
      by (auto simp: add_row_def less_imp_le)
  qed
qed

definition chain_feed :: "(u64 \<times> row) list \<Rightarrow> chain_state \<Rightarrow> chain_state" where
  "chain_feed krs st = foldl (\<lambda>st (k, r). chain_live k r st) st krs"

lemma chain_feed_simps [simp]:
  "chain_feed [] st = st" "chain_feed ((k, r) # krs) st = chain_feed krs (chain_live k r st)"
  "chain_feed (krs @ lrs) st = chain_feed lrs (chain_feed krs st)"
  by (simp_all add: chain_feed_def)

definition plain_chain :: "u64 option \<Rightarrow> chain \<Rightarrow> bool" where
  "plain_chain h ch \<longleftrightarrow> bt_wf ch \<and> (\<forall>p \<in> set ch. (\<exists>x. h = Some x \<and> fst p \<le> x) \<and> \<not> snd (snd p))"

lemma plain_chain_live:
  assumes "plain_chain h ch" "\<forall>x \<in> set_option h. x \<le> k" "chain_live k r (h, ch) = (h', ch')"
  shows "plain_chain h' ch' \<and> h' = Some k \<and> chain_groups ch' = add_row (k, r) (chain_groups ch)"
proof -
  from assms(1,2) have "\<forall>p \<in> set ch. fst p \<le> k \<and> \<not> snd (snd p)"
    by (fastforce simp: plain_chain_def)
  from chain_live_append [OF assms(2) this, of r] assms show ?thesis
    by (auto simp: plain_chain_def)
qed

lemma chain_feed_ordered:
  assumes "sorted (map fst krs)" "\<forall>x \<in> set_option h. \<forall>k \<in> set (map fst krs). x \<le> k"
    and "plain_chain h ch" "chain_groups ch = groups lrs" "chain_feed krs (h, ch) = (h', ch')"
  shows "plain_chain h' ch' \<and> chain_groups ch' = groups (lrs @ krs)
    \<and> h' = (if krs = [] then h else Some (fst (last krs)))"
  using assms
proof (induction krs arbitrary: h ch lrs)
  case Nil
  then show ?case by simp
next
  case (Cons kr krs)
  obtain k r where kr: "kr = (k, r)" by (cases kr)
  obtain h1 ch1 where st: "chain_live k r (h, ch) = (h1, ch1)" by (cases "chain_live k r (h, ch)")
  from plain_chain_live [OF Cons.prems(3) _ st] Cons.prems(2,4) kr
  have one: "plain_chain h1 ch1" "h1 = Some k" "chain_groups ch1 = groups (lrs @ [kr])"
    by (auto simp: groups_snoc)
  from Cons.prems(1,5) kr st one(2) have "chain_feed krs (h1, ch1) = (h', ch')" "sorted (map fst krs)"
    "\<forall>x \<in> set_option h1. \<forall>k \<in> set (map fst krs). x \<le> k" by auto
  from Cons.IH [OF this(2,3) one(1,3) this(1)] one(2) kr show ?case by (cases krs) auto
qed

lemma groups_split:
  assumes "\<forall>k \<in> set (map fst krs). k < c" "\<forall>k \<in> set (map fst lrs). c \<le> k"
  shows "groups (krs @ lrs) = groups krs @ groups lrs"
  using assms(2)
proof (induction lrs rule: rev_induct)
  case Nil
  then show ?case by simp
next
  case (snoc kr lrs)
  have "krs \<noteq> [] \<Longrightarrow> fst (last (groups krs)) < fst kr"
    using groups_last_key [of krs] assms(1) snoc.prems by (cases krs rule: rev_cases) auto
  moreover have "krs = [] \<Longrightarrow> groups krs = []" by simp
  ultimately have "add_row kr (groups krs @ groups lrs) = groups krs @ add_row kr (groups lrs)"
    by (cases "krs = []") (auto simp: add_row_def butlast_append last_append groups_last_key)
  with snoc show ?case using groups_snoc [of "krs @ lrs" kr] by (simp add: groups_snoc)
qed

lemma groups_keys: "fst ` set (groups krs) = fst ` set krs"
proof (induction krs rule: rev_induct)
  case Nil
  then show ?case by simp
next
  case (snoc kr krs)
  have "fst ` set (add_row kr gs) = insert (fst kr) (fst ` set gs)" for gs
    by (cases gs rule: rev_cases) (auto simp: add_row_def)
  with snoc show ?case by (simp add: groups_snoc)
qed

lemma groups_below:
  assumes "sorted (map fst krs)"
  shows "filter (\<lambda>g. fst g < c) (groups krs) = groups (filter (\<lambda>kr. fst kr < c) krs)"
proof -
  let ?lo = "filter (\<lambda>kr. fst kr < c) krs" and ?hi = "filter (\<lambda>kr. \<not> fst kr < c) krs"
  have "?lo @ ?hi = krs"
    using assms
  proof (induction krs)
    case Nil
    then show ?case by simp
  next
    case (Cons kr krs)
    show ?case
    proof (cases "fst kr < c")
      case True
      with Cons show ?thesis by simp
    next
      case False
      with Cons.prems have "\<forall>x \<in> set krs. \<not> fst x < c" by fastforce
      with False show ?thesis by simp
    qed
  qed
  moreover have "groups (?lo @ ?hi) = groups ?lo @ groups ?hi"
    by (rule groups_split [where c = c]) auto
  moreover have "\<forall>g \<in> set (groups ?lo). fst g < c" "\<forall>g \<in> set (groups ?hi). \<not> fst g < c"
    using groups_keys [of ?lo] groups_keys [of ?hi] by (auto simp: image_iff set_eq_iff)
  ultimately have "groups krs = groups ?lo @ groups ?hi" "filter (\<lambda>g. fst g < c) (groups ?lo) = groups ?lo"
    "filter (\<lambda>g. fst g < c) (groups ?hi) = []" by (simp_all add: filter_empty_conv)
  then show ?thesis by simp
qed

lemma chain_groups_rewind:
  "\<forall>p \<in> set ch. \<not> snd (snd p) \<Longrightarrow> chain_groups (chain_rewind k ch) = filter (\<lambda>g. fst g < k) (chain_groups ch)"
  by (induction ch) (auto simp: chain_rewind_def split: if_splits)

text \<open>An ordered feed, then a fork at a lower key: the chain below it followed by the new fork.\<close>

lemma chain_fork:
  assumes old: "sorted (map fst krs)" "krs \<noteq> []" and new: "sorted (k # map fst lrs)"
    and fork: "k < fst (last krs)"
  shows "chain_groups (snd (chain_feed (krs @ (k, r) # lrs) (None, []))) =
    groups (filter (\<lambda>kr. fst kr < k) krs @ (k, r) # lrs)"
proof -
  obtain h ch where st: "chain_feed krs (None, []) = (h, ch)" by (cases "chain_feed krs (None, [])")
  from chain_feed_ordered [OF old(1) _ _ _ st, of "[]"] old(2)
  have ch: "plain_chain h ch" "chain_groups ch = groups krs" "h = Some (fst (last krs))"
    by (auto simp: plain_chain_def)
  let ?ch = "chain_rewind k ch"
  have g: "chain_groups ?ch = groups (filter (\<lambda>kr. fst kr < k) krs)"
    using ch old(1) by (subst chain_groups_rewind) (auto simp: plain_chain_def groups_below)
  have keys: "\<forall>p \<in> set ?ch. fst p < k \<and> \<not> snd (snd p)"
    using ch(1) by (auto simp: chain_rewind_def plain_chain_def)
  have wf: "bt_wf ?ch"
  proof -
    have "bt_keys ?ch = bt_keys (filter (\<lambda>(b, rs, sd). \<not> (k \<le> b \<and> \<not> sd)) ch)"
      by (induction ch) (auto simp: chain_rewind_def)
    moreover have "bt_wf (filter (\<lambda>(b, rs, sd). \<not> (k \<le> b \<and> \<not> sd)) ch)"
      using ch(1) by (simp add: plain_chain_def)
    ultimately show ?thesis by (simp add: bt_wf_def bt_keys_def)
  qed
  have same: "chain_live k r (h, ch) = chain_live k r (Some k, ?ch)"
    using fork ch(3) by simp
  obtain h2 ch2 where st2: "chain_feed ((k, r) # lrs) (Some k, ?ch) = (h2, ch2)" by fastforce
  have "chain_groups ch2 = groups (filter (\<lambda>kr. fst kr < k) krs @ (k, r) # lrs)"
    using chain_feed_ordered [OF _ _ _ g st2] new keys wf by (auto simp: plain_chain_def less_imp_le)
  with st st2 same show ?thesis by (simp del: chain_live.simps)
qed

end
