(* ===== verification/Persist_Emit.thy ===== *)
theory Persist_Emit
  imports Block_Writer Chain
begin

text \<open>
  \<open>persist_and_emit\<close> (\<open>src/src/persistence/writer/mod.rs\<close>): the backfill routed between the two
  writers at the final cut, then the live tail through the window.  Streams are lists here: the
  items the source delivered; the result is what was delivered downstream and the state after.
\<close>

datatype ('p, 'e) indexed = Event 'p 'e | Retract 'p

definition settles :: "u64 option \<Rightarrow> u64 \<Rightarrow> bool" where
  "settles final_cut k \<longleftrightarrow> (case final_cut of Some fcut \<Rightarrow> k \<le> fcut | None \<Rightarrow> False)"

definition window_seed :: "'p position_ops \<Rightarrow> u64 option \<Rightarrow> 'p option \<Rightarrow> 'p option" where
  "window_seed P final_cut seed =
     (case final_cut of
        Some fcut \<Rightarrow> Some (advance P seed (from_sort_key P fcut))
      | None \<Rightarrow> seed)"

fun pe_backfill ::
  "('p, 'e, 's) writer_env \<Rightarrow> u64 option \<Rightarrow> ('p \<times> 'e) list \<Rightarrow> 'p block_writer \<Rightarrow> 'p window \<Rightarrow> 's world
     \<Rightarrow> 'e list \<times> 'p block_writer \<times> 'p window \<times> 's world" where
  "pe_backfill env fcut [] bw win w = ([], bw, win, w)"
| "pe_backfill env fcut ((pos, e) # pes) bw win w =
     (let (delivered, bw, win, w) =
        (if settles fcut (sort_key (env_pos env) pos)
         then (case bw_record env bw w pos e of (d, bw', w') \<Rightarrow> (d, bw', win, w'))
         else (case cw_record_seeded env win w pos e of (d, win', w') \<Rightarrow> (d, bw, win', w')));
          (out, bw, win, w) = pe_backfill env fcut pes bw win w
      in (if delivered then e # out else out, bw, win, w))"

fun pe_live ::
  "('p, 'e, 's) writer_env \<Rightarrow> ('p, 'e) indexed list \<Rightarrow> 'p window \<Rightarrow> 's world
     \<Rightarrow> 'e list \<times> 'p window \<times> 's world" where
  "pe_live env [] win w = ([], win, w)"
| "pe_live env (Event pos e # items) win w =
     (let (delivered, win, w) = cw_record env win w pos e;
          (out, win, w) = pe_live env items win w
      in (if delivered then e # out else out, win, w))"
| "pe_live env (Retract pos # items) win w = pe_live env items (cw_retract (env_pos env) pos win) w"

text \<open>Between the two phases.\<close>

definition pe_handover :: "'p position_ops \<Rightarrow> 'p block_writer \<Rightarrow> 'p window \<Rightarrow> 'p window" where
  "pe_handover P settled win =
     (if core_healthy (bw_core settled) then cw_absorb P (bw_watermark settled) win else cw_halt win)"

definition persist_and_emit ::
  "('p, 'e, 's) writer_env \<Rightarrow> ('p \<times> 'e) list \<Rightarrow> ('p, 'e) indexed list \<Rightarrow> u64 \<Rightarrow> u64 option \<Rightarrow> 'p option
     \<Rightarrow> 's world \<Rightarrow> 'e list \<times> 'p block_writer \<times> 'p window \<times> 's world" where
  "persist_and_emit env backfill live depth final_cut seed w =
     (let P = env_pos env;
          (out, settled, win, w) =
            pe_backfill env final_cut backfill (bw_new seed) (cw_new P depth (window_seed P final_cut seed)) w;
          (settled, w) = bw_finish env settled w;
          win = pe_handover P settled win;
          (out', win, w) = pe_live env live win w
      in (out @ out', settled, win, w))"

section \<open>What flows downstream\<close>

lemma cw_record_seeded_delivers:
  "reobservation (env_pos env) = Halt \<Longrightarrow> cw_record_seeded env win w pos e = (d, win', w') \<Longrightarrow> d"
  by (auto simp: cw_record_seeded_def Let_def split: if_splits option.splits prod.splits)

lemma pe_backfill_delivers:
  "reobservation (env_pos env) = Halt \<Longrightarrow> pe_backfill env fcut pes bw win w = (out, bw', win', w') \<Longrightarrow>
     out = map snd pes"
proof (induction pes arbitrary: bw win w out)
  case Nil
  then show ?case by simp
next
  case (Cons pe pes)
  obtain pos e where [simp]: "pe = (pos, e)" by (cases pe)
  from Cons.prems bw_record_delivers [of env bw w pos e] cw_record_seeded_delivers [of env win w pos e]
  show ?case
    by (auto simp: Let_def split: prod.splits if_splits dest: Cons.IH [OF Cons.prems(1)])
qed

fun events_of :: "('p, 'e) indexed list \<Rightarrow> 'e list" where
  "events_of [] = []"
| "events_of (Event pos e # items) = e # events_of items"
| "events_of (Retract pos # items) = events_of items"

lemma pe_live_subseq: "pe_live env items win w = (out, win', w') \<Longrightarrow> subseq out (events_of items)"
  by (induction items arbitrary: win w out rule: events_of.induct)
    (auto simp: Let_def split: prod.splits if_splits)

lemma pe_live_halted:
  "\<not> core_healthy (cw_core win) \<Longrightarrow> pe_live env items win w = (events_of items, win, w)"
  by (induction items rule: events_of.induct) (auto simp: cw_record_halted)

section \<open>The state during the backfill\<close>

definition above :: "u64 option \<Rightarrow> u64 \<Rightarrow> bool" where
  "above s k \<longleftrightarrow> (case s of Some x \<Rightarrow> x < k | None \<Rightarrow> True)"

definition pe_inv ::
  "'p position_ops \<Rightarrow> u64 option \<Rightarrow> u64 option \<Rightarrow> u64 \<Rightarrow> u64 \<Rightarrow> 'p block_writer \<Rightarrow> 'p window \<Rightarrow> 'p write_log \<Rightarrow> bool" where
  "pe_inv P seed fcut tip depth bw win log \<longleftrightarrow>
     bw_ordered P bw log \<and>
     (\<exists>krs. bw_tracks P bw log krs \<and> (\<forall>k \<in> fst ` set krs. settles fcut k \<and> above seed k)) \<and>
     cw_inv P seed tip win log \<and> cw_depth win = depth \<and>
     (\<forall>k. finalized win k \<longleftrightarrow> settles fcut k \<or> \<not> above seed k)"

text \<open>
  The cut is the tip less the depth, or none when there are not that many positions: above the cut
  nothing is mature before the tip moves.
\<close>

lemma cut_not_mature:
  assumes fcut: "fcut = checked_sub tip depth" and tip: "tip < max_val" and k: "\<not> settles fcut k"
  shows "tip < sat_add k depth"
proof -
  have "unat tip < 2 ^ 64 - 1" using tip by (simp add: word_less_nat_alt unat_max_val)
  moreover have "unat tip < unat k + unat depth"
  proof (cases "checked_sub tip depth")
    case None
    then show ?thesis by (simp add: checked_sub_None_iff word_less_nat_alt)
  next
    case (Some c)
    then have "depth \<le> tip" "unat c = unat tip - unat depth" by (auto simp: checked_sub_Some_iff)
    with Some k fcut show ?thesis by (auto simp: settles_def word_le_nat_alt)
  qed
  ultimately show ?thesis by (simp add: word_less_nat_alt unat_sat_add)
qed

lemma cut_settled_mature:
  assumes "fcut = checked_sub tip depth" "settles fcut k"
  shows "sat_add k depth \<le> tip"
  using assms
  by (auto simp: settles_def checked_sub_Some_iff word_le_nat_alt unat_sat_add split: option.splits)

lemma tracks_log_keys: "bw_tracks P bw log krs \<Longrightarrow> fst ` set (log_groups P log) \<subseteq> fst ` set krs"
proof -
  assume t: "bw_tracks P bw log krs"
  have "set (log_groups P log) \<subseteq> set (groups krs)"
  proof (cases "core_healthy (bw_core bw)")
    case True
    with t have "log_groups P log @ bw_open P bw = groups krs" by (simp add: bw_tracks_def)
    then show ?thesis by (metis set_append Un_upper1)
  next
    case False
    with t have "prefix (log_groups P log) (butlast (groups krs))" by (simp add: bw_tracks_def)
    then show ?thesis using in_set_butlastD set_mono_prefix by fastforce
  qed
  then show ?thesis using groups_keys [of krs] by auto
qed

lemma cw_inv_other_log:
  assumes "cw_inv P seed tip win log" "sorted_wrt (<) (map fst (log_groups P log'))"
    and "\<forall>k \<in> fst ` set (log_groups P log'). finalized win k \<and> above seed k \<and> sat_add k (cw_depth win) \<le> tip"
  shows "cw_inv P seed tip win log'"
  using assms by (auto simp: cw_inv_def ascending_def buried_def above_def)

lemma pe_settle_step:
  assumes order: "position_order (env_pos env)" and halt: "reobservation (env_pos env) = Halt"
    and inv: "pe_inv (env_pos env) seed fcut tip depth bw win (snd (w_store w))"
    and key: "settles fcut (sort_key (env_pos env) pos)" "above seed (sort_key (env_pos env) pos)"
    and fcut: "fcut = checked_sub tip depth"
    and run: "bw_record (env\<lparr>env_store := logging S\<rparr>) bw w pos e = (d, bw', w')"
  shows "pe_inv (env_pos env) seed fcut tip depth bw' win (snd (w_store w'))"
proof -
  let ?P = "env_pos env"
  from inv obtain krs where t: "bw_tracks ?P bw (snd (w_store w)) krs"
    and ks: "\<forall>k \<in> fst ` set krs. settles fcut k \<and> above seed k" and o: "bw_ordered ?P bw (snd (w_store w))"
    and cw: "cw_inv ?P seed tip win (snd (w_store w))" and d: "cw_depth win = depth"
    and f: "\<forall>k. finalized win k \<longleftrightarrow> settles fcut k \<or> \<not> above seed k"
    by (auto simp: pe_inv_def)
  define r where "r = (case fst (record_encode (env_serde env) (w_record w) e) of Ok r \<Rightarrow> r | Err _ \<Rightarrow> [])"
  have t': "bw_tracks ?P bw' (snd (w_store w')) (krs @ [(sort_key ?P pos, r)])"
    by (rule position_order.bw_record_tracks [OF order t halt refl run]) (simp add: r_def)
  have o': "bw_ordered ?P bw' (snd (w_store w'))"
    by (rule position_order.bw_record_ordered [OF order t o halt refl run])
  have ks': "\<forall>k \<in> fst ` set (krs @ [(sort_key ?P pos, r)]). settles fcut k \<and> above seed k"
    using ks key by auto
  have "finalized win k \<and> above seed k \<and> sat_add k (cw_depth win) \<le> tip"
    if "k \<in> fst ` set (log_groups ?P (snd (w_store w')))" for k
  proof -
    from that tracks_log_keys [OF t'] ks' have "settles fcut k" "above seed k" by blast+
    with f cut_settled_mature [OF fcut] d show ?thesis by blast
  qed
  then have "cw_inv ?P seed tip win (snd (w_store w'))"
    using cw_inv_other_log [OF cw bw_ordered_log [OF o']] by blast
  with o' t' ks' d f show ?thesis unfolding pe_inv_def by blast
qed

lemma flushed_none:
  assumes fs: "flush_step P h win log win' log'" and h: "h \<le> tip" and tip: "tip < max_val"
    and fcut: "fcut = checked_sub tip (cw_depth win)"
    and open_keys: "\<forall>k \<in> set (bt_keys (cw_pending win)). \<not> settles fcut k"
  shows "log_groups P log' = log_groups P log" "cw_flushed win' = cw_flushed win"
    "core_healthy (cw_core win') \<Longrightarrow> cw_pending win' = cw_pending win"
proof -
  from fs obtain m1 m2 where m: "cw_pending win = m1 @ m2"
    "log_groups P log' = log_groups P log @ pend_groups m1"
    "\<forall>b \<in> set (bt_keys m1). sat_add b (cw_depth win) \<le> h"
    "cw_flushed win' = flushed_to (cw_flushed win) m1"
    "core_healthy (cw_core win') \<Longrightarrow> cw_pending win' = m2"
    by (elim flush_stepE) blast
  have "m1 = []"
  proof (cases m1)
    case (Cons p m)
    with m open_keys have "\<not> settles fcut (fst p)" "sat_add (fst p) (cw_depth win) \<le> h"
      by (auto simp: bt_keys_def)
    with cut_not_mature [OF fcut tip] h have False by (meson leD order_trans)
    then show ?thesis ..
  qed simp
  with m show "log_groups P log' = log_groups P log" "cw_flushed win' = cw_flushed win"
    "core_healthy (cw_core win') \<Longrightarrow> cw_pending win' = cw_pending win" by simp_all
qed

lemma pe_inv_cong:
  assumes "pe_inv P seed fcut tip depth bw win log" "log_groups P log' = log_groups P log"
    and "cw_inv P seed tip win' log'" "cw_depth win' = cw_depth win"
    and "cw_flushed win' = cw_flushed win"
  shows "pe_inv P seed fcut tip depth bw win' log'"
  using assms by (simp add: pe_inv_def bw_ordered_def bw_tracks_def finalized_def)

lemma pe_seed_step:
  assumes order: "position_order (env_pos env)" and halt: "reobservation (env_pos env) = Halt"
    and inv: "pe_inv (env_pos env) seed fcut tip depth bw win (snd (w_store w))"
    and key: "\<not> settles fcut (sort_key (env_pos env) pos)" "above seed (sort_key (env_pos env) pos)"
      "sort_key (env_pos env) pos \<le> tip" "tip < max_val"
    and fcut: "fcut = checked_sub tip depth"
    and run: "cw_record_seeded (env\<lparr>env_store := logging S\<rparr>) win w pos e = (d, win', w')"
  shows "pe_inv (env_pos env) seed fcut tip depth bw win' (snd (w_store w'))"
    "log_groups (env_pos env) (snd (w_store w')) = log_groups (env_pos env) (snd (w_store w))"
proof -
  let ?P = "env_pos env"
  from inv have cw: "cw_inv ?P seed tip win (snd (w_store w))" and d: "cw_depth win = depth"
    and f: "\<forall>k. finalized win k \<longleftrightarrow> settles fcut k \<or> \<not> above seed k"
    by (auto simp: pe_inv_def)
  from f key have nf: "\<not> finalized win (sort_key ?P pos)" by simp
  have cw': "cw_inv ?P seed tip win' (snd (w_store w'))"
    by (rule cw_record_seeded_inv [OF order halt cw run _ _ nf]) (use key in auto)
  have "log_groups ?P (snd (w_store w')) = log_groups ?P (snd (w_store w)) \<and>
      cw_flushed win' = cw_flushed win \<and> cw_depth win' = cw_depth win"
  proof (cases "core_healthy (cw_core win)")
    case False
    with run show ?thesis by (auto simp: cw_record_halted)
  next
    case True
    from cw have wf: "cw_wf ?P win" by (simp add: cw_inv_def)
    from order wf True run show ?thesis
    proof (cases rule: cw_record_seeded_cases)
      case (Put r win1)
      let ?pd = "seeded_slot ?P (bt_get (cw_pending win) (sort_key ?P pos)) pos r"
      have "bt_wf (cw_pending win1)" using wf slots_ok_wf Put(5) by (auto simp: cw_wf_def)
      then have keys: "\<forall>k \<in> set (bt_keys (cw_pending (cw_put (sort_key ?P pos) ?pd win1))). \<not> settles fcut k"
        using cw f key Put(5) bt.keys_insert [of "cw_pending win1"] by (auto simp: cw_inv_def ascending_def)
      have h: "opt_max (cw_head win) (sort_key ?P pos) \<le> tip"
        using cw key(3) by (cases "cw_head win") (auto simp: cw_inv_def)
      have "fcut = checked_sub tip (cw_depth (cw_put (sort_key ?P pos) ?pd win1))" using fcut d Put by simp
      from flushed_none(1,2) [OF Put(11) h key(4) this keys] Put show ?thesis
        by (auto elim: flush_stepE)
    qed auto
  qed
  then show "pe_inv ?P seed fcut tip depth bw win' (snd (w_store w'))"
    "log_groups ?P (snd (w_store w')) = log_groups ?P (snd (w_store w))"
    using pe_inv_cong [OF inv _ cw'] by auto
qed

text \<open>An invariant of both writers' steps is an invariant of the backfill.\<close>

lemma pe_backfill_rule:
  assumes settle: "\<And>pos e bw win w d bw' w'. (pos, e) \<in> D \<Longrightarrow> settles fcut (sort_key (env_pos env) pos) \<Longrightarrow>
      I bw win w \<Longrightarrow> bw_record env bw w pos e = (d, bw', w') \<Longrightarrow> I bw' win w'"
    and seed: "\<And>pos e bw win w d win' w'. (pos, e) \<in> D \<Longrightarrow> \<not> settles fcut (sort_key (env_pos env) pos) \<Longrightarrow>
      I bw win w \<Longrightarrow> cw_record_seeded env win w pos e = (d, win', w') \<Longrightarrow> I bw win' w'"
    and "set pes \<subseteq> D" "I bw win w" and "pe_backfill env fcut pes bw win w = (out, bw', win', w')"
  shows "I bw' win' w'"
  using assms(3-)
proof (induction pes arbitrary: bw win w out)
  case Nil
  then show ?case by simp
next
  case (Cons pe pes)
  obtain pos e where pe: "pe = (pos, e)" by (cases pe)
  from Cons.prems(1) pe have mem: "(pos, e) \<in> D" and sub: "set pes \<subseteq> D" by auto
  show ?case
  proof (cases "settles fcut (sort_key (env_pos env) pos)")
    case True
    obtain d bw1 w1 where st: "bw_record env bw w pos e = (d, bw1, w1)" by (cases "bw_record env bw w pos e")
    from Cons.prems(3) pe True st obtain out1 where "pe_backfill env fcut pes bw1 win w1 = (out1, bw', win', w')"
      by (auto simp: Let_def split: prod.splits)
    moreover have "I bw1 win w1" by (rule settle [OF mem True Cons.prems(2) st])
    ultimately show ?thesis by (rule Cons.IH [OF sub, rotated])
  next
    case False
    obtain d win1 w1 where st: "cw_record_seeded env win w pos e = (d, win1, w1)"
      by (cases "cw_record_seeded env win w pos e")
    from Cons.prems(3) pe False st obtain out1 where "pe_backfill env fcut pes bw win1 w1 = (out1, bw', win', w')"
      by (auto simp: Let_def split: prod.splits)
    moreover have "I bw win1 w1" by (rule seed [OF mem False Cons.prems(2) st])
    ultimately show ?thesis by (rule Cons.IH [OF sub, rotated])
  qed
qed

lemma pe_backfill_inv:
  assumes order: "position_order (env_pos env)" and halt: "reobservation (env_pos env) = Halt"
    and fcut: "fcut = checked_sub tip depth" and tip: "tip < max_val"
    and start: "pe_inv (env_pos env) seed fcut tip depth bw win (snd (w_store w))"
    and bounds: "\<forall>(pos, e) \<in> set pes. above seed (sort_key (env_pos env) pos) \<and> sort_key (env_pos env) pos \<le> tip"
    and run: "pe_backfill (env\<lparr>env_store := logging S\<rparr>) fcut pes bw win w = (out, bw', win', w')"
  shows "pe_inv (env_pos env) seed fcut tip depth bw' win' (snd (w_store w'))"
proof (rule pe_backfill_rule [where I = "\<lambda>bw win w. pe_inv (env_pos env) seed fcut tip depth bw win (snd (w_store w))",
      OF _ _ subset_refl start run], goal_cases)
  case (1 pos e bw win w d bw' w')
  then show ?case using bounds by (intro pe_settle_step [OF order halt 1(3) _ _ fcut 1(4)]) auto
next
  case (2 pos e bw win w d win' w')
  then show ?case using bounds by (intro pe_seed_step(1) [OF order halt 2(3) _ _ _ tip fcut 2(4)]) auto
qed

section \<open>From the start to the end of the pipeline\<close>

lemma finalized_new:
  assumes "position_order P"
  shows "finalized (cw_new P depth (window_seed P fcut seed)) k \<longleftrightarrow>
     settles fcut k \<or> \<not> above (map_option (sort_key P) seed) k"
  using position_order.advance_key [OF assms] position_order.key_of_key [OF assms]
  by (cases seed; cases fcut)
    (auto simp: finalized_def cw_new_def window_seed_def settles_def above_def le_max_iff_disj not_less)

lemma cw_new_simps [simp]:
  "cw_core (cw_new P d x) = core_new" "cw_depth (cw_new P d x) = d" "cw_pending (cw_new P d x) = []"
  "cw_head (cw_new P d x) = None" "cw_watermark (cw_new P d x) = x"
  by (simp_all add: cw_new_def)

lemma pe_inv_start:
  assumes "position_order P"
  shows "pe_inv P (map_option (sort_key P) seed) fcut tip depth (bw_new seed)
     (cw_new P depth (window_seed P fcut seed)) []"
proof -
  let ?win = "cw_new P depth (window_seed P fcut seed)" and ?s = "map_option (sort_key P) seed"
  have f: "\<forall>k. finalized ?win k \<longleftrightarrow> settles fcut k \<or> \<not> above ?s k"
    using finalized_new [OF assms] by blast
  have "\<not> above (Some t) t" for t by (simp add: above_def)
  with f have "\<forall>s. ?s = Some s \<longrightarrow> finalized ?win s" by metis
  then have "ascending P ?s ?win []" by (simp add: ascending_def bt_keys_def)
  then have "cw_inv P ?s tip ?win []" by (simp add: cw_inv_def cw_wf_def buried_def)
  moreover have "\<exists>krs. bw_tracks P (bw_new seed) [] krs \<and> (\<forall>k \<in> fst ` set krs. settles fcut k \<and> above ?s k)"
    by (rule exI [of _ "[]"]) (simp add: bw_tracks_new)
  ultimately show ?thesis
    unfolding pe_inv_def by (intro conjI f) (simp_all add: bw_ordered_new)
qed

lemma pe_backfill_marks:
  assumes "position_order (env_pos env)" and start: "bw_marks (env_pos env) Q bw"
    and keys: "\<forall>k. settles fcut k \<longrightarrow> Q k"
    and run: "pe_backfill env fcut pes bw win w = (out, bw', win', w')"
  shows "bw_marks (env_pos env) Q bw'"
  by (rule pe_backfill_rule [where I = "\<lambda>bw win w. bw_marks (env_pos env) Q bw", OF _ _ subset_refl start run])
    (use keys bw_record_marks [OF assms(1)] in blast)+

lemma pe_live_inv:
  assumes order: "position_order (env_pos env)" and halt: "reobservation (env_pos env) = Halt"
  shows "cw_inv (env_pos env) seed crest win (snd (w_store w)) \<Longrightarrow>
    \<forall>pos e. Event pos e \<in> set items \<longrightarrow> sort_key (env_pos env) pos \<le> crest \<Longrightarrow>
    pe_live (env\<lparr>env_store := logging S\<rparr>) items win w = (out, win', w') \<Longrightarrow>
    cw_inv (env_pos env) seed crest win' (snd (w_store w'))"
proof (induction items arbitrary: win w out)
  case Nil
  then show ?case by simp
next
  case (Cons item items)
  let ?env = "env\<lparr>env_store := logging S\<rparr>"
  show ?case
  proof (cases item)
    case (Event pos e)
    obtain d win1 w1 where st: "cw_record ?env win w pos e = (d, win1, w1)" by (cases "cw_record ?env win w pos e")
    from Cons.prems(3) Event st obtain out1 where run: "pe_live ?env items win1 w1 = (out1, win', w')"
      by (auto simp: Let_def split: prod.splits)
    have "cw_inv (env_pos env) seed crest win1 (snd (w_store w1))"
      by (rule cw_record_inv [OF order halt Cons.prems(1) st]) (use Cons.prems(2) Event in auto)
    from Cons.IH [OF this _ run] Cons.prems(2) show ?thesis by (meson list.set_intros(2))
  next
    case (Retract pos)
    with Cons.IH [OF cw_retract_inv [OF Cons.prems(1)]] Cons.prems(2,3) show ?thesis by simp
  qed
qed

lemma cw_flush_keys_depth: "cw_flush_keys env ks win w = (win', w') \<Longrightarrow> cw_depth win' = cw_depth win"
  by (induction env ks win w rule: cw_flush_keys.induct)
    (auto simp: Let_def split: option.splits prod.splits bool.splits)

lemma cw_record_depth: "cw_record env win w pos e = (d, win', w') \<Longrightarrow> cw_depth win' = cw_depth win"
  by (auto simp: cw_record_rewound Let_def cw_flush_matured_def
      split: if_splits option.splits prod.splits dest!: cw_flush_keys_depth)

lemma pe_live_depth: "pe_live env items win w = (out, win', w') \<Longrightarrow> cw_depth win' = cw_depth win"
  by (induction items arbitrary: win w out rule: events_of.induct)
    (auto simp: Let_def cw_retract_def dest!: cw_record_depth split: prod.splits if_splits)

text \<open>The state when the live tail starts.\<close>

lemma pe_handover_inv:
  assumes order: "position_order (env_pos env)" and halt: "reobservation (env_pos env) = Halt"
    and fcut: "fcut = checked_sub tip depth" and tip: "tip < max_val"
    and bounds: "\<forall>(pos, e) \<in> set backfill. above (map_option (sort_key (env_pos env)) seed) (sort_key (env_pos env) pos)
      \<and> sort_key (env_pos env) pos \<le> tip"
    and w: "w_store w = (s, [])"
    and bf: "pe_backfill (env\<lparr>env_store := logging S\<rparr>) fcut backfill (bw_new seed)
      (cw_new (env_pos env) depth (window_seed (env_pos env) fcut seed)) w = (out, settled, win, w1)"
    and fin: "bw_finish (env\<lparr>env_store := logging S\<rparr>) settled w1 = (settled', w2)"
  shows "cw_inv (env_pos env) (map_option (sort_key (env_pos env)) seed) tip
    (pe_handover (env_pos env) settled' win) (snd (w_store w2)) \<and>
    cw_depth (pe_handover (env_pos env) settled' win) = depth"
proof -
  let ?P = "env_pos env" and ?s = "map_option (sort_key (env_pos env)) seed"
  have inv: "pe_inv ?P ?s fcut tip depth settled win (snd (w_store w1))"
    by (rule pe_backfill_inv [OF order halt fcut tip _ bounds bf]) (simp add: w pe_inv_start [OF order])
  then obtain krs where t: "bw_tracks ?P settled (snd (w_store w1)) krs"
    and ks: "\<forall>k \<in> fst ` set krs. settles fcut k \<and> above ?s k"
    and o: "bw_ordered ?P settled (snd (w_store w1))" and cw: "cw_inv ?P ?s tip win (snd (w_store w1))"
    and d: "cw_depth win = depth" and f: "\<forall>k. finalized win k \<longleftrightarrow> settles fcut k \<or> \<not> above ?s k"
    by (auto simp: pe_inv_def)
  have "prefix (log_groups ?P (snd (w_store w2))) (groups krs)"
    using position_order.bw_finish_tracks [OF order t fin refl] ..
  then have "fst ` set (log_groups ?P (snd (w_store w2))) \<subseteq> fst ` set krs"
    using set_mono_prefix groups_keys [of krs] by blast
  then have cw2: "cw_inv ?P ?s tip win (snd (w_store w2))"
    using cw_inv_other_log [OF cw position_order.bw_finish_ordered [OF order o fin]] ks f d
      cut_settled_mature [OF fcut] by blast
  have marks: "bw_marks ?P (finalized win) settled'"
  proof -
    have "bw_marks ?P (finalized win) (bw_new seed)"
      using f by (auto simp: bw_marks_def bw_new_def above_def)
    then have "bw_marks ?P (finalized win) settled"
      using pe_backfill_marks [of "env\<lparr>env_store := logging S\<rparr>"] bf order f by fastforce
    then show ?thesis
      using bw_finish_marks [of "env\<lparr>env_store := logging S\<rparr>"] fin order by fastforce
  qed
  have "\<forall>p. bw_watermark settled' = Some p \<longrightarrow>
      (\<forall>k \<in> set (bt_keys (cw_pending win)). sort_key ?P p < k)"
    using marks cw2 unfolding cw_inv_def ascending_def bw_marks_def by (blast intro: finalized_less)
  with cw2 d show ?thesis
    by (simp add: cw_absorb_inv cw_inv_fail pe_handover_def cw_halt_def)
qed

section \<open>The refinement of the whole pipeline\<close>

definition chain_seeds :: "(u64 \<times> row) list \<Rightarrow> chain_state \<Rightarrow> chain_state" where
  "chain_seeds krs st = foldl (\<lambda>st (k, r). chain_seed k r st) st krs"

fun chain_items ::
  "'p position_ops \<Rightarrow> 'e serde \<Rightarrow> event_record \<Rightarrow> ('p, 'e) indexed list \<Rightarrow> chain_state \<Rightarrow> chain_state" where
  "chain_items P sd rec [] st = st"
| "chain_items P sd rec (Event pos e # items) st =
     (case record_encode sd rec e of
        (Ok r, rec') \<Rightarrow> chain_items P sd rec' items (chain_live (sort_key P pos) r st)
      | (Err x, rec') \<Rightarrow> chain_items P sd rec' items (chain_live (sort_key P pos) [] st))"
| "chain_items P sd rec (Retract pos # items) st = chain_items P sd rec items (chain_retract (sort_key P pos) st)"

definition plain :: "(u64 \<times> row list) list \<Rightarrow> chain" where
  "plain gs = map (\<lambda>(k, rs). (k, rs, False)) gs"

definition keyed_rows ::
  "'p position_ops \<Rightarrow> 'e serde \<Rightarrow> event_record \<Rightarrow> ('p \<times> 'e) list \<Rightarrow> (u64 \<times> row) list" where
  "keyed_rows P sd rec pes = zip (map (\<lambda>pe. sort_key P (fst pe)) pes) (rows_of sd rec (map snd pes))"

text \<open>The chain a subscription describes: the settled groups, the seeded tail, the live items.\<close>

definition pipeline_chain ::
  "'p position_ops \<Rightarrow> 'e serde \<Rightarrow> event_record \<Rightarrow> u64 option \<Rightarrow> ('p \<times> 'e) list \<Rightarrow> ('p, 'e) indexed list
     \<Rightarrow> chain_state" where
  "pipeline_chain P sd rec fcut backfill live =
     (let krs = keyed_rows P sd rec backfill;
          settled = filter (\<lambda>kr. settles fcut (fst kr)) krs;
          seeds = filter (\<lambda>kr. \<not> settles fcut (fst kr)) krs
      in chain_items P sd (record_after sd rec (map snd backfill)) live
           (chain_seeds seeds (None, plain (groups settled))))"

lemma chain_seeds_simps [simp]:
  "chain_seeds [] st = st" "chain_seeds ((k, r) # krs) st = chain_seeds krs (chain_seed k r st)"
  by (simp_all add: chain_seeds_def)

lemma chain_groups_plain [simp]: "chain_groups (plain gs) = gs"
  by (induction gs) (auto simp: plain_def)

lemma bt_keys_plain [simp]: "bt_keys (plain gs) = map fst gs"
  by (induction gs) (auto simp: plain_def)

lemma chain_seeds_above:
  assumes "\<forall>b \<in> set (bt_keys fl). \<forall>k \<in> fst ` set krs. b < k"
  shows "chain_seeds krs (h, fl @ ch) = (fst (chain_seeds krs (h, ch)), fl @ snd (chain_seeds krs (h, ch)))"
  using assms
proof (induction krs arbitrary: h ch)
  case Nil
  then show ?case by simp
next
  case (Cons kr krs)
  obtain k r where kr: "kr = (k, r)" by (cases kr)
  from Cons.prems kr have "\<forall>b \<in> set (bt_keys fl). b < k" and rest: "\<forall>b \<in> set (bt_keys fl). \<forall>k \<in> fst ` set krs. b < k"
    by auto
  from chain_split_get [OF this(1)] Cons.IH [OF rest] kr show ?case by simp
qed

definition window_sim :: "'p window \<Rightarrow> chain_state \<Rightarrow> bool" where
  "window_sim win st \<longleftrightarrow> fst st = cw_head win \<and> snd st = pend_chain (cw_pending win)"

lemma window_chain_sim:
  assumes "window_sim win (h, ch)"
  shows "chain_sim P win log (h, plain (log_groups P log) @ ch)"
  using assms by (auto simp: window_sim_def chain_sim_def intro!: exI [of _ "plain (log_groups P log)"])

lemma pe_seed_sim:
  assumes order: "position_order (env_pos env)" and halt: "reobservation (env_pos env) = Halt"
    and inv: "pe_inv (env_pos env) seed fcut tip depth bw win (snd (w_store w))"
    and key: "\<not> settles fcut (sort_key (env_pos env) pos)" "sort_key (env_pos env) pos \<le> tip" "tip < max_val"
    and fcut: "fcut = checked_sub tip depth"
    and sim: "window_sim win st"
    and run: "cw_record_seeded (env\<lparr>env_store := logging S\<rparr>) win w pos e = (d, win', w')"
    and healthy: "core_healthy (cw_core win')"
  shows "core_healthy (cw_core win) \<and> (\<exists>r. record_encode (env_serde env) (w_record w) e = (Ok r, w_record w') \<and>
    window_sim win' (chain_seed (sort_key (env_pos env) pos) r st))"
proof -
  let ?P = "env_pos env" and ?key = "sort_key (env_pos env) pos"
  from inv have cw: "cw_inv ?P seed tip win (snd (w_store w))" and d: "cw_depth win = depth"
    and f: "\<forall>k. finalized win k \<longleftrightarrow> settles fcut k \<or> \<not> above seed k"
    by (auto simp: pe_inv_def)
  from run healthy have h: "core_healthy (cw_core win)"
    by (cases "core_healthy (cw_core win)") (auto simp: cw_record_halted)
  from cw have wf: "cw_wf ?P win" by (simp add: cw_inv_def)
  from order wf h run show ?thesis
  proof (cases rule: cw_record_seeded_cases)
    case (Put r win1)
    let ?pd = "seeded_slot ?P (bt_get (cw_pending win) ?key) pos r"
    have "bt_wf (cw_pending win1)" using wf slots_ok_wf Put(5) by (auto simp: cw_wf_def)
    then have keys: "\<forall>k \<in> set (bt_keys (cw_pending (cw_put ?key ?pd win1))). \<not> settles fcut k"
      using cw f key Put(5) bt.keys_insert [of "cw_pending win1"] by (auto simp: cw_inv_def ascending_def)
    have top: "opt_max (cw_head win) ?key \<le> tip"
      using cw key(2) by (cases "cw_head win") (auto simp: cw_inv_def)
    have "fcut = checked_sub tip (cw_depth (cw_put ?key ?pd win1))" using fcut d Put by simp
    from flushed_none(3) [OF Put(11) top key(3) this keys healthy]
    have "cw_pending win' = bt_insert ?key ?pd (cw_pending win)" using Put(5) by simp
    moreover have "cw_head win' = Some (opt_max (cw_head win) ?key)"
      using Put(10,11) by (auto elim: flush_stepE)
    ultimately have "window_sim win' (chain_seed ?key r st)"
      using sim seeded_slot_rows [of ?P "bt_get (cw_pending win) ?key" pos r]
      by (cases st) (auto simp: window_sim_def pend_chain_insert pend_chain_get)
    with Put(4) h show ?thesis by blast
  qed (use halt healthy in auto)
qed

lemma pe_backfill_sim:
  assumes order: "position_order (env_pos env)" and halt: "reobservation (env_pos env) = Halt"
    and fcut: "fcut = checked_sub tip depth" and tip: "tip < max_val"
    and "pe_inv (env_pos env) seed fcut tip depth bw win (snd (w_store w))"
    and "\<forall>(pos, e) \<in> set pes. above seed (sort_key (env_pos env) pos) \<and> sort_key (env_pos env) pos \<le> tip"
    and "bw_tracks (env_pos env) bw (snd (w_store w)) krs" "window_sim win st"
    and "pe_backfill (env\<lparr>env_store := logging S\<rparr>) fcut pes bw win w = (out, bw', win', w')"
    and "core_healthy (bw_core bw')" "core_healthy (cw_core win')"
  shows "(let rows = keyed_rows (env_pos env) (env_serde env) (w_record w) pes in
     bw_tracks (env_pos env) bw' (snd (w_store w')) (krs @ filter (\<lambda>kr. settles fcut (fst kr)) rows) \<and>
     window_sim win' (chain_seeds (filter (\<lambda>kr. \<not> settles fcut (fst kr)) rows) st) \<and>
     w_record w' = record_after (env_serde env) (w_record w) (map snd pes)) \<and>
     core_healthy (bw_core bw) \<and> core_healthy (cw_core win)"
  using assms(5-)
proof (induction pes arbitrary: bw win w out krs st)
  case Nil
  then show ?case by (simp add: keyed_rows_def)
next
  case (Cons pe pes)
  obtain pos e where pe: "pe = (pos, e)" by (cases pe)
  let ?env = "env\<lparr>env_store := logging S\<rparr>" and ?P = "env_pos env" and ?sd = "env_serde env"
  let ?key = "sort_key ?P pos"
  from Cons.prems(2) pe have key: "above seed ?key" "?key \<le> tip"
    and rest: "\<forall>(pos, e) \<in> set pes. above seed (sort_key ?P pos) \<and> sort_key ?P pos \<le> tip"
    by auto
  obtain res rec' where enc: "record_encode ?sd (w_record w) e = (res, rec')"
    by (cases "record_encode ?sd (w_record w) e")
  let ?r = "case res of Ok r \<Rightarrow> r | Err _ \<Rightarrow> []"
  have rows: "keyed_rows ?P ?sd (w_record w) ((pos, e) # pes) = (?key, ?r) # keyed_rows ?P ?sd rec' pes"
    using enc by (cases res) (simp_all add: keyed_rows_def)
  show ?case
  proof (cases "settles fcut ?key")
    case True
    obtain d bw1 w1 where st: "bw_record ?env bw w pos e = (d, bw1, w1)" by (cases "bw_record ?env bw w pos e")
    from Cons.prems(5) pe True st obtain out1 where run: "pe_backfill ?env fcut pes bw1 win w1 = (out1, bw', win', w')"
      by (auto simp: Let_def split: prod.splits)
    have tr: "bw_tracks ?P bw1 (snd (w_store w1)) (krs @ [(?key, ?r)])"
      by (rule position_order.bw_record_tracks [OF order Cons.prems(3) halt refl st]) (use enc in auto)
    from Cons.IH [OF pe_settle_step [OF order halt Cons.prems(1) True key(1) fcut st] rest tr Cons.prems(4) run Cons.prems(6,7)]
    have IH: "bw_tracks ?P bw' (snd (w_store w')) ((krs @ [(?key, ?r)]) @ filter (\<lambda>kr. settles fcut (fst kr)) (keyed_rows ?P ?sd (w_record w1) pes))"
      "window_sim win' (chain_seeds (filter (\<lambda>kr. \<not> settles fcut (fst kr)) (keyed_rows ?P ?sd (w_record w1) pes)) st)"
      "w_record w' = record_after ?sd (w_record w1) (map snd pes)" "core_healthy (bw_core bw1)" "core_healthy (cw_core win)"
      by (simp_all add: Let_def)
    from position_order.bw_record_record [OF order st IH(4)] halt enc
    have "w_record w1 = rec'" "core_healthy (bw_core bw)" by auto
    with IH True enc pe show ?thesis by (simp add: rows Let_def)
  next
    case False
    obtain d win1 w1 where st: "cw_record_seeded ?env win w pos e = (d, win1, w1)"
      by (cases "cw_record_seeded ?env win w pos e")
    from Cons.prems(5) pe False st obtain out1 where run: "pe_backfill ?env fcut pes bw win1 w1 = (out1, bw', win', w')"
      by (auto simp: Let_def split: prod.splits)
    note step = pe_seed_step [OF order halt Cons.prems(1) False key tip fcut st]
    have h1: "core_healthy (cw_core win1)"
    proof (rule ccontr)
      assume h: "\<not> core_healthy (cw_core win1)"
      have "\<not> core_healthy (cw_core win')"
        by (rule pe_backfill_rule [where I = "\<lambda>bw win w. \<not> core_healthy (cw_core win)", OF _ _ subset_refl h run])
          (auto simp: cw_record_halted)
      with Cons.prems(7) show False by simp
    qed
    from pe_seed_sim [OF order halt Cons.prems(1) False key(2) tip fcut Cons.prems(4) st h1] obtain r where
      r: "record_encode ?sd (w_record w) e = (Ok r, w_record w1)" "window_sim win1 (chain_seed ?key r st)"
      and h: "core_healthy (cw_core win)" by auto
    have tr: "bw_tracks ?P bw (snd (w_store w1)) krs" using Cons.prems(3) step(2) by (simp add: bw_tracks_def)
    from Cons.IH [OF step(1) rest tr r(2) run Cons.prems(6,7)] h r(1) False enc pe show ?thesis
      by (simp add: rows Let_def)
  qed
qed

lemma pe_live_sim:
  assumes order: "position_order (env_pos env)" and halt: "reobservation (env_pos env) = Halt"
  shows "cw_inv (env_pos env) seed crest win (snd (w_store w)) \<Longrightarrow>
    \<forall>pos e. Event pos e \<in> set items \<longrightarrow> sort_key (env_pos env) pos \<le> crest \<Longrightarrow>
    chain_sim (env_pos env) win (snd (w_store w)) st \<Longrightarrow>
    pe_live (env\<lparr>env_store := logging S\<rparr>) items win w = (out, win', w') \<Longrightarrow> core_healthy (cw_core win') \<Longrightarrow>
    chain_sim (env_pos env) win' (snd (w_store w'))
      (chain_items (env_pos env) (env_serde env) (w_record w) items st)"
proof (induction items arbitrary: win w out st)
  case Nil
  then show ?case by simp
next
  case (Cons item items)
  let ?env = "env\<lparr>env_store := logging S\<rparr>"
  have healthy: "pe_live ?env items win1 w1 = (out1, win', w') \<Longrightarrow> core_healthy (cw_core win1)" for win1 w1 out1
    using pe_live_halted [of win1 ?env items w1] Cons.prems(5) by (cases "core_healthy (cw_core win1)") auto
  show ?case
  proof (cases item)
    case (Event pos e)
    obtain d win1 w1 where st: "cw_record ?env win w pos e = (d, win1, w1)" by (cases "cw_record ?env win w pos e")
    from Cons.prems(4) Event st obtain out1 where run: "pe_live ?env items win1 w1 = (out1, win', w')"
      by (auto simp: Let_def split: prod.splits)
    have inv: "cw_inv (env_pos env) seed crest win1 (snd (w_store w1))"
      by (rule cw_record_inv [OF order halt Cons.prems(1) st]) (use Cons.prems(2) Event in auto)
    from cw_record_sim [OF order halt Cons.prems(1,3) st healthy [OF run]] obtain r where
      r: "record_encode (env_serde env) (w_record w) e = (Ok r, w_record w1)"
      and sim: "chain_sim (env_pos env) win1 (snd (w_store w1)) (chain_live (sort_key (env_pos env) pos) r st)"
      by blast
    have "\<forall>pos e. Event pos e \<in> set items \<longrightarrow> sort_key (env_pos env) pos \<le> crest"
      using Cons.prems(2) by (meson list.set_intros(2))
    from Cons.IH [OF inv this sim run Cons.prems(5)] r Event show ?thesis by simp
  next
    case (Retract pos)
    with Cons.prems(4) have run: "pe_live ?env items (cw_retract (env_pos env) pos win) w = (out, win', w')" by simp
    have "\<forall>pos e. Event pos e \<in> set items \<longrightarrow> sort_key (env_pos env) pos \<le> crest"
      using Cons.prems(2) by (meson list.set_intros(2))
    from Cons.IH [OF cw_retract_inv [OF Cons.prems(1)] this
        cw_retract_sim [OF halt Cons.prems(1,3) healthy [OF run]] run Cons.prems(5)] Retract
    show ?thesis by simp
  qed
qed

section \<open>The two results\<close>

lemma persist_and_emit_phases:
  assumes "persist_and_emit env backfill live depth fcut seed w = (out, settled', win', w')"
  obtains out1 settled win w1 w2 out2 where
    "pe_backfill env fcut backfill (bw_new seed) (cw_new (env_pos env) depth (window_seed (env_pos env) fcut seed)) w
       = (out1, settled, win, w1)"
    "bw_finish env settled w1 = (settled', w2)"
    "pe_live env live (pe_handover (env_pos env) settled' win) w2 = (out2, win', w')"
    "out = out1 @ out2"
  using assms by (auto simp: persist_and_emit_def Let_def split: prod.splits)

lemma pe_writes:
  assumes order: "position_order (env_pos env)" and halt: "reobservation (env_pos env) = Halt"
    and tip: "tip < max_val" and crest: "tip \<le> crest"
    and bounds: "\<forall>(pos, e) \<in> set backfill. above (map_option (sort_key (env_pos env)) seed) (sort_key (env_pos env) pos)
      \<and> sort_key (env_pos env) pos \<le> tip"
    and live: "\<forall>pos e. Event pos e \<in> set live \<longrightarrow> sort_key (env_pos env) pos \<le> crest"
    and w: "w_store w = (s, [])"
    and run: "persist_and_emit (env\<lparr>env_store := logging S\<rparr>) backfill live depth (checked_sub tip depth) seed w
      = (out, settled, win, w')"
  shows "sorted_wrt (<) (map fst (log_groups (env_pos env) (snd (w_store w')))) \<and>
    (\<forall>k \<in> set (map fst (log_groups (env_pos env) (snd (w_store w')))).
       above (map_option (sort_key (env_pos env)) seed) k \<and> sat_add k depth \<le> crest)"
proof -
  from run obtain out1 settled1 win1 w1 w2 out2 where
    bf: "pe_backfill (env\<lparr>env_store := logging S\<rparr>) (checked_sub tip depth) backfill (bw_new seed)
      (cw_new (env_pos env) depth (window_seed (env_pos env) (checked_sub tip depth) seed)) w = (out1, settled1, win1, w1)"
    and fin: "bw_finish (env\<lparr>env_store := logging S\<rparr>) settled1 w1 = (settled, w2)"
    and lv: "pe_live (env\<lparr>env_store := logging S\<rparr>) live (pe_handover (env_pos env) settled win1) w2 = (out2, win, w')"
    by (elim persist_and_emit_phases) auto
  from pe_handover_inv [OF order halt refl tip bounds w bf fin]
  have inv: "cw_inv (env_pos env) (map_option (sort_key (env_pos env)) seed) crest
      (pe_handover (env_pos env) settled win1) (snd (w_store w2))"
    and d: "cw_depth (pe_handover (env_pos env) settled win1) = depth"
    using crest by (auto intro: cw_inv_mono)
  from pe_live_inv [OF order halt inv live lv] pe_live_depth [OF lv] d show ?thesis
    by (auto simp: cw_inv_def ascending_def buried_def above_def split: option.splits)
qed

lemma bw_finish_healthy:
  "bw_finish env bw w = (bw', w') \<Longrightarrow> core_healthy (bw_core bw') \<Longrightarrow> core_healthy (bw_core bw)"
  by (cases "core_healthy (bw_core bw)") (auto simp: bw_finish_halted)

lemma bw_finish_record: "bw_finish env bw w = (bw', w') \<Longrightarrow> w_record w' = w_record w"
  by (auto simp: bw_finish_def dest: core_flush_record split: option.splits prod.splits bool.splits if_splits)

lemma pe_handover_healthy:
  assumes "core_healthy (cw_core (pe_handover P settled win))"
  shows "core_healthy (bw_core settled)" "core_healthy (cw_core win)"
    "pe_handover P settled win = cw_absorb P (bw_watermark settled) win"
  using assms by (auto simp: pe_handover_def cw_halt_def split: if_splits)

lemma chain_sim_groups:
  "chain_sim P win log st \<Longrightarrow> log_groups P log @ pend_groups (cw_pending win) = chain_groups (snd st)"
  by (auto simp: chain_sim_def)

lemma pe_refines:
  assumes order: "position_order (env_pos env)" and halt: "reobservation (env_pos env) = Halt"
    and tip: "tip < max_val"
    and bounds: "\<forall>(pos, e) \<in> set backfill. above (map_option (sort_key (env_pos env)) seed) (sort_key (env_pos env) pos)
      \<and> sort_key (env_pos env) pos \<le> tip"
    and w: "w_store w = (s, [])"
    and run: "persist_and_emit (env\<lparr>env_store := logging S\<rparr>) backfill live depth (checked_sub tip depth) seed w
      = (out, settled, win, w')"
    and healthy: "core_healthy (cw_core win)"
  shows "log_groups (env_pos env) (snd (w_store w')) @ pend_groups (cw_pending win) =
    chain_groups (snd (pipeline_chain (env_pos env) (env_serde env) (w_record w) (checked_sub tip depth) backfill live))"
proof -
  let ?env = "env\<lparr>env_store := logging S\<rparr>" and ?P = "env_pos env" and ?sd = "env_serde env"
  let ?cut = "checked_sub tip depth" and ?rows = "keyed_rows (env_pos env) (env_serde env) (w_record w) backfill"
  let ?settled = "filter (\<lambda>kr. settles ?cut (fst kr)) ?rows" and ?seeds = "filter (\<lambda>kr. \<not> settles ?cut (fst kr)) ?rows"
  from run obtain out1 settled1 win1 w1 w2 out2 where
    bf: "pe_backfill ?env ?cut backfill (bw_new seed) (cw_new ?P depth (window_seed ?P ?cut seed)) w = (out1, settled1, win1, w1)"
    and fin: "bw_finish ?env settled1 w1 = (settled, w2)"
    and lv: "pe_live ?env live (pe_handover ?P settled win1) w2 = (out2, win, w')"
    by (elim persist_and_emit_phases) auto
  have hh: "core_healthy (cw_core (pe_handover ?P settled win1))"
    using pe_live_halted [of "pe_handover ?P settled win1" ?env live w2] lv healthy by auto
  note ho = pe_handover_healthy [OF hh]
  note inv = pe_handover_inv [OF order halt refl tip bounds w bf fin]
  obtain h ch where st: "chain_seeds ?seeds (None, []) = (h, ch)" by (cases "chain_seeds ?seeds (None, [])")
  from pe_backfill_sim [OF order halt refl tip _ bounds _ _ bf bw_finish_healthy [OF fin ho(1)] ho(2), of "[]" "(None, [])"]
  have tr: "bw_tracks ?P settled1 (snd (w_store w1)) ?settled" and ws: "window_sim win1 (h, ch)"
    and rec: "w_record w1 = record_after ?sd (w_record w) (map snd backfill)"
    by (simp_all add: w pe_inv_start [OF order] bw_tracks_new window_sim_def Let_def st)
  from position_order.bw_finish_tracks [OF order tr fin refl] ho(1)
  have log: "log_groups ?P (snd (w_store w2)) = groups ?settled" by blast
  have keys: "\<forall>b \<in> set (bt_keys (plain (groups ?settled))). \<forall>k \<in> fst ` set ?seeds. b < k"
  proof (intro ballI)
    fix b k assume "b \<in> set (bt_keys (plain (groups ?settled)))" "k \<in> fst ` set ?seeds"
    then have "settles ?cut b" "\<not> settles ?cut k" using groups_keys [of ?settled] by auto
    then show "b < k" by (auto simp: settles_def split: option.splits)
  qed
  have "window_sim (pe_handover ?P settled win1) (h, ch)" using ws by (simp add: ho(3) window_sim_def)
  from window_chain_sim [OF this, of ?P "snd (w_store w2)"]
  have "chain_sim ?P (pe_handover ?P settled win1) (snd (w_store w2)) (chain_seeds ?seeds (None, plain (groups ?settled)))"
    using chain_seeds_above [OF keys, of None "[]"] st log by simp
  moreover define crest where "crest = (max_val :: u64)"
  then have "cw_inv ?P (map_option (sort_key ?P) seed) crest (pe_handover ?P settled win1) (snd (w_store w2))"
    and "\<forall>pos e. Event pos e \<in> set live \<longrightarrow> sort_key ?P pos \<le> crest"
    using inv by (auto intro: cw_inv_mono)
  ultimately have "chain_sim ?P win (snd (w_store w')) (chain_items ?P ?sd (w_record w2) live
      (chain_seeds ?seeds (None, plain (groups ?settled))))"
    using pe_live_sim [OF order halt] lv healthy by blast
  from chain_sim_groups [OF this] rec bw_finish_record [OF fin] show ?thesis
    by (simp add: pipeline_chain_def Let_def)
qed

lemma chain_items_events:
  "chain_items P sd rec (map (\<lambda>(p, e). Event p e) pes) st = chain_feed (keyed_rows P sd rec pes) st"
proof (induction pes arbitrary: rec st)
  case Nil
  then show ?case by (simp add: keyed_rows_def)
next
  case (Cons pe pes)
  obtain p e where pe: "pe = (p, e)" by (cases pe)
  obtain res rec' where "record_encode sd rec e = (res, rec')" by (cases "record_encode sd rec e")
  with pe Cons.IH show ?case
    by (cases res) (simp_all add: keyed_rows_def del: chain_live.simps)
qed

lemma keyed_rows_append:
  "keyed_rows P sd rec (xs @ ys) = keyed_rows P sd rec xs @ keyed_rows P sd (record_after sd rec (map snd xs)) ys"
  by (simp add: keyed_rows_def rows_of_append)

lemma keyed_rows_keys: "map fst (keyed_rows P sd rec pes) = map (\<lambda>pe. sort_key P (fst pe)) pes"
  by (simp add: keyed_rows_def)

text \<open>A feed of one fork followed by a lower fork, in a window that never had to give up.\<close>

lemma pe_reorg:
  assumes order: "position_order (env_pos env)" and halt: "reobservation (env_pos env) = Halt"
    and tip: "tip < max_val" and w: "w_store w = (s, [])"
    and old: "sorted (map (\<lambda>pe. sort_key (env_pos env) (fst pe)) old)" "old \<noteq> []"
    and new: "sorted (map (\<lambda>pe. sort_key (env_pos env) (fst pe)) ((q, f) # new))"
    and fork: "sort_key (env_pos env) q < sort_key (env_pos env) (fst (last old))"
    and run: "persist_and_emit (env\<lparr>env_store := logging S\<rparr>) [] (map (\<lambda>(p, e). Event p e) (old @ (q, f) # new))
      depth (checked_sub tip depth) seed w = (out, settled, win, w')"
    and healthy: "core_healthy (cw_core win)"
  shows "log_groups (env_pos env) (snd (w_store w')) @ pend_groups (cw_pending win) =
    groups (filter (\<lambda>kr. fst kr < sort_key (env_pos env) q) (keyed_rows (env_pos env) (env_serde env) (w_record w) old)
      @ keyed_rows (env_pos env) (env_serde env) (record_after (env_serde env) (w_record w) (map snd old)) ((q, f) # new))"
proof -
  let ?P = "env_pos env" and ?sd = "env_serde env" and ?rec = "record_after (env_serde env) (w_record w) (map snd old)"
  obtain r lrs where new_rows: "keyed_rows ?P ?sd ?rec ((q, f) # new) = (sort_key ?P q, r) # lrs"
    by (cases "record_encode ?sd ?rec f"; cases "fst (record_encode ?sd ?rec f)") (auto simp: keyed_rows_def)
  have "sorted (map fst (keyed_rows ?P ?sd ?rec ((q, f) # new)))" using new by (simp only: keyed_rows_keys)
  then have sn: "sorted (sort_key ?P q # map fst lrs)" by (simp add: new_rows)
  have so: "sorted (map fst (keyed_rows ?P ?sd (w_record w) old))" "keyed_rows ?P ?sd (w_record w) old \<noteq> []"
    using old by (simp_all add: keyed_rows_keys) (metis keyed_rows_keys map_is_Nil_conv)
  have "fst (last (keyed_rows ?P ?sd (w_record w) old)) = sort_key ?P (fst (last old))"
    using so(2) old(2) keyed_rows_keys [of ?P ?sd "w_record w" old] by (metis (no_types, lifting) last_map)
  with fork have fk: "sort_key ?P q < fst (last (keyed_rows ?P ?sd (w_record w) old))" by simp
  have "pipeline_chain ?P ?sd (w_record w) (checked_sub tip depth) [] (map (\<lambda>(p, e). Event p e) (old @ (q, f) # new)) =
      chain_feed (keyed_rows ?P ?sd (w_record w) old @ (sort_key ?P q, r) # lrs) (None, [])"
    unfolding pipeline_chain_def chain_items_events
    by (simp add: Let_def keyed_rows_append new_rows keyed_rows_def [of _ _ _ "[]"] plain_def del: chain_live.simps)
  with pe_refines [OF order halt tip _ w run healthy] chain_fork [OF so sn fk, of r] new_rows show ?thesis
    by simp
qed

section \<open>Bounded mode, and a settled prefix that halts\<close>

lemma pe_backfill_settled:
  assumes halt: "reobservation (env_pos env) = Halt"
    and "\<forall>(p, e) \<in> set pes. settles fcut (sort_key (env_pos env) p)"
    and "pe_backfill env fcut pes bw win w = (out, bw', win', w')"
  shows "\<exists>ds. bw_run env bw w pes = (ds, bw', w') \<and> win' = win \<and> out = map snd pes"
  using assms(2-)
proof (induction pes arbitrary: bw w out)
  case Nil
  then show ?case by simp
next
  case (Cons pe pes)
  obtain p e where pe: "pe = (p, e)" by (cases pe)
  obtain d bw1 w1 where st: "bw_record env bw w p e = (d, bw1, w1)" by (cases "bw_record env bw w p e")
  from bw_record_delivers [OF halt st] have d .
  with Cons.prems pe st obtain out1 where run: "pe_backfill env fcut pes bw1 win w1 = (out1, bw', win', w')"
    and out: "out = e # out1"
    by (auto simp: Let_def split: prod.splits)
  from Cons.IH [OF _ run] Cons.prems(1) obtain ds where
    "bw_run env bw1 w1 pes = (ds, bw', w')" "win' = win" "out1 = map snd pes" by auto
  with st pe out show ?case by simp
qed

lemma pe_bounded:
  assumes order: "position_order (env_pos env)" and halt: "reobservation (env_pos env) = Halt"
    and keys: "\<forall>(p, e) \<in> set backfill. sort_key (env_pos env) p \<le> snapshot"
    and w: "w_store w = (s, [])"
    and run: "persist_and_emit (env\<lparr>env_store := logging S\<rparr>) backfill [] depth (Some snapshot) seed w
      = (out, settled, win, w')"
  shows "out = map snd backfill \<and>
    prefix (log_groups (env_pos env) (snd (w_store w')))
      (groups (keyed_rows (env_pos env) (env_serde env) (w_record w) backfill)) \<and>
    (core_healthy (bw_core settled) \<longrightarrow> log_groups (env_pos env) (snd (w_store w')) =
      groups (keyed_rows (env_pos env) (env_serde env) (w_record w) backfill))"
proof -
  let ?env = "env\<lparr>env_store := logging S\<rparr>" and ?P = "env_pos env"
  from run obtain out1 settled1 win1 w1 w2 out2 where
    bf: "pe_backfill ?env (Some snapshot) backfill (bw_new seed) (cw_new ?P depth (window_seed ?P (Some snapshot) seed)) w
      = (out1, settled1, win1, w1)"
    and fin: "bw_finish ?env settled1 w1 = (settled, w2)"
    and lv: "pe_live ?env [] (pe_handover ?P settled win1) w2 = (out2, win, w')" and out: "out = out1 @ out2"
    by (elim persist_and_emit_phases) auto
  from pe_backfill_settled [OF _ _ bf] halt keys obtain ds where
    br: "bw_run ?env (bw_new seed) w backfill = (ds, settled1, w1)" and o1: "out1 = map snd backfill"
    by (auto simp: settles_def)
  have "bw_tracks ?P (bw_new seed) (snd (w_store w)) []" by (simp add: w bw_tracks_new)
  from position_order.bw_run_tracks [OF order this halt refl br, of "w_record w"]
  have "bw_tracks ?P settled1 (snd (w_store w1)) (keyed_rows ?P (env_serde env) (w_record w) backfill)"
    by (simp add: keyed_rows_def)
  from position_order.bw_finish_tracks [OF order this fin refl] lv o1 out show ?thesis by simp
qed

lemma pe_settled_halt:
  assumes order: "position_order (env_pos env)" and halt: "reobservation (env_pos env) = Halt"
    and tip: "tip < max_val"
    and bounds: "\<forall>(pos, e) \<in> set backfill. above (map_option (sort_key (env_pos env)) seed) (sort_key (env_pos env) pos)
      \<and> sort_key (env_pos env) pos \<le> tip"
    and w: "w_store w = (s, [])"
    and run: "persist_and_emit (env\<lparr>env_store := logging S\<rparr>) backfill live depth (checked_sub tip depth) seed w
      = (out, settled, win, w')"
    and hole: "\<not> core_healthy (bw_core settled)"
  shows "out = map snd backfill @ events_of live \<and>
    (\<forall>k \<in> set (map fst (log_groups (env_pos env) (snd (w_store w')))). settles (checked_sub tip depth) k)"
proof -
  let ?env = "env\<lparr>env_store := logging S\<rparr>" and ?P = "env_pos env" and ?s = "map_option (sort_key (env_pos env)) seed"
  from run obtain out1 settled1 win1 w1 w2 out2 where
    bf: "pe_backfill ?env (checked_sub tip depth) backfill (bw_new seed)
        (cw_new ?P depth (window_seed ?P (checked_sub tip depth) seed)) w = (out1, settled1, win1, w1)"
    and fin: "bw_finish ?env settled1 w1 = (settled, w2)"
    and lv: "pe_live ?env live (pe_handover ?P settled win1) w2 = (out2, win, w')" and out: "out = out1 @ out2"
    by (elim persist_and_emit_phases) auto
  have "\<not> core_healthy (cw_core (pe_handover ?P settled win1))"
    using hole by (simp add: pe_handover_def cw_halt_def)
  from pe_live_halted [OF this, of ?env live w2] lv have l: "out2 = events_of live" "w' = w2" by auto
  have inv: "pe_inv ?P ?s (checked_sub tip depth) tip depth settled1 win1 (snd (w_store w1))"
    by (rule pe_backfill_inv [OF order halt refl tip _ bounds bf]) (simp add: w pe_inv_start [OF order])
  then obtain krs where t: "bw_tracks ?P settled1 (snd (w_store w1)) krs"
    and ks: "\<forall>k \<in> fst ` set krs. settles (checked_sub tip depth) k" by (auto simp: pe_inv_def)
  have "prefix (log_groups ?P (snd (w_store w2))) (groups krs)"
    using position_order.bw_finish_tracks [OF order t fin refl] ..
  then have "fst ` set (log_groups ?P (snd (w_store w2))) \<subseteq> fst ` set krs"
    using set_mono_prefix groups_keys [of krs] by blast
  with ks l have "\<forall>k \<in> fst ` set (log_groups ?P (snd (w_store w'))). settles (checked_sub tip depth) k" by blast
  with l out pe_backfill_delivers [OF _ bf] halt show ?thesis by simp
qed

end
