(* ===== verification/Dedupe.thy ===== *)
theory Dedupe
  imports Persist_Emit
begin

text \<open>
  Dedupe sources (append-only feeds): what has been delivered once stays covered, so that no
  position is delivered, or stored, twice; and every delivered event is held exactly once, in the
  store or in a buffer.
\<close>

section \<open>Coverage is kept\<close>

context position_order begin

lemma covers_by: "contains P p q \<Longrightarrow> contains P (advance P w p) q"
  using contains_trans [OF advance_contains] .

lemma covers_slot: "contains P p q \<Longrightarrow> contains P (advance P (Some p) r) q"
  by (rule advance_keeps)

lemma bw_record_covers:
  assumes dd: "reobservation P = Dedupe" and pos: "env_pos env = P"
    and run: "bw_record env bw w p e = (d, bw', w')" and healthy: "core_healthy (bw_core bw')"
    and q: "bw_covered P bw q \<or> (d \<and> sort_key P q = sort_key P p \<and> contains P p q)"
  shows "bw_covered P bw' q"
proof (cases "core_healthy (bw_core bw)")
  case False
  with run healthy show ?thesis by (auto simp: bw_record_halted)
next
  case True
  show ?thesis
  proof (cases "bw_covered P bw p")
    case True
    with run dd pos q \<open>core_healthy (bw_core bw)\<close> show ?thesis by (auto simp: bw_record_def Let_def)
  next
    case False
    obtain x c w1 where enc: "core_encode env (bw_core bw) w e = (x, c, w1)" by (cases "core_encode env (bw_core bw) w e")
    note he = core_encode_healthy [OF enc]
    show ?thesis
    proof (cases x)
      case None
      with run enc True False dd he healthy show ?thesis by (auto simp: pos bw_record_def Let_def)
    next
      case (Some r)
      show ?thesis
      proof (cases "bw_current bw")
        case None
        with run enc True False dd Some have "bw' = bw_push P (bw\<lparr>bw_core := c\<rparr>) p r"
          by (auto simp: pos bw_record_def Let_def)
        with None q show ?thesis
          by (auto simp: bw_covered_def advance_key intro: covers_by)
      next
        case cur: (Some cu)
        consider "sort_key P p < sort_key P cu" | "sort_key P p > sort_key P cu"
          | "sort_key P p = sort_key P cu" by fastforce
        then show ?thesis
        proof cases
          case 1
          with run enc True False dd Some cur healthy show ?thesis by (auto simp: pos bw_record_def Let_def)
        next
          case 2
          then have nl: "\<not> sort_key P p < sort_key P cu" by simp
          obtain ok c2 w2 where fl: "core_flush env c w1 cu (bw_buffer bw) = (ok, c2, w2)"
            by (cases "core_flush env c w1 cu (bw_buffer bw)")
          note hf = core_flush_healthy [OF fl]
          have bw': "bw' = (if ok then bw_push P (bw\<lparr>bw_core := c2, bw_current := None, bw_buffer := [],
                bw_watermark := Some (advance P (bw_watermark bw) cu)\<rparr>) p r
              else bw\<lparr>bw_core := c2, bw_current := None, bw_buffer := []\<rparr>)"
            using run by (simp_all add: bw_record_def Let_def pos True False dd enc Some cur fl nl 2 split: bool.splits)
          with hf healthy have "ok" by (cases ok) auto
          with bw' q cur show ?thesis
            by (cases "bw_watermark bw") (auto simp: bw_covered_def advance_key intro: covers_by advance_keeps)
        next
          case 3
          with run enc True False dd Some cur have "bw' = bw_push P (bw\<lparr>bw_core := c\<rparr>) p r"
            by (auto simp: pos bw_record_def Let_def)
          with 3 cur q show ?thesis
            by (auto simp: bw_covered_def advance_key intro: covers_by covers_slot)
        qed
      qed
    qed
  qed
qed

lemma bw_finish_covers:
  assumes pos: "env_pos env = P" and run: "bw_finish env bw w = (bw', w')" and healthy: "core_healthy (bw_core bw')"
    and q: "bw_covered P bw q"
  shows "\<exists>v. bw_watermark bw' = Some v \<and> contains P v q"
proof -
  from bw_finish_healthy [OF run healthy] have h: "core_healthy (bw_core bw)" .
  show ?thesis
  proof (cases "bw_current bw")
    case None
    with run h q show ?thesis by (auto simp: bw_finish_def bw_covered_def split: option.splits)
  next
    case (Some cur)
    obtain ok c w1 where fl: "core_flush env (bw_core bw) w cur (bw_buffer bw) = (ok, c, w1)"
      by (cases "core_flush env (bw_core bw) w cur (bw_buffer bw)")
    note hf = core_flush_healthy [OF fl]
    from run h Some fl healthy hf have "bw_watermark bw' = Some (advance P (bw_watermark bw) cur)"
      by (cases ok) (auto simp: bw_finish_def pos)
    with q Some show ?thesis
      by (cases "bw_watermark bw") (auto simp: bw_covered_def intro: covers_by advance_keeps)
  qed
qed

text \<open>What the window covers: its watermark, or the slot at the position's own key.\<close>

lemma flush_step_covers:
  assumes fs: "flush_step P h win log win' log'" and wf: "slots_ok P (cw_pending win)"
    and healthy: "core_healthy (cw_core win')" and q: "cw_covered P win q"
  shows "cw_covered P win' q"
proof -
  from fs healthy obtain m1 m2 where m: "cw_pending win = m1 @ m2" "cw_pending win' = m2"
    and wm: "cw_watermark win' = advance_all P (cw_watermark win) (map (\<lambda>(b, pd). pend_position pd) m1)"
    by (elim flush_stepE) blast
  from q consider v where "cw_watermark win = Some v" "contains P v q"
    | pd where "bt_get (cw_pending win) (sort_key P q) = Some pd" "contains P (pend_position pd) q"
    by (auto simp: cw_covered_def split: option.splits)
  then show ?thesis
  proof cases
    case 1
    with advance_all_keeps [OF 1(2), of "map (\<lambda>(b, pd). pend_position pd) m1"] wm show ?thesis
      by (auto simp: cw_covered_def)
  next
    case 2
    from wf m have wf2: "bt_wf (m1 @ m2)" by (simp add: slots_ok_def)
    with 2 m have "(sort_key P q, pd) \<in> set m1 \<or> (sort_key P q, pd) \<in> set m2"
      by (auto simp: bt_get_Some_iff)
    then show ?thesis
    proof
      assume "(sort_key P q, pd) \<in> set m1"
      then have "pend_position pd \<in> set (map (\<lambda>(b, pd). pend_position pd) m1)" by force
      from advance_all_covers [OF this, of "cw_watermark win"] wm obtain v where
        "cw_watermark win' = Some v" "contains P v (pend_position pd)" by auto
      with contains_trans 2 show ?thesis by (fastforce simp: cw_covered_def)
    next
      assume "(sort_key P q, pd) \<in> set m2"
      with wf2 m have "bt_get (cw_pending win') (sort_key P q) = Some pd"
        by (simp add: bt_get_Some_iff bt_wf_append)
      with 2 show ?thesis by (simp add: cw_covered_def)
    qed
  qed
qed

lemma cw_put_covers:
  assumes wf: "slots_ok P (cw_pending win1)" and same: "cw_watermark win1 = cw_watermark win" "cw_pending win1 = cw_pending win"
    and pd: "pend_position pd = (case bt_get (cw_pending win) (sort_key P p) of
        None \<Rightarrow> p | Some pd0 \<Rightarrow> advance P (Some (pend_position pd0)) p)"
    and q: "cw_covered P win q \<or> (sort_key P q = sort_key P p \<and> contains P p q)"
  shows "cw_covered P (cw_put (sort_key P p) pd win1) q"
proof -
  have get: "bt_get (bt_insert (sort_key P p) pd (cw_pending win1)) k =
      (if k = sort_key P p then Some pd else bt_get (cw_pending win) k)" for k
    using bt.get_insert [OF slots_ok_wf [OF wf]] same by simp
  show ?thesis
  proof (cases "sort_key P q = sort_key P p")
    case True
    with q pd show ?thesis
      unfolding cw_covered_def cw_put_simps get
      by (auto simp: same split: option.splits intro: covers_by covers_slot)
  next
    case False
    with q show ?thesis unfolding cw_covered_def cw_put_simps get by (simp add: same)
  qed
qed

lemma live_slot_dedupe:
  assumes "live_slot P slot pos r = (d, pd)" "reobservation P = Dedupe"
    and "\<forall>pd0. slot = Some pd0 \<longrightarrow> pend_expected pd0 = []"
  shows "d" "pend_rows pd = (case slot of None \<Rightarrow> [r] | Some pd0 \<Rightarrow> pend_rows pd0 @ [r])"
    "pend_expected pd = []"
    "pend_position pd = (case slot of None \<Rightarrow> pos | Some pd0 \<Rightarrow> advance P (Some (pend_position pd0)) pos)"
  using assms by (auto simp: live_slot_def Let_def split: option.splits)

end

text \<open>No slot of a Dedupe window ever waits for a re-delivery.\<close>

definition no_expected :: "'p window \<Rightarrow> bool" where
  "no_expected win \<longleftrightarrow> (\<forall>(b, pd) \<in> set (cw_pending win). pend_expected pd = [])"

definition rows_in :: "(u64 \<times> row list) list \<Rightarrow> nat" where
  "rows_in gs = sum_list (map (\<lambda>g. length (snd g)) gs)"

lemma rows_in_simps [simp]:
  "rows_in [] = 0" "rows_in ((k, rs) # gs) = length rs + rows_in gs"
  "rows_in (gs @ hs) = rows_in gs + rows_in hs"
  by (simp_all add: rows_in_def)

lemma rows_in_insert:
  assumes "bt_wf m"
  shows "rows_in (pend_groups (bt_insert k pd m)) + (case bt_get m k of None \<Rightarrow> 0 | Some pd0 \<Rightarrow> length (pend_rows pd0))
    = rows_in (pend_groups m) + length (pend_rows pd)"
  using assms
proof (induction m)
  case Nil
  then show ?case by (simp add: bt_get_def)
next
  case (Cons bp m)
  obtain b p where bp: "bp = (b, p)" by (cases bp)
  have "k < b \<Longrightarrow> bt_get m k = None"
    using Cons.prems bp by (auto simp: bt_get_None_iff)
  moreover have "bt_get (bp # m) k = (if k = b then Some p else bt_get m k)"
    by (simp add: bp bt_get_def)
  ultimately show ?case using Cons bp by (auto split: option.splits)
qed

text \<open>Rows held: written, and buffered in the window.\<close>

definition window_rows :: "'p position_ops \<Rightarrow> 'p window \<Rightarrow> 'p write_log \<Rightarrow> nat" where
  "window_rows P win log = rows_in (log_groups P log) + rows_in (pend_groups (cw_pending win))"

lemma flush_step_rows:
  "flush_step P h win log win' log' \<Longrightarrow> core_healthy (cw_core win') \<Longrightarrow>
     window_rows P win' log' = window_rows P win log"
  by (elim flush_stepE) (auto simp: window_rows_def)

lemma flush_step_no_expected:
  "flush_step P h win log win' log' \<Longrightarrow> no_expected win \<Longrightarrow> no_expected win'"
  by (elim flush_stepE) (auto simp: no_expected_def)

text \<open>
  One call of either kind on a Dedupe window that stays healthy: the position is suppressed exactly
  when it was covered; otherwise one row is added.  Everything covered stays covered.
\<close>

definition dedupe_step ::
  "'p position_ops \<Rightarrow> 'p \<Rightarrow> bool \<Rightarrow> 'p window \<Rightarrow> 'p write_log \<Rightarrow> 'p window \<Rightarrow> 'p write_log \<Rightarrow> bool" where
  "dedupe_step P p d win log win' log' \<longleftrightarrow>
     cw_wf P win' \<and> no_expected win' \<and> d = (\<not> cw_covered P win p) \<and>
     (\<forall>q. cw_covered P win q \<or> (d \<and> sort_key P q = sort_key P p \<and> contains P p q) \<longrightarrow> cw_covered P win' q) \<and>
     window_rows P win' log' = window_rows P win log + (if d then 1 else 0)"

lemma dedupe_put:
  assumes order: "position_order P" and wf: "cw_wf P win" and ne: "no_expected win"
    and nc: "\<not> cw_covered P win p"
    and win1: "cw_pending win1 = cw_pending win" "cw_watermark win1 = cw_watermark win" "core_schema (cw_core win1) \<noteq> None"
    and rows: "pend_rows pd = (case bt_get (cw_pending win) (sort_key P p) of None \<Rightarrow> [r] | Some pd0 \<Rightarrow> pend_rows pd0 @ [r])"
    and exp: "pend_expected pd = []"
    and pp: "pend_position pd = (case bt_get (cw_pending win) (sort_key P p) of
        None \<Rightarrow> p | Some pd0 \<Rightarrow> advance P (Some (pend_position pd0)) p)"
    and fs: "flush_step P h (cw_put (sort_key P p) pd win1) log win' log'" and healthy: "core_healthy (cw_core win')"
  shows "dedupe_step P p True win log win' log'"
proof -
  let ?k = "sort_key P p"
  from wf have ok: "slots_ok P (cw_pending win)" by (simp add: cw_wf_def)
  have key: "sort_key P (pend_position pd) = ?k"
    using pp slots_ok_get [OF ok] by (auto simp: position_order.advance_key [OF order] split: option.splits)
  have ok1: "slots_ok P (cw_pending (cw_put ?k pd win1))" using ok key win1 by (simp add: slots_ok_insert)
  have wf': "cw_wf P win'" using flush_step_wf [OF fs ok1] win1 by simp
  have "no_expected (cw_put ?k pd win1)"
    using ne exp win1 slots_ok_wf [OF ok] by (auto simp: no_expected_def set_bt_insert)
  from flush_step_no_expected [OF fs this] have ne': "no_expected win'" .
  have cov: "cw_covered P win' q" if "cw_covered P win q \<or> (sort_key P q = ?k \<and> contains P p q)" for q
    by (rule position_order.flush_step_covers [OF order fs ok1 healthy],
        rule position_order.cw_put_covers [OF order _ win1(2,1) pp that]) (simp add: win1 ok)
  have "window_rows P (cw_put ?k pd win1) log = window_rows P win log + 1"
    using rows_in_insert [OF slots_ok_wf [OF ok], of ?k pd] win1(1) rows
    by (auto simp: window_rows_def split: option.splits)
  with flush_step_rows [OF fs healthy] nc wf' ne' cov show ?thesis
    by (simp add: dedupe_step_def)
qed

lemma cw_record_dedupe:
  assumes order: "position_order (env_pos env)" and dd: "reobservation (env_pos env) = Dedupe"
    and wf: "cw_wf (env_pos env) win" and ne: "no_expected win"
    and run: "cw_record (env\<lparr>env_store := logging S\<rparr>) win w p e = (d, win', w')"
    and healthy: "core_healthy (cw_core win')"
  shows "core_healthy (cw_core win)"
    "dedupe_step (env_pos env) p d win (snd (w_store w)) win' (snd (w_store w'))"
proof -
  from run healthy show h: "core_healthy (cw_core win)"
    by (cases "core_healthy (cw_core win)") (auto simp: cw_record_halted)
  from order wf h run show "dedupe_step (env_pos env) p d win (snd (w_store w)) win' (snd (w_store w'))"
  proof (cases rule: cw_record_cases)
    case Covered
    with wf ne show ?thesis by (simp add: dedupe_step_def)
  next
    case (Put r pd win1)
    let ?slot = "bt_get (cw_pending win) (sort_key (env_pos env) p)"
    have pend: "cw_pending win1 = cw_pending win" using Put(4) dd by (simp add: rewound_def)
    have "\<forall>pd0. ?slot = Some pd0 \<longrightarrow> pend_expected pd0 = []"
      using ne wf by (auto simp: no_expected_def cw_wf_def slots_ok_def bt_get_Some_iff)
    note ls = position_order.live_slot_dedupe [OF order Put(10) [unfolded pend] dd this]
    have nc: "\<not> cw_covered (env_pos env) win p" using Put(2) dd by simp
    from dedupe_put [OF order wf ne nc pend Put(7,8) ls(2-4) Put(13) healthy] ls(1) show ?thesis by simp
  qed (use dd healthy in auto)
qed

lemma cw_record_seeded_dedupe:
  assumes order: "position_order (env_pos env)" and dd: "reobservation (env_pos env) = Dedupe"
    and wf: "cw_wf (env_pos env) win" and ne: "no_expected win"
    and run: "cw_record_seeded (env\<lparr>env_store := logging S\<rparr>) win w p e = (d, win', w')"
    and healthy: "core_healthy (cw_core win')"
  shows "core_healthy (cw_core win)"
    "dedupe_step (env_pos env) p d win (snd (w_store w)) win' (snd (w_store w'))"
proof -
  from run healthy show h: "core_healthy (cw_core win)"
    by (cases "core_healthy (cw_core win)") (auto simp: cw_record_halted)
  from order wf h run show "dedupe_step (env_pos env) p d win (snd (w_store w)) win' (snd (w_store w'))"
  proof (cases rule: cw_record_seeded_cases)
    case Covered
    with wf ne show ?thesis by (simp add: dedupe_step_def)
  next
    case (Put r win1)
    let ?slot = "bt_get (cw_pending win) (sort_key (env_pos env) p)"
    have "\<forall>pd0. ?slot = Some pd0 \<longrightarrow> pend_expected pd0 = []"
      using ne wf by (auto simp: no_expected_def cw_wf_def slots_ok_def bt_get_Some_iff)
    then have ls: "pend_rows (seeded_slot (env_pos env) ?slot p r) = (case ?slot of None \<Rightarrow> [r] | Some pd0 \<Rightarrow> pend_rows pd0 @ [r])"
      "pend_expected (seeded_slot (env_pos env) ?slot p r) = []"
      "pend_position (seeded_slot (env_pos env) ?slot p r) =
         (case ?slot of None \<Rightarrow> p | Some pd0 \<Rightarrow> advance (env_pos env) (Some (pend_position pd0)) p)"
      by (auto simp: seeded_slot_def split: option.splits)
    have nc: "\<not> cw_covered (env_pos env) win p" using Put(3) dd by simp
    from dedupe_put [OF order wf ne nc Put(5,8,9) ls Put(11) healthy] Put(1) show ?thesis by simp
  qed (use dd healthy in auto)
qed

section \<open>The block writer\<close>

definition bw_sound :: "'p block_writer \<Rightarrow> bool" where
  "bw_sound bw \<longleftrightarrow> (bw_current bw = None \<longrightarrow> bw_buffer bw = [])
     \<and> (bw_current bw \<noteq> None \<longrightarrow> core_schema (bw_core bw) \<noteq> None)"

definition block_rows :: "'p position_ops \<Rightarrow> 'p block_writer \<Rightarrow> 'p write_log \<Rightarrow> nat" where
  "block_rows P bw log = rows_in (log_groups P log) + length (bw_buffer bw)"

lemma bw_record_dedupe:
  assumes dd: "reobservation (env_pos env) = Dedupe" and sound: "bw_sound bw"
    and run: "bw_record (env\<lparr>env_store := logging S\<rparr>) bw w p e = (d, bw', w')"
    and healthy: "core_healthy (bw_core bw')"
  shows "core_healthy (bw_core bw) \<and> bw_sound bw' \<and> d = (\<not> bw_covered (env_pos env) bw p) \<and>
    block_rows (env_pos env) bw' (snd (w_store w')) =
      block_rows (env_pos env) bw (snd (w_store w)) + (if d then 1 else 0)"
proof -
  let ?env = "env\<lparr>env_store := logging S\<rparr>" and ?P = "env_pos env"
  have h: "core_healthy (bw_core bw)"
    using run healthy by (cases "core_healthy (bw_core bw)") (auto simp: bw_record_halted)
  show ?thesis
  proof (cases "bw_covered ?P bw p")
    case True
    with run dd h sound show ?thesis by (auto simp: bw_record_def Let_def)
  next
    case False
    obtain x c w1 where enc: "core_encode ?env (bw_core bw) w e = (x, c, w1)" by (cases "core_encode ?env (bw_core bw) w e")
    note st = core_encode_store [OF enc] and he = core_encode_healthy [OF enc]
    show ?thesis
    proof (cases x)
      case None
      with run enc h False dd he healthy show ?thesis by (auto simp: bw_record_def Let_def)
    next
      case (Some r)
      from core_encode_Some(3) [OF enc [unfolded Some]] have sch: "core_schema c \<noteq> None" .
      show ?thesis
      proof (cases "bw_current bw")
        case None
        with run enc h False dd Some sound sch st show ?thesis
          by (auto simp: bw_record_def Let_def bw_sound_def block_rows_def)
      next
        case cur: (Some cu)
        consider "sort_key ?P p < sort_key ?P cu" | "sort_key ?P p > sort_key ?P cu"
          | "sort_key ?P p = sort_key ?P cu" by fastforce
        then show ?thesis
        proof cases
          case 1
          with run enc h False dd Some cur healthy show ?thesis by (auto simp: bw_record_def Let_def)
        next
          case 2
          then have nl: "\<not> sort_key ?P p < sort_key ?P cu" by simp
          obtain ok c2 w2 where fl: "core_flush ?env c w1 cu (bw_buffer bw) = (ok, c2, w2)"
            by (cases "core_flush ?env c w1 cu (bw_buffer bw)")
          note hf = core_flush_healthy [OF fl] and sf = core_flush_schema [OF fl] and log = log_write_Ok [OF fl]
          have bw': "bw' = (if ok then bw_push ?P (bw\<lparr>bw_core := c2, bw_current := None, bw_buffer := [],
                bw_watermark := Some (advance ?P (bw_watermark bw) cu)\<rparr>) p r
              else bw\<lparr>bw_core := c2, bw_current := None, bw_buffer := []\<rparr>)" and "w' = w2" and "d"
            using run by (simp_all add: bw_record_def Let_def h False dd enc Some cur fl nl 2 split: bool.splits)
          with hf healthy have "ok" by (cases ok) auto
          with bw' \<open>w' = w2\<close> \<open>d\<close> h False sf log sch st show ?thesis
            by (auto simp: bw_sound_def block_rows_def)
        next
          case 3
          with run enc h False dd Some cur sch st show ?thesis
            by (auto simp: bw_record_def Let_def bw_sound_def block_rows_def)
        qed
      qed
    qed
  qed
qed

lemma bw_finish_rows:
  assumes sound: "bw_sound bw" and run: "bw_finish (env\<lparr>env_store := logging S\<rparr>) bw w = (bw', w')"
    and healthy: "core_healthy (bw_core bw')"
  shows "rows_in (log_groups (env_pos env) (snd (w_store w'))) = block_rows (env_pos env) bw (snd (w_store w))"
proof -
  from bw_finish_healthy [OF run healthy] have h: "core_healthy (bw_core bw)" .
  show ?thesis
  proof (cases "bw_current bw")
    case None
    with run h sound show ?thesis by (auto simp: bw_finish_def block_rows_def bw_sound_def)
  next
    case (Some cur)
    obtain ok c w1 where fl: "core_flush (env\<lparr>env_store := logging S\<rparr>) (bw_core bw) w cur (bw_buffer bw) = (ok, c, w1)"
      by (cases "core_flush (env\<lparr>env_store := logging S\<rparr>) (bw_core bw) w cur (bw_buffer bw)")
    note hf = core_flush_healthy [OF fl] and log = log_write_Ok [OF fl]
    from run h Some fl healthy hf log sound show ?thesis
      by (cases ok) (auto simp: bw_finish_def block_rows_def bw_sound_def)
  qed
qed

section \<open>The pipeline\<close>

definition redelivers :: "'p position_ops \<Rightarrow> 'p \<Rightarrow> 'p \<Rightarrow> bool" where
  "redelivers P p q \<longleftrightarrow> sort_key P q = sort_key P p \<and> contains P p q"

text \<open>
  Delivering \<open>out\<close> between two states, given by what they cover and how many rows they hold; \<open>pos_of\<close>
  reads an event's position.
\<close>

definition delivers_once ::
  "'p position_ops \<Rightarrow> ('e \<Rightarrow> 'p) \<Rightarrow> ('p \<Rightarrow> bool) \<Rightarrow> nat \<Rightarrow> 'e list \<Rightarrow> ('p \<Rightarrow> bool) \<Rightarrow> nat \<Rightarrow> bool" where
  "delivers_once P pos_of cov n out cov' n' \<longleftrightarrow>
     (\<forall>q. cov q \<longrightarrow> cov' q) \<and>
     (\<forall>e \<in> set out. (\<forall>q. redelivers P (pos_of e) q \<longrightarrow> cov' q) \<and> \<not> cov (pos_of e)) \<and>
     sorted_wrt (\<lambda>e f. \<not> redelivers P (pos_of e) (pos_of f)) out \<and> n' = n + length out"

lemma delivers_nothing: "delivers_once P pos_of cov n [] cov n"
  by (simp add: delivers_once_def)

lemma delivers_one:
  assumes "d = (\<not> cov (pos_of e))" "\<forall>q. cov q \<or> (d \<and> redelivers P (pos_of e) q) \<longrightarrow> cov' q"
    and "n' = n + (if d then 1 else 0)"
  shows "delivers_once P pos_of cov n (if d then [e] else []) cov' n'"
  using assms by (simp add: delivers_once_def)

lemma delivers_trans:
  assumes "delivers_once P pos_of c n out c' n'" "delivers_once P pos_of c' n' out' c'' n''"
  shows "delivers_once P pos_of c n (out @ out') c'' n''"
  using assms unfolding delivers_once_def sorted_wrt_append by auto

definition pe_covered ::
  "'p position_ops \<Rightarrow> u64 option \<Rightarrow> 'p block_writer \<Rightarrow> 'p window \<Rightarrow> 'p \<Rightarrow> bool" where
  "pe_covered P fcut bw win q =
     (if settles fcut (sort_key P q) then bw_covered P bw q else cw_covered P win q)"

definition pe_rows :: "'p position_ops \<Rightarrow> 'p block_writer \<Rightarrow> 'p window \<Rightarrow> 'p write_log \<Rightarrow> nat" where
  "pe_rows P bw win log = rows_in (log_groups P log) + length (bw_buffer bw) + rows_in (pend_groups (cw_pending win))"

lemma settle_delivers:
  assumes order: "position_order (env_pos env)" and dd: "reobservation (env_pos env) = Dedupe"
    and sound: "bw_sound bw" and p: "settles fcut (sort_key (env_pos env) p)" "pos_of e = p"
    and run: "bw_record (env\<lparr>env_store := logging S\<rparr>) bw w p e = (d, bw', w')"
    and healthy: "core_healthy (bw_core bw')"
  shows "delivers_once (env_pos env) pos_of (pe_covered (env_pos env) fcut bw win) (pe_rows (env_pos env) bw win (snd (w_store w)))
    (if d then [e] else []) (pe_covered (env_pos env) fcut bw' win) (pe_rows (env_pos env) bw' win (snd (w_store w')))"
proof -
  from bw_record_dedupe [OF dd sound run healthy] have *: "d = (\<not> bw_covered (env_pos env) bw p)"
    "block_rows (env_pos env) bw' (snd (w_store w')) = block_rows (env_pos env) bw (snd (w_store w)) + (if d then 1 else 0)"
    by auto
  show ?thesis
  proof (rule delivers_one, goal_cases)
    case 1
    with * p show ?case by (simp add: pe_covered_def)
  next
    case 2
    show ?case
      using position_order.bw_record_covers [OF order dd _ run healthy] p
      by (auto simp: pe_covered_def redelivers_def)
  next
    case 3
    with * show ?case by (simp add: pe_rows_def block_rows_def)
  qed
qed

lemma seed_delivers:
  assumes order: "position_order (env_pos env)" and dd: "reobservation (env_pos env) = Dedupe"
    and wf: "cw_wf (env_pos env) win" "no_expected win" and p: "\<not> settles fcut (sort_key (env_pos env) p)" "pos_of e = p"
    and run: "cw_record_seeded (env\<lparr>env_store := logging S\<rparr>) win w p e = (d, win', w')"
    and healthy: "core_healthy (cw_core win')"
  shows "delivers_once (env_pos env) pos_of (pe_covered (env_pos env) fcut bw win) (pe_rows (env_pos env) bw win (snd (w_store w)))
    (if d then [e] else []) (pe_covered (env_pos env) fcut bw win') (pe_rows (env_pos env) bw win' (snd (w_store w')))"
proof -
  from cw_record_seeded_dedupe(2) [OF order dd wf run healthy]
  have *: "d = (\<not> cw_covered (env_pos env) win p)"
    "\<forall>q. cw_covered (env_pos env) win q \<or> (d \<and> redelivers (env_pos env) p q) \<longrightarrow> cw_covered (env_pos env) win' q"
    "window_rows (env_pos env) win' (snd (w_store w')) = window_rows (env_pos env) win (snd (w_store w)) + (if d then 1 else 0)"
    by (simp_all add: dedupe_step_def redelivers_def)
  show ?thesis
    by (rule delivers_one) (use * p in \<open>auto simp: pe_covered_def redelivers_def pe_rows_def window_rows_def\<close>)
qed

lemma pe_backfill_delivers_once:
  assumes order: "position_order (env_pos env)" and dd: "reobservation (env_pos env) = Dedupe"
    and "bw_sound bw" "cw_wf (env_pos env) win" "no_expected win"
    and "\<forall>(p, e) \<in> set pes. pos_of e = p"
    and "pe_backfill (env\<lparr>env_store := logging S\<rparr>) fcut pes bw win w = (out, bw', win', w')"
    and "core_healthy (bw_core bw')" "core_healthy (cw_core win')"
  shows "delivers_once (env_pos env) pos_of (pe_covered (env_pos env) fcut bw win) (pe_rows (env_pos env) bw win (snd (w_store w)))
      out (pe_covered (env_pos env) fcut bw' win') (pe_rows (env_pos env) bw' win' (snd (w_store w'))) \<and>
    core_healthy (bw_core bw) \<and> core_healthy (cw_core win) \<and> bw_sound bw' \<and> cw_wf (env_pos env) win' \<and> no_expected win'"
  using assms(3-)
proof (induction pes arbitrary: bw win w out)
  case Nil
  then show ?case by (simp add: delivers_nothing)
next
  case (Cons pe pes)
  obtain p e where pe: "pe = (p, e)" by (cases pe)
  let ?env = "env\<lparr>env_store := logging S\<rparr>"
  from Cons.prems(4) pe have pos: "pos_of e = p" and rest: "\<forall>(p, e) \<in> set pes. pos_of e = p" by auto
  show ?case
  proof (cases "settles fcut (sort_key (env_pos env) p)")
    case True
    obtain d bw1 w1 where st: "bw_record ?env bw w p e = (d, bw1, w1)" by (cases "bw_record ?env bw w p e")
    from Cons.prems(5) pe True st obtain out1 where run: "pe_backfill ?env fcut pes bw1 win w1 = (out1, bw', win', w')"
      and out: "out = (if d then [e] else []) @ out1"
      by (auto simp: Let_def split: prod.splits)
    have h1: "core_healthy (bw_core bw1)"
    proof (rule ccontr)
      assume h: "\<not> core_healthy (bw_core bw1)"
      have "\<not> core_healthy (bw_core bw')"
        by (rule pe_backfill_rule [where I = "\<lambda>bw win w. \<not> core_healthy (bw_core bw)", OF _ _ subset_refl h run])
          (auto simp: bw_record_halted)
      with Cons.prems(6) show False by simp
    qed
    from bw_record_dedupe [OF dd Cons.prems(1) st h1]
    have s1: "core_healthy (bw_core bw)" "bw_sound bw1" by auto
    from Cons.IH [OF s1(2) Cons.prems(2,3) rest run Cons.prems(6,7)]
      settle_delivers [where pos_of = pos_of, OF order dd Cons.prems(1) True pos st h1] s1
    show ?thesis unfolding out by (blast intro: delivers_trans)
  next
    case False
    obtain d win1 w1 where st: "cw_record_seeded ?env win w p e = (d, win1, w1)"
      by (cases "cw_record_seeded ?env win w p e")
    from Cons.prems(5) pe False st obtain out1 where run: "pe_backfill ?env fcut pes bw win1 w1 = (out1, bw', win', w')"
      and out: "out = (if d then [e] else []) @ out1"
      by (auto simp: Let_def split: prod.splits)
    have h1: "core_healthy (cw_core win1)"
    proof (rule ccontr)
      assume h: "\<not> core_healthy (cw_core win1)"
      have "\<not> core_healthy (cw_core win')"
        by (rule pe_backfill_rule [where I = "\<lambda>bw win w. \<not> core_healthy (cw_core win)", OF _ _ subset_refl h run])
          (auto simp: cw_record_halted)
      with Cons.prems(7) show False by simp
    qed
    from cw_record_seeded_dedupe [OF order dd Cons.prems(2,3) st h1]
    have s1: "core_healthy (cw_core win)" "cw_wf (env_pos env) win1" "no_expected win1"
      by (auto simp: dedupe_step_def)
    from Cons.IH [OF Cons.prems(1) s1(2,3) rest run Cons.prems(6,7)]
      seed_delivers [where pos_of = pos_of, OF order dd Cons.prems(2,3) False pos st h1] s1
    show ?thesis unfolding out by (blast intro: delivers_trans)
  qed
qed

lemma pe_live_delivers_once:
  assumes order: "position_order (env_pos env)" and dd: "reobservation (env_pos env) = Dedupe"
  shows "cw_wf (env_pos env) win \<Longrightarrow> no_expected win \<Longrightarrow>
    \<forall>p e. Event p e \<in> set items \<longrightarrow> pos_of e = p \<Longrightarrow>
    pe_live (env\<lparr>env_store := logging S\<rparr>) items win w = (out, win', w') \<Longrightarrow> core_healthy (cw_core win') \<Longrightarrow>
    delivers_once (env_pos env) pos_of (cw_covered (env_pos env) win) (window_rows (env_pos env) win (snd (w_store w)))
      out (cw_covered (env_pos env) win') (window_rows (env_pos env) win' (snd (w_store w')))"
proof (induction items arbitrary: win w out)
  case Nil
  then show ?case by (simp add: delivers_nothing)
next
  case (Cons item items)
  let ?env = "env\<lparr>env_store := logging S\<rparr>"
  have rest: "\<forall>p e. Event p e \<in> set items \<longrightarrow> pos_of e = p"
    using Cons.prems(3) by (meson list.set_intros(2))
  show ?case
  proof (cases item)
    case (Event p e)
    obtain d win1 w1 where st: "cw_record ?env win w p e = (d, win1, w1)" by (cases "cw_record ?env win w p e")
    from Cons.prems(4) Event st obtain out1 where run: "pe_live ?env items win1 w1 = (out1, win', w')"
      and out: "out = (if d then [e] else []) @ out1"
      by (auto simp: Let_def split: prod.splits)
    have h1: "core_healthy (cw_core win1)"
      using pe_live_halted [of win1 ?env items w1] run Cons.prems(5) by (cases "core_healthy (cw_core win1)") auto
    from cw_record_dedupe(2) [OF order dd Cons.prems(1,2) st h1]
    have *: "cw_wf (env_pos env) win1" "no_expected win1" "d = (\<not> cw_covered (env_pos env) win p)"
      "\<forall>q. cw_covered (env_pos env) win q \<or> (d \<and> redelivers (env_pos env) p q) \<longrightarrow> cw_covered (env_pos env) win1 q"
      "window_rows (env_pos env) win1 (snd (w_store w1)) = window_rows (env_pos env) win (snd (w_store w)) + (if d then 1 else 0)"
      by (simp_all add: dedupe_step_def redelivers_def)
    have pos: "pos_of e = p" using Cons.prems(3) Event by simp
    have "delivers_once (env_pos env) pos_of (cw_covered (env_pos env) win) (window_rows (env_pos env) win (snd (w_store w)))
        (if d then [e] else []) (cw_covered (env_pos env) win1) (window_rows (env_pos env) win1 (snd (w_store w1)))"
      by (rule delivers_one) (use * pos in auto)
    from delivers_trans [OF this Cons.IH [OF *(1,2) rest run Cons.prems(5)]] show ?thesis by (simp add: out)
  next
    case (Retract p)
    have "cw_retract (env_pos env) p win = win" using dd by (simp add: cw_retract_def Let_def)
    with Cons.IH [OF Cons.prems(1,2) rest _ Cons.prems(5)] Cons.prems(4) Retract show ?thesis by simp
  qed
qed

lemma pe_delivers_once:
  assumes order: "position_order (env_pos env)" and dd: "reobservation (env_pos env) = Dedupe"
    and pos: "\<forall>(p, e) \<in> set backfill. pos_of e = p" "\<forall>p e. Event p e \<in> set live \<longrightarrow> pos_of e = p"
    and w: "w_store w = (s, [])"
    and run: "persist_and_emit (env\<lparr>env_store := logging S\<rparr>) backfill live depth fcut seed w = (out, settled, win, w')"
    and healthy: "core_healthy (cw_core win)"
  shows "sorted_wrt (\<lambda>e f. \<not> redelivers (env_pos env) (pos_of e) (pos_of f)) out \<and>
    (\<forall>e \<in> set out. \<forall>v. seed = Some v \<longrightarrow> \<not> contains (env_pos env) v (pos_of e)) \<and>
    window_rows (env_pos env) win (snd (w_store w')) = length out"
proof -
  let ?env = "env\<lparr>env_store := logging S\<rparr>" and ?P = "env_pos env"
  let ?win0 = "cw_new ?P depth (window_seed ?P fcut seed)"
  from run obtain out1 settled1 win1 w1 w2 out2 where
    bf: "pe_backfill ?env fcut backfill (bw_new seed) ?win0 w = (out1, settled1, win1, w1)"
    and fin: "bw_finish ?env settled1 w1 = (settled, w2)"
    and lv: "pe_live ?env live (pe_handover ?P settled win1) w2 = (out2, win, w')" and out: "out = out1 @ out2"
    by (elim persist_and_emit_phases) auto
  have hh: "core_healthy (cw_core (pe_handover ?P settled win1))"
    using pe_live_halted [of "pe_handover ?P settled win1" ?env live w2] lv healthy by auto
  note ho = pe_handover_healthy [OF hh]
  have "bw_sound (bw_new seed)" "cw_wf ?P ?win0" "no_expected ?win0"
    by (auto simp: bw_sound_def bw_new_def cw_wf_def no_expected_def)
  from pe_backfill_delivers_once [OF order dd this pos(1) bf bw_finish_healthy [OF fin ho(1)] ho(2)]
  have b: "delivers_once ?P pos_of (pe_covered ?P fcut (bw_new seed) ?win0) 0 out1
      (pe_covered ?P fcut settled1 win1) (pe_rows ?P settled1 win1 (snd (w_store w1)))"
    and sound: "bw_sound settled1" "cw_wf ?P win1" "no_expected win1"
    by (simp_all add: pe_rows_def w) (simp_all add: bw_new_def)
  have cov: "\<forall>q. pe_covered ?P fcut settled1 win1 q \<longrightarrow> cw_covered ?P (pe_handover ?P settled win1) q"
  proof (intro allI impI)
    fix q assume q: "pe_covered ?P fcut settled1 win1 q"
    show "cw_covered ?P (pe_handover ?P settled win1) q"
    proof (cases "settles fcut (sort_key ?P q)")
      case True
      with q position_order.bw_finish_covers [OF order _ fin ho(1), of q] obtain v where
        "bw_watermark settled = Some v" "contains ?P v q" by (auto simp: pe_covered_def)
      with position_order.covers_by [OF order] show ?thesis
        by (cases "cw_watermark win1") (auto simp: ho(3) cw_covered_def cw_absorb_def)
    next
      case False
      with q have "cw_covered ?P win1 q" by (simp add: pe_covered_def)
      then show ?thesis
        using position_order.advance_keeps [OF order]
        by (cases "cw_watermark win1"; cases "bw_watermark settled")
          (auto simp: ho(3) cw_covered_def cw_absorb_def split: option.splits)
    qed
  qed
  have rows: "window_rows ?P (pe_handover ?P settled win1) (snd (w_store w2)) = pe_rows ?P settled1 win1 (snd (w_store w1))"
    using bw_finish_rows [OF sound(1) fin ho(1)] by (simp add: window_rows_def pe_rows_def ho(3) block_rows_def)
  have hinv: "cw_wf ?P (pe_handover ?P settled win1)" "no_expected (pe_handover ?P settled win1)"
    using sound by (simp_all add: ho(3) cw_wf_def no_expected_def)
  have h0: "delivers_once ?P pos_of (pe_covered ?P fcut settled1 win1) (pe_rows ?P settled1 win1 (snd (w_store w1))) []
      (cw_covered ?P (pe_handover ?P settled win1)) (window_rows ?P (pe_handover ?P settled win1) (snd (w_store w2)))"
    using cov rows by (simp add: delivers_once_def)
  from delivers_trans [OF b delivers_trans [OF h0 pe_live_delivers_once [OF order dd hinv pos(2) lv healthy]]]
  have d: "delivers_once ?P pos_of (pe_covered ?P fcut (bw_new seed) ?win0) 0 out (cw_covered ?P win)
      (window_rows ?P win (snd (w_store w')))"
    by (simp add: out)
  have "pe_covered ?P fcut (bw_new seed) ?win0 q" if "seed = Some v" "contains ?P v q" for v q
    using that position_order.advance_keeps [OF order that(2)]
    by (auto simp: pe_covered_def bw_covered_def cw_covered_def bw_new_def window_seed_def split: option.splits)
  with d show ?thesis unfolding delivers_once_def by auto
qed

end
