(* ===== verification/Fixtures.thy ===== *)
theory Fixtures
  imports Store Gap_Free
begin

text \<open>
  Concrete parameters for the concrete instances of the theorems: a serde dictionary over text
  events that round-trips, a store that accepts every write, one that rejects every write, and
  block positions.
\<close>

definition demo_serde :: "string serde" where
  "demo_serde = \<lparr>
     to_value = (\<lambda>s. Some (JObject [(''id'', JString s)])),
     json_text = (\<lambda>v. case v of JObject [(_, JString s)] \<Rightarrow> CHR ''j'' # s | _ \<Rightarrow> ''null''),
     from_str = (\<lambda>t. case t of c # s \<Rightarrow> if c = CHR ''j'' then Some s else None | [] \<Rightarrow> None) \<rparr>"

definition accepting_store :: "('p, unit) store_ops" where
  "accepting_store = \<lparr>
     store_write = (\<lambda>sch p rows s. (Ok (), s)),
     stored_position = (\<lambda>t s. Ok None),
     store_replay = (\<lambda>sch p s. Ok []) \<rparr>"

definition rejecting_store :: "('p, unit) store_ops" where
  "rejecting_store = \<lparr>
     store_write = (\<lambda>sch p rows s. (Err (Backend ''locked''), s)),
     stored_position = (\<lambda>t s. Ok None),
     store_replay = (\<lambda>sch p s. Ok []) \<rparr>"

text \<open>Block positions, text events and a logging store.\<close>

definition demo_env ::
  "(block_position, unit) store_ops \<Rightarrow> (block_position, string, unit \<times> block_position write_log) writer_env" where
  "demo_env S = \<lparr>env_pos = block_position_ops, env_serde = demo_serde, env_store = logging S\<rparr>"

definition demo_world :: "(unit \<times> block_position write_log) world" where
  "demo_world = \<lparr>w_store = ((), []), w_record = record_inferred ''ev''\<rparr>"

definition demo_row :: "string \<Rightarrow> row" where
  "demo_row s = [Text s, Text (CHR ''j'' # s)]"

lemma demo_env_simps [simp]:
  "env_pos (demo_env S) = block_position_ops" "env_serde (demo_env S) = demo_serde"
  "env_store (demo_env S) = logging S" "(demo_env S)\<lparr>env_store := logging S\<rparr> = demo_env S"
  by (simp_all add: demo_env_def)

lemma demo_serde_round_trip: "to_value demo_serde e = Some j \<Longrightarrow> from_str demo_serde (json_text demo_serde j) = Some e"
  by (auto simp: demo_serde_def)

text \<open>How text events encode: the first one freezes the column.\<close>

definition demo_frozen :: event_record where
  "demo_frozen = \<lparr>rec_table = ''ev'', rec_columns = Inferred (Some [column_new ''id'' SqlText])\<rparr>"

lemma demo_encode_first:
  "record_encode demo_serde (record_inferred ''ev'') s = (Ok (demo_row s), demo_frozen)"
  by (simp add: record_encode_def demo_serde_def field_map_def freeze_columns_def record_inferred_def
      infer_type_def json_to_sql_def reserved_column_def BLOCK_NUMBER_COLUMN_def PAYLOAD_COLUMN_def
      inferred_columns_def column_value_def bt_get_def Let_def ensure_value_fits_def demo_row_def demo_frozen_def)

lemma demo_encode: "record_encode demo_serde demo_frozen s = (Ok (demo_row s), demo_frozen)"
  by (simp add: record_encode_def demo_serde_def field_map_def freeze_columns_def
      infer_type_def json_to_sql_def column_value_def bt_get_def Let_def ensure_value_fits_def demo_row_def demo_frozen_def)

lemma demo_schema: "record_schema demo_frozen = Some \<lparr>schema_table = ''ev'',
    schema_columns = [column_new ''id'' SqlText, column_new PAYLOAD_COLUMN SqlText]\<rparr>"
  by (simp add: demo_frozen_def record_schema_def)

lemma demo_row_eq [simp]: "row_eq (demo_row s) (demo_row t) \<longleftrightarrow> s = t"
  by (auto simp: demo_row_def row_eq_def)

lemma accepting_write [simp]: "store_write accepting_store sch p rows s = (Ok (), s)"
  by (simp add: accepting_store_def)

lemma rejecting_write [simp]: "store_write rejecting_store sch p rows s = (Err (Backend ''locked''), s)"
  by (simp add: rejecting_store_def)

lemmas demo_simps = demo_encode_first demo_encode demo_schema demo_world_def logging_write

end
