(* ===== verification/Writer_Properties.thy ===== *)
theory Writer_Properties
  imports Dedupe Fixtures
begin

text \<open>The properties of the write pipeline, each at a concrete input too.\<close>

section \<open>Ascending, buried writes\<close>

text \<open>
  Property C4: for a block-like source, that is one whose re-observation policy is \<open>Halt\<close>, in live
  mode: let the events of the backfill lie above the stored position and at most at a tip below the
  largest key, and let \<open>crest\<close> be a key that neither the tip nor any live event exceeds. Then, whatever the
  order of the backfill and the answers of the store, and whatever the live source re-emits or
  retracts, the keys that reach the store are strictly ascending and above the stored position, and
  every written key is at least the confirmation depth below \<open>crest\<close>. (An append-only source may
  write again at an instant it has flushed; its guarantee is another one.)
\<close>

theorem writes_ascending_and_buried:
  assumes "position_order (env_pos env)" and "reobservation (env_pos env) = Halt"
    and "tip < max_val" and "tip \<le> crest"
    and "\<forall>(pos, e) \<in> set backfill. above (map_option (sort_key (env_pos env)) seed) (sort_key (env_pos env) pos)
      \<and> sort_key (env_pos env) pos \<le> tip"
    and "\<forall>pos e. Event pos e \<in> set live \<longrightarrow> sort_key (env_pos env) pos \<le> crest"
    and "w_store w = (s, [])"
    and "persist_and_emit (env\<lparr>env_store := logging S\<rparr>) backfill live depth (checked_sub tip depth) seed w
      = (out, settled, win, w')"
  shows "sorted_wrt (<) (map fst (log_groups (env_pos env) (snd (w_store w')))) \<and>
    (\<forall>k \<in> set (map fst (log_groups (env_pos env) (snd (w_store w')))).
       above (map_option (sort_key (env_pos env)) seed) k \<and> sat_add k depth \<le> crest)"
  by (rule pe_writes [OF assms])

text \<open>A backfill to block 5, a live tail with a same-height reorg at block 6, depth 2.\<close>

definition demo_backfill :: "(block_position \<times> string) list" where
  "demo_backfill = [(BlockPosition 3, ''a''), (BlockPosition 5, ''b'')]"

definition demo_live :: "(block_position, string) indexed list" where
  "demo_live = [Event (BlockPosition 6) ''c'', Retract (BlockPosition 6),
     Event (BlockPosition 6) ''d'', Event (BlockPosition 8) ''e'']"

lemma writes_ascending_and_buried_witness:
  "case persist_and_emit (demo_env accepting_store) demo_backfill demo_live 2 (checked_sub 5 2)
          (Some (BlockPosition 1)) demo_world of
     (out, settled, win, w') \<Rightarrow>
       sorted_wrt (<) (map fst (log_groups block_position_ops (snd (w_store w')))) \<and>
       (\<forall>k \<in> set (map fst (log_groups block_position_ops (snd (w_store w')))). 1 < k \<and> sat_add k 2 \<le> 8)"
proof -
  obtain out settled win w' where run:
    "persist_and_emit (demo_env accepting_store) demo_backfill demo_live 2 (checked_sub 5 2)
       (Some (BlockPosition 1)) demo_world = (out, settled, win, w')"
    by (metis surj_pair)
  have "sorted_wrt (<) (map fst (log_groups (env_pos (demo_env accepting_store)) (snd (w_store w')))) \<and>
    (\<forall>k \<in> set (map fst (log_groups (env_pos (demo_env accepting_store)) (snd (w_store w')))).
       above (map_option (sort_key (env_pos (demo_env accepting_store))) (Some (BlockPosition 1))) k \<and> sat_add k 2 \<le> 8)"
    by (rule writes_ascending_and_buried
        [where S = accepting_store and tip = 5 and s = "()" and backfill = demo_backfill and live = demo_live and w = demo_world])
      (use run in \<open>auto simp: above_def demo_world_def block.position_order_axioms max_val_def demo_backfill_def demo_live_def\<close>)
  with run show ?thesis by (simp add: above_def)
qed

text \<open>Evaluating a run: the definitions of the pipeline, by simplification.\<close>

lemmas run_simps = demo_simps persist_and_emit_def checked_sub_def settles_def bw_record_def bw_new_def
  Let_def core_encode_def core_new_def bw_push_def cw_record_seeded_def cw_new_def window_seed_def
  head_above_def finalized_def seeded_slot_def cw_put_def cw_flush_matured_def cw_matured_def core_flush_def
  bw_finish_def pe_handover_def cw_halt_def cw_absorb_def cw_record_def live_slot_def cw_retract_def cw_rewind_def
  sat_add_def sat_sub_def bt_get_def bt_remove_def cw_covered_def bw_covered_def cw_fail_def core_fail_def

section \<open>The refinement\<close>

text \<open>
  Property C5: a block-like live subscription whose window never halts refines the abstract chain:
  what the store received, followed by what the window still buffers, is the chain of groups that
  the backfill and the live items describe (forks rewound, retractions applied, the settled
  prefix grouped), with nothing lost, duplicated or reordered.
\<close>

theorem pipeline_refines_chain:
  assumes "position_order (env_pos env)" and "reobservation (env_pos env) = Halt" and "tip < max_val"
    and "\<forall>(pos, e) \<in> set backfill. above (map_option (sort_key (env_pos env)) seed) (sort_key (env_pos env) pos)
      \<and> sort_key (env_pos env) pos \<le> tip"
    and "w_store w = (s, [])"
    and "persist_and_emit (env\<lparr>env_store := logging S\<rparr>) backfill live depth (checked_sub tip depth) seed w
      = (out, settled, win, w')"
    and "core_healthy (cw_core win)"
  shows "log_groups (env_pos env) (snd (w_store w')) @ pend_groups (cw_pending win) =
    chain_groups (snd (pipeline_chain (env_pos env) (env_serde env) (w_record w) (checked_sub tip depth) backfill live))"
  by (rule pe_refines [OF assms])

lemma pipeline_refines_chain_witness:
  "case persist_and_emit (demo_env accepting_store) demo_backfill demo_live 2 (checked_sub 5 2)
          (Some (BlockPosition 1)) demo_world of
     (out, settled, win, w') \<Rightarrow>
       log_groups block_position_ops (snd (w_store w')) @ pend_groups (cw_pending win) =
         chain_groups (snd (pipeline_chain block_position_ops demo_serde (record_inferred ''ev'') (checked_sub 5 2)
           demo_backfill demo_live)) \<and>
       log_groups block_position_ops (snd (w_store w')) = [(3, [demo_row ''a'']), (5, [demo_row ''b'']), (6, [demo_row ''d''])]"
proof -
  obtain out settled win w' where run:
    "persist_and_emit (demo_env accepting_store) demo_backfill demo_live 2 (checked_sub 5 2)
       (Some (BlockPosition 1)) demo_world = (out, settled, win, w')"
    by (metis surj_pair)
  have "core_healthy (cw_core win)"
    and log: "log_groups block_position_ops (snd (w_store w')) = [(3, [demo_row ''a'']), (5, [demo_row ''b'']), (6, [demo_row ''d''])]"
    using run by (auto simp: run_simps demo_backfill_def demo_live_def)
  then have "log_groups (env_pos (demo_env accepting_store)) (snd (w_store w')) @ pend_groups (cw_pending win) =
    chain_groups (snd (pipeline_chain (env_pos (demo_env accepting_store)) (env_serde (demo_env accepting_store))
      (w_record demo_world) (checked_sub 5 2) demo_backfill demo_live))"
    by (intro pipeline_refines_chain [where S = accepting_store and s = "()" and seed = "Some (BlockPosition 1)" and out = out and settled = settled])
      (use run in \<open>auto simp: above_def demo_world_def block.position_order_axioms max_val_def demo_backfill_def demo_live_def\<close>)
  with run log show ?thesis by (simp add: demo_world_def)
qed

text \<open>
  Property C7: a reorg no deeper than the window is corrected before anything orphaned is written:
  when a live feed in key order forks back to a lower key and follows the new fork, and the window
  did not halt, the store and the buffer hold the old fork below the fork point followed by the
  new fork, and nothing else.
\<close>

theorem reorg_corrected:
  assumes "position_order (env_pos env)" and "reobservation (env_pos env) = Halt" and "tip < max_val"
    and "w_store w = (s, [])"
    and "sorted (map (\<lambda>pe. sort_key (env_pos env) (fst pe)) old)" and "old \<noteq> []"
    and "sorted (map (\<lambda>pe. sort_key (env_pos env) (fst pe)) ((q, f) # new))"
    and "sort_key (env_pos env) q < sort_key (env_pos env) (fst (last old))"
    and "persist_and_emit (env\<lparr>env_store := logging S\<rparr>) [] (map (\<lambda>(p, e). Event p e) (old @ (q, f) # new))
      depth (checked_sub tip depth) seed w = (out, settled, win, w')"
    and "core_healthy (cw_core win)"
  shows "log_groups (env_pos env) (snd (w_store w')) @ pend_groups (cw_pending win) =
    groups (filter (\<lambda>kr. fst kr < sort_key (env_pos env) q) (keyed_rows (env_pos env) (env_serde env) (w_record w) old)
      @ keyed_rows (env_pos env) (env_serde env) (record_after (env_serde env) (w_record w) (map snd old)) ((q, f) # new))"
  by (rule pe_reorg [OF assms])

text \<open>Blocks 7, 8, 9, then 8 and 9 of another fork; depth 3.\<close>

definition demo_old :: "(block_position \<times> string) list" where
  "demo_old = [(BlockPosition 7, ''a''), (BlockPosition 8, ''b''), (BlockPosition 9, ''x'')]"

lemma reorg_corrected_witness:
  "case persist_and_emit (demo_env accepting_store) []
          (map (\<lambda>(p, e). Event p e) (demo_old @ (BlockPosition 8, ''c'') # [(BlockPosition 9, ''d'')]))
          3 (checked_sub 5 3) None demo_world of
     (out, settled, win, w') \<Rightarrow>
       log_groups block_position_ops (snd (w_store w')) @ pend_groups (cw_pending win) =
         [(7, [demo_row ''a'']), (8, [demo_row ''c'']), (9, [demo_row ''d''])]"
proof -
  obtain out settled win w' where run: "persist_and_emit (demo_env accepting_store) []
      (map (\<lambda>(p, e). Event p e) (demo_old @ (BlockPosition 8, ''c'') # [(BlockPosition 9, ''d'')]))
      3 (checked_sub 5 3) None demo_world = (out, settled, win, w')"
    by (metis surj_pair)
  then have "core_healthy (cw_core win)" by (auto simp: run_simps demo_old_def)
  then have "log_groups (env_pos (demo_env accepting_store)) (snd (w_store w')) @ pend_groups (cw_pending win) =
    groups (filter (\<lambda>kr. fst kr < sort_key (env_pos (demo_env accepting_store)) (BlockPosition 8))
        (keyed_rows (env_pos (demo_env accepting_store)) (env_serde (demo_env accepting_store)) (w_record demo_world) demo_old)
      @ keyed_rows (env_pos (demo_env accepting_store)) (env_serde (demo_env accepting_store))
          (record_after (env_serde (demo_env accepting_store)) (w_record demo_world) (map snd demo_old))
          ((BlockPosition 8, ''c'') # [(BlockPosition 9, ''d'')]))"
    by (intro reorg_corrected [where S = accepting_store and s = "()" and tip = 5 and depth = 3 and seed = None and out = out and settled = settled])
      (use run in \<open>auto simp: demo_old_def demo_world_def block.position_order_axioms max_val_def\<close>)
  with run show ?thesis
    by (simp add: demo_simps demo_old_def keyed_rows_def groups_def add_row_def)
qed

section \<open>A halted prefix\<close>

text \<open>
  Property C9: for a block-like source (policy \<open>Halt\<close>) in live mode, whose backfill lies above the
  stored position and at most at a tip below the largest key: when the settled part of the backfill
  halted (a failed write, an unencodable event or an unordered source), nothing above the final cut
  is ever written, so the stored position stays below the hole, and still every backfill and every
  live event is delivered.
\<close>

theorem halted_prefix_blocks_window:
  assumes "position_order (env_pos env)" and "reobservation (env_pos env) = Halt" and "tip < max_val"
    and "\<forall>(pos, e) \<in> set backfill. above (map_option (sort_key (env_pos env)) seed) (sort_key (env_pos env) pos)
      \<and> sort_key (env_pos env) pos \<le> tip"
    and "w_store w = (s, [])"
    and "persist_and_emit (env\<lparr>env_store := logging S\<rparr>) backfill live depth (checked_sub tip depth) seed w
      = (out, settled, win, w')"
    and "\<not> core_healthy (bw_core settled)"
  shows "out = map snd backfill @ events_of live \<and>
    (\<forall>k \<in> set (map fst (log_groups (env_pos env) (snd (w_store w')))). settles (checked_sub tip depth) k)"
  by (rule pe_settled_halt [OF assms])

lemma halted_prefix_blocks_window_witness:
  "case persist_and_emit (demo_env rejecting_store) demo_backfill demo_live 2 (checked_sub 5 2) None demo_world of
     (out, settled, win, w') \<Rightarrow> out = [''a'', ''b'', ''c'', ''d'', ''e'']"
proof -
  obtain out settled win w' where run:
    "persist_and_emit (demo_env rejecting_store) demo_backfill demo_live 2 (checked_sub 5 2) None demo_world
       = (out, settled, win, w')"
    by (metis surj_pair)
  then have "\<not> core_healthy (bw_core settled)" by (auto simp: run_simps demo_backfill_def demo_live_def)
  then have "out = map snd demo_backfill @ events_of demo_live \<and>
    (\<forall>k \<in> set (map fst (log_groups (env_pos (demo_env rejecting_store)) (snd (w_store w')))).
       settles (checked_sub 5 2) k)"
    by (intro halted_prefix_blocks_window [where S = rejecting_store and s = "()" and seed = None and win = win
          and settled = settled and w = demo_world])
      (use run in \<open>auto simp: above_def demo_backfill_def demo_world_def block.position_order_axioms max_val_def\<close>)
  with run show ?thesis by (simp add: demo_backfill_def demo_live_def)
qed

section \<open>Append-only feeds\<close>

text \<open>
  Property C8: for a Dedupe source (an append-only feed whose overlapping re-reads are expected), in a
  run that kept its writers healthy to the end (no failed write and no unencodable event; the window
  is healthy only if the settled prefix was), and where \<open>pos_of\<close> gives the position each event is
  announced at: whatever the order of backfill and live items and wherever the final cut lies, no delivered event re-delivers the position of an earlier one, none was
  already covered by the stored position, and the rows in the store and the window are exactly as
  many as the events delivered. (After a halt a writer delivers everything it is given.)
\<close>

theorem dedupe_delivers_once:
  assumes "position_order (env_pos env)" and "reobservation (env_pos env) = Dedupe"
    and "\<forall>(p, e) \<in> set backfill. pos_of e = p" and "\<forall>p e. Event p e \<in> set live \<longrightarrow> pos_of e = p"
    and "w_store w = (s, [])"
    and "persist_and_emit (env\<lparr>env_store := logging S\<rparr>) backfill live depth fcut seed w = (out, settled, win, w')"
    and "core_healthy (cw_core win)"
  shows "sorted_wrt (\<lambda>e f. \<not> redelivers (env_pos env) (pos_of e) (pos_of f)) out \<and>
    (\<forall>e \<in> set out. \<forall>v. seed = Some v \<longrightarrow> \<not> contains (env_pos env) v (pos_of e)) \<and>
    window_rows (env_pos env) win (snd (w_store w')) = length out"
  by (rule pe_delivers_once [OF assms])

text \<open>A feed of two fills at one instant, re-read by the live tail, and a later one.\<close>

definition demo_fill :: "string \<Rightarrow> time_frontier" where
  "demo_fill e = \<lparr>time_ms = (if e = ''z'' then 9 else 4), seen = {|e|}\<rparr>"

definition frontier_env :: "(time_frontier, string, unit \<times> time_frontier write_log) writer_env" where
  "frontier_env = \<lparr>env_pos = time_frontier_ops (\<lambda>p. None) (\<lambda>s. None), env_serde = demo_serde,
     env_store = logging accepting_store\<rparr>"

definition frontier_world :: "(unit \<times> time_frontier write_log) world" where
  "frontier_world = \<lparr>w_store = ((), []), w_record = record_inferred ''ev''\<rparr>"

lemma dedupe_delivers_once_witness:
  "case persist_and_emit frontier_env [(demo_fill ''x'', ''x''), (demo_fill ''y'', ''y'')]
          [Event (demo_fill ''x'') ''x'', Event (demo_fill ''z'') ''z'', Event (demo_fill ''y'') ''y'']
          2 (Some 3) None frontier_world of
     (out, settled, win, w') \<Rightarrow> out = [''x'', ''y'', ''z''] \<and>
       window_rows (env_pos frontier_env) win (snd (w_store w')) = 3"
proof -
  obtain out settled win w' where run:
    "persist_and_emit frontier_env [(demo_fill ''x'', ''x''), (demo_fill ''y'', ''y'')]
          [Event (demo_fill ''x'') ''x'', Event (demo_fill ''z'') ''z'', Event (demo_fill ''y'') ''y'']
          2 (Some 3) None frontier_world = (out, settled, win, w')"
    by (metis surj_pair)
  have env: "frontier_env\<lparr>env_store := logging accepting_store\<rparr> = frontier_env"
    "env_pos frontier_env = time_frontier_ops (\<lambda>p. None) (\<lambda>s. None)"
    by (simp_all add: frontier_env_def)
  have ev: "core_healthy (cw_core win) \<and> out = [''x'', ''y'', ''z'']"
    using run
    by (auto simp: run_simps demo_fill_def frontier_env_def frontier_world_def frontier_contains_def
        frontier_from_sort_key_def)
  have "sorted_wrt (\<lambda>e f. \<not> redelivers (env_pos frontier_env) (demo_fill e) (demo_fill f)) out \<and>
    (\<forall>e \<in> set out. \<forall>v. None = Some v \<longrightarrow> \<not> contains (env_pos frontier_env) v (demo_fill e)) \<and>
    window_rows (env_pos frontier_env) win (snd (w_store w')) = length out"
    by (rule dedupe_delivers_once [where S = accepting_store and s = "()" and w = frontier_world])
      (use run ev in \<open>auto simp: env frontier.position_order_axioms frontier_world_def\<close>)
  with ev run show ?thesis by simp
qed

end
