(* ===== verification/Persisted.thy ===== *)
theory Persisted
  imports Persist_Emit
begin

text \<open>
  \<open>Persisted\<close> (\<open>src/src/persistence/persisted.rs\<close>): the collector wrapper that replays stored
  history, backfills the gap in bounded windows (bisecting a window the provider finds too large)
  and then follows the live tail.  The wrapped collector is a parameter, a dictionary of
  state-passing operations; an \<open>anyhow\<close> error is its text.
\<close>

section \<open>The wrapped collector\<close>

record ('p, 'e, 'c) source =
  subscribe_indexed :: "'c \<Rightarrow> (string + ('p, 'e) indexed list) \<times> 'c"
  query_range :: "'p \<Rightarrow> 'p \<Rightarrow> 'c \<Rightarrow> (string + ('p \<times> 'e) list) \<times> 'c"
  source_tip :: "'c \<Rightarrow> (string + 'p) \<times> 'c"

section \<open>The builder\<close>

definition DEFAULT_BACKFILL_CHUNK_SIZE :: u64 where
  "DEFAULT_BACKFILL_CHUNK_SIZE = 1000"

record persisted =
  p_schema :: "table_schema option"
  p_table :: "string option"
  p_start_block :: u64
  p_chunk :: u64
  p_depth :: u64
  p_to_block :: "u64 option"

definition persisted_new :: persisted where
  "persisted_new = \<lparr>p_schema = None, p_table = None, p_start_block = 0,
     p_chunk = DEFAULT_BACKFILL_CHUNK_SIZE, p_depth = 1, p_to_block = None\<rparr>"

definition with_to_block :: "u64 \<Rightarrow> persisted \<Rightarrow> persisted" where
  "with_to_block b p = p\<lparr>p_to_block := Some b\<rparr>"

definition with_table :: "string \<Rightarrow> persisted \<Rightarrow> persisted" where
  "with_table t p = p\<lparr>p_table := Some t\<rparr>"

definition try_with_schema :: "table_schema \<Rightarrow> persisted \<Rightarrow> reserved_error + persisted" where
  "try_with_schema s p =
     (case ensure_no_reserved_names s of Err reason \<Rightarrow> Err reason | Ok u \<Rightarrow> Ok (p\<lparr>p_schema := Some s\<rparr>))"

definition with_start_block :: "u64 \<Rightarrow> persisted \<Rightarrow> persisted" where
  "with_start_block b p = p\<lparr>p_start_block := b\<rparr>"

text \<open>The two \<open>NonZeroU64\<close> setters; a zero is not a value of their argument type.\<close>

definition with_backfill_chunk_size :: "u64 \<Rightarrow> persisted \<Rightarrow> persisted" where
  "with_backfill_chunk_size n p = p\<lparr>p_chunk := n\<rparr>"

definition with_confirmation_depth :: "u64 \<Rightarrow> persisted \<Rightarrow> persisted" where
  "with_confirmation_depth n p = p\<lparr>p_depth := n\<rparr>"

definition persisted_with :: "string \<Rightarrow> u64 \<Rightarrow> u64 \<Rightarrow> persisted" where
  "persisted_with event_signature start_block confirmation_depth =
     with_confirmation_depth confirmation_depth
       (with_start_block start_block (with_table (table_name event_signature) persisted_new))"

section \<open>Errors of a subscription\<close>

datatype subscribe_error =
    NoTableName
  | RecordFailed record_error
  | SourceFailed string
  | StoreFailed store_error
  | UnexpectedPayload "sql_value option"

definition resolve_record :: "table_schema option \<Rightarrow> string option \<Rightarrow> subscribe_error + event_record" where
  "resolve_record schema table =
     (case (schema, table) of
        (Some s, _) \<Rightarrow> (case record_declared s of Err e \<Rightarrow> Err (RecordFailed e) | Ok r \<Rightarrow> Ok r)
      | (None, Some t) \<Rightarrow> Ok (record_inferred t)
      | (None, None) \<Rightarrow> Err NoTableName)"

section \<open>Replay\<close>

definition decode_replayed :: "'e serde \<Rightarrow> row \<Rightarrow> subscribe_error + 'e" where
  "decode_replayed sd cols =
     (case cols of
        Text payload # _ \<Rightarrow>
          (case record_decode sd payload of Err e \<Rightarrow> Err (RecordFailed e) | Ok e \<Rightarrow> Ok e)
      | v # _ \<Rightarrow> Err (UnexpectedPayload (Some v))
      | [] \<Rightarrow> Err (UnexpectedPayload None))"

definition replay_stored ::
  "'e serde \<Rightarrow> ('p, 's) store_ops \<Rightarrow> event_record \<Rightarrow> 'p option \<Rightarrow> 's \<Rightarrow> subscribe_error + 'e list" where
  "replay_stored sd S rec stored s =
     (case stored of
        None \<Rightarrow> Ok []
      | Some up_to \<Rightarrow>
          (case store_replay S (payload_schema rec) up_to s of
             Err e \<Rightarrow> Err (StoreFailed e)
           | Ok rows \<Rightarrow> collect_res (map (decode_replayed sd) rows)))"

text \<open>
  \<open>replay_segment\<close>: nothing once replayed; otherwise the stored history behind a zero-item stream
  that sets the flag when it is first polled, which the second component stands for.
\<close>

definition replay_segment ::
  "'e serde \<Rightarrow> ('p, 's) store_ops \<Rightarrow> bool \<Rightarrow> event_record \<Rightarrow> 'p option \<Rightarrow> 's
     \<Rightarrow> subscribe_error + 'e list \<times> bool" where
  "replay_segment sd S replayed rec up_to s =
     (if replayed then Ok ([], False)
      else case replay_stored sd S rec up_to s of Err e \<Rightarrow> Err e | Ok es \<Rightarrow> Ok (es, True))"

section \<open>Bisection\<close>

definition size_error_marks :: "string list" where
  "size_error_marks = [''block range'', ''response size'', ''max results'', ''too many results'',
     ''query returned more than'', ''-32602'', ''too big'']"

definition is_response_size_error :: "string \<Rightarrow> bool" where
  "is_response_size_error e =
     (let s = map to_ascii_lowercase e in list_ex (\<lambda>m. contains_str m s) size_error_marks)"

definition midpoint :: "u64 \<Rightarrow> u64 \<Rightarrow> u64" where
  "midpoint a b = a + (b - a) div 2"

lemma unat_midpoint: "a \<le> b \<Longrightarrow> unat (midpoint a b) = unat a + (unat b - unat a) div 2"
proof -
  assume le: "a \<le> b"
  then have d: "unat ((b - a) div 2) = (unat b - unat a) div 2"
    by (simp add: unat_div unat_sub word_le_nat_alt)
  have "unat a + (unat b - unat a) div 2 \<le> unat b" using le by (auto simp: word_le_nat_alt)
  then have "unat a + unat ((b - a) div 2) < 2 ^ LENGTH(64)" using unat_lt2p [of b] d by simp
  then have "unat (a + (b - a) div 2) = unat a + unat ((b - a) div 2)" by (rule iffD1 [OF unat_add_lem])
  then show ?thesis by (simp add: midpoint_def d)
qed

lemma midpoint_bounds: "a < b \<Longrightarrow> a \<le> midpoint a b \<and> midpoint a b < b"
  by (auto simp: word_le_nat_alt word_less_nat_alt unat_midpoint)

lemma midpoint_suc: "a < b \<Longrightarrow> unat (midpoint a b + 1) = unat (midpoint a b) + 1"
proof -
  assume "a < b"
  then have "unat (midpoint a b) < unat b" using midpoint_bounds by (auto simp: word_less_nat_alt)
  then have "unat (midpoint a b) + unat (1 :: u64) < 2 ^ LENGTH(64)" using unat_lt2p [of b] by simp
  then have "unat (midpoint a b + 1) = unat (midpoint a b) + unat (1 :: u64)" by (rule iffD1 [OF unat_add_lem])
  then show ?thesis by simp
qed

function query_range_split ::
  "'p position_ops \<Rightarrow> ('p, 'e, 'c) source \<Rightarrow> u64 \<Rightarrow> u64 \<Rightarrow> 'c \<Rightarrow> (string + ('p \<times> 'e) list) \<times> 'c" where
  "query_range_split P src a b c =
     (case query_range src (from_sort_key P a) (from_sort_key P b) c of
        (Ok xs, c') \<Rightarrow> (Ok xs, c')
      | (Err e, c') \<Rightarrow>
          if a < b \<and> is_response_size_error e then
            (case query_range_split P src a (midpoint a b) c' of
               (Err e', c'') \<Rightarrow> (Err e', c'')
             | (Ok lo, c'') \<Rightarrow>
                 (case query_range_split P src (midpoint a b + 1) b c'' of
                    (Err e', c3) \<Rightarrow> (Err e', c3)
                  | (Ok hi, c3) \<Rightarrow> (Ok (lo @ hi), c3)))
          else (Err e, c'))"
  by pat_completeness auto
termination
proof (relation "measure (\<lambda>(P, src, a, b, c). unat b - unat a)", goal_cases)
  case (2 P src a b c)
  then have "a < b" by auto
  then show ?case using midpoint_bounds [of a b] by (auto simp: word_less_nat_alt word_le_nat_alt)
next
  case (3 P src a b c)
  then have "a < b" by auto
  then show ?case using midpoint_bounds [of a b] midpoint_suc [of a b]
    by (auto simp: word_less_nat_alt word_le_nat_alt)
qed simp

declare query_range_split.simps [simp del]

section \<open>Windows\<close>

definition window_end :: "u64 \<Rightarrow> u64 \<Rightarrow> u64 \<Rightarrow> u64" where
  "window_end a b chunk = min (sat_add a (chunk - 1)) b"

text \<open>
  The lazy loop of \<open>chunked_query\<close> over the windows after the first: what it yields, and whether it
  cancelled \<open>poison\<close>.  \<^term>\<open>None\<close> means that the loop does not end.
\<close>

partial_function (option) chunk_loop ::
  "'p position_ops \<Rightarrow> ('p, 'e, 'c) source \<Rightarrow> u64 \<Rightarrow> u64 \<Rightarrow> u64 \<Rightarrow> 'c
     \<Rightarrow> (('p \<times> 'e) list \<times> bool \<times> 'c) option" where
  "chunk_loop P src to_key chunk next_from c =
     (if next_from \<le> to_key then
        (case query_range_split P src next_from (window_end next_from to_key chunk) c of
           (Ok xs, c') \<Rightarrow>
             Option.bind (chunk_loop P src to_key chunk (sat_add (window_end next_from to_key chunk) 1) c')
               (\<lambda>(ys, poison, c''). Some (xs @ ys, poison, c''))
         | (Err e, c') \<Rightarrow> Some ([], True, c'))
      else Some ([], False, c))"

text \<open>The eager first window, and the rest as a function of the collector's later state.\<close>

definition chunked_query ::
  "'p position_ops \<Rightarrow> ('p, 'e, 'c) source \<Rightarrow> u64 \<Rightarrow> u64 \<Rightarrow> u64 \<Rightarrow> 'c
     \<Rightarrow> (string + ('c \<Rightarrow> (('p \<times> 'e) list \<times> bool \<times> 'c) option)) \<times> 'c" where
  "chunked_query P src from_key to_key chunk c =
     (let first_to = window_end from_key to_key chunk in
      case query_range_split P src from_key first_to c of
        (Err e, c') \<Rightarrow> (Err e, c')
      | (Ok first, c') \<Rightarrow>
          (Ok (\<lambda>c. Option.bind (chunk_loop P src to_key chunk (sat_add first_to 1) c)
                     (\<lambda>(ys, poison, c). Some (first @ ys, poison, c))), c'))"

definition backfill_segment ::
  "'p position_ops \<Rightarrow> ('p, 'e, 'c) source \<Rightarrow> u64 \<Rightarrow> u64 \<Rightarrow> u64 \<Rightarrow> 'c
     \<Rightarrow> (string + ('c \<Rightarrow> (('p \<times> 'e) list \<times> bool \<times> 'c) option)) \<times> 'c" where
  "backfill_segment P src from_key to_key chunk c =
     (if from_key > to_key then (Ok (\<lambda>c. Some ([], False, c)), c)
      else chunked_query P src from_key to_key chunk c)"

section \<open>Subscribing and consuming\<close>

text \<open>
  What a successful \<open>subscribe\<close> returns: the replayed history (and whether consuming it sets the
  replay-once flag), the lazy backfill, the live items the source had buffered, and the arguments
  \<open>persist_and_emit\<close> is called with.
\<close>

record ('p, 'e, 'c) segments =
  seg_replay :: "'e list"
  seg_marks :: bool
  seg_backfill :: "'c \<Rightarrow> (('p \<times> 'e) list \<times> bool \<times> 'c) option"
  seg_live :: "('p, 'e) indexed list"
  seg_record :: event_record
  seg_cut :: "u64 option"
  seg_seed :: "'p option"

definition effective_tip :: "persisted \<Rightarrow> u64 \<Rightarrow> u64" where
  "effective_tip cfg tip_key = (case p_to_block cfg of Some b \<Rightarrow> min b tip_key | None \<Rightarrow> tip_key)"

definition replay_limit :: "'p position_ops \<Rightarrow> persisted \<Rightarrow> 'p option \<Rightarrow> 'p option" where
  "replay_limit P cfg stored =
     (case (p_to_block cfg, stored) of
        (Some cap, Some l) \<Rightarrow> if sort_key P l > cap then Some (from_sort_key P cap) else stored
      | _ \<Rightarrow> stored)"

definition backfill_from :: "'p position_ops \<Rightarrow> persisted \<Rightarrow> 'p option \<Rightarrow> u64" where
  "backfill_from P cfg stored =
     max (case stored of Some l \<Rightarrow> resume_key P l | None \<Rightarrow> 0) (p_start_block cfg)"

definition final_cut :: "persisted \<Rightarrow> u64 \<Rightarrow> u64 option" where
  "final_cut cfg tip_key =
     (if p_to_block cfg \<noteq> None then Some tip_key else checked_sub tip_key (p_depth cfg))"

definition subscribe ::
  "'p position_ops \<Rightarrow> 'e serde \<Rightarrow> ('p, 's) store_ops \<Rightarrow> ('p, 'e, 'c) source \<Rightarrow> persisted \<Rightarrow> bool \<Rightarrow> 's \<Rightarrow> 'c
     \<Rightarrow> (subscribe_error + ('p, 'e, 'c) segments) \<times> 'c" where
  "subscribe P sd S src cfg replayed s c =
     (case resolve_record (p_schema cfg) (p_table cfg) of
        Err e \<Rightarrow> (Err e, c)
      | Ok rec \<Rightarrow>
          let live = (if p_to_block cfg = None then subscribe_indexed src c else (Ok [], c)) in
          (case live of
             (Err e, c1) \<Rightarrow> (Err (SourceFailed e), c1)
           | (Ok items, c1) \<Rightarrow>
               (case source_tip src c1 of
                  (Err e, c2) \<Rightarrow> (Err (SourceFailed e), c2)
                | (Ok tip, c2) \<Rightarrow>
                    let etip = effective_tip cfg (sort_key P tip) in
                    (case stored_position S (rec_table rec) s of
                       Err e \<Rightarrow> (Err (StoreFailed e), c2)
                     | Ok stored \<Rightarrow>
                         (case replay_segment sd S replayed rec (replay_limit P cfg stored) s of
                            Err e \<Rightarrow> (Err e, c2)
                          | Ok (events, marks) \<Rightarrow>
                              (case backfill_segment P src (backfill_from P cfg stored) etip (p_chunk cfg) c2 of
                                 (Err e, c3) \<Rightarrow> (Err (SourceFailed e), c3)
                               | (Ok bf, c3) \<Rightarrow>
                                   (Ok \<lparr>seg_replay = events, seg_marks = marks, seg_backfill = bf, seg_live = items,
                                        seg_record = rec, seg_cut = final_cut cfg etip, seg_seed = stored\<rparr>, c3)))))))"

text \<open>
  Consuming the stream to its end: the replay, then the backfill and the live tail through the
  writers; a cancelled \<open>poison\<close> ends the live tail before its first item.  The result is what was
  delivered, the replay-once flag, and the state after.
\<close>

definition consume ::
  "'p position_ops \<Rightarrow> 'e serde \<Rightarrow> ('p, 's) store_ops \<Rightarrow> persisted \<Rightarrow> bool \<Rightarrow> ('p, 'e, 'c) segments \<Rightarrow> 's \<Rightarrow> 'c
     \<Rightarrow> ('e list \<times> bool \<times> 's \<times> 'c) option" where
  "consume P sd S cfg replayed seg s c =
     Option.bind (seg_backfill seg c) (\<lambda>(backfill, poison, c').
       case persist_and_emit \<lparr>env_pos = P, env_serde = sd, env_store = S\<rparr> backfill
              (if poison then [] else seg_live seg) (p_depth cfg) (seg_cut seg) (seg_seed seg)
              \<lparr>w_store = s, w_record = seg_record seg\<rparr> of
         (out, settled, win, w) \<Rightarrow> Some (seg_replay seg @ out, replayed \<or> seg_marks seg, w_store w, c'))"

section \<open>Bisection and windows deliver the range\<close>

text \<open>A source that serves an ordered history: whatever it answers with is the range asked for.\<close>

definition between :: "'p position_ops \<Rightarrow> ('p \<times> 'e) list \<Rightarrow> u64 \<Rightarrow> u64 \<Rightarrow> ('p \<times> 'e) list" where
  "between P history a b = filter (\<lambda>pe. a \<le> sort_key P (fst pe) \<and> sort_key P (fst pe) \<le> b) history"

definition serves ::
  "'p position_ops \<Rightarrow> ('p, 'e, 'c) source \<Rightarrow> ('p \<times> 'e) list \<Rightarrow> bool" where
  "serves P src history \<longleftrightarrow> sorted (map (\<lambda>pe. sort_key P (fst pe)) history) \<and>
     (\<forall>a b c xs c'. query_range src (from_sort_key P a) (from_sort_key P b) c = (Ok xs, c') \<longrightarrow>
        xs = between P history a b)"

text \<open>The same by half-open intervals of natural numbers.\<close>

definition span :: "'p position_ops \<Rightarrow> ('p \<times> 'e) list \<Rightarrow> nat \<Rightarrow> nat \<Rightarrow> ('p \<times> 'e) list" where
  "span P history lo hi = filter (\<lambda>pe. lo \<le> unat (sort_key P (fst pe)) \<and> unat (sort_key P (fst pe)) < hi) history"

lemma between_span: "between P history a b = span P history (unat a) (unat b + 1)"
  unfolding between_def span_def by (rule filter_cong) (auto simp: word_le_nat_alt)

lemma span_append:
  assumes "sorted (map (\<lambda>pe. sort_key P (fst pe)) history)" "lo \<le> mid" "mid \<le> hi"
  shows "span P history lo mid @ span P history mid hi = span P history lo hi"
  using assms(1)
proof (induction history)
  case Nil
  then show ?case by (simp add: span_def)
next
  case (Cons pe history)
  show ?case
  proof (cases "unat (sort_key P (fst pe)) < mid")
    case True
    with Cons assms(2,3) show ?thesis by (auto simp: span_def)
  next
    case False
    with Cons.prems have ge: "\<forall>x \<in> set (pe # history). mid \<le> unat (sort_key P (fst x))"
      by (auto simp: word_le_nat_alt intro: order_trans)
    then have "span P (pe # history) lo mid = []" by (fastforce simp: span_def filter_empty_conv)
    moreover have "span P (pe # history) mid hi = span P (pe # history) lo hi"
      unfolding span_def using ge assms(2) by (intro filter_cong) auto
    ultimately show ?thesis by simp
  qed
qed

lemma span_empty: "hi \<le> lo \<Longrightarrow> span P history lo hi = []"
  by (auto simp: span_def filter_empty_conv)

lemma split_serves:
  assumes "serves P src history"
  shows "a \<le> b \<Longrightarrow> query_range_split P src a b c = (Ok xs, c') \<Longrightarrow> xs = between P history a b"
proof (induction "unat b - unat a" arbitrary: a b c xs c' rule: less_induct)
  case less
  obtain r c1 where q: "query_range src (from_sort_key P a) (from_sort_key P b) c = (r, c1)"
    by (cases "query_range src (from_sort_key P a) (from_sort_key P b) c")
  show ?case
  proof (cases r)
    case (Inr ys)
    with less.prems(2) q have "query_range src (from_sort_key P a) (from_sort_key P b) c = (Ok xs, c')"
      by (simp add: query_range_split.simps [of P src a b])
    with assms show ?thesis unfolding serves_def by blast
  next
    case (Inl e)
    with less.prems(2) q have split: "a < b" "is_response_size_error e"
      by (auto simp: query_range_split.simps [of P src a b] split: if_splits)
    let ?m = "midpoint a b"
    note mb = midpoint_bounds [OF split(1)] and ms = midpoint_suc [OF split(1)]
    from less.prems(2) q Inl split obtain lo c2 hi where
      l: "query_range_split P src a ?m c1 = (Ok lo, c2)" and h: "query_range_split P src (?m + 1) b c2 = (Ok hi, c')"
      and xs: "xs = lo @ hi"
      by (auto simp: query_range_split.simps [of P src a b] split: prod.splits sum.splits)
    have "unat ?m - unat a < unat b - unat a" "unat b - unat (?m + 1) < unat b - unat a" "?m + 1 \<le> b"
      using mb ms by (auto simp: word_le_nat_alt word_less_nat_alt)
    with less.hyps [OF _ _ l] less.hyps [OF _ _ h] mb
    have "lo = between P history a ?m" "hi = between P history (?m + 1) b" by auto
    moreover have "unat a \<le> unat ?m + 1" "unat ?m + 1 \<le> unat b + 1" using mb by (auto simp: word_le_nat_alt word_less_nat_alt)
    ultimately show ?thesis
      using span_append [of P history "unat a" "unat ?m + 1" "unat b + 1"] assms xs ms
      by (simp add: serves_def between_span)
  qed
qed

text \<open>A window ends inside the range, and holds at most \<open>chunk\<close> positions.\<close>

lemma window_end_bounds:
  assumes "a \<le> b" "0 < chunk"
  shows "a \<le> window_end a b chunk" "window_end a b chunk \<le> b"
    "unat (window_end a b chunk) - unat a < unat chunk"
proof -
  have "unat (chunk - 1) = unat chunk - 1" using assms(2) by (simp add: unat_sub word_less_nat_alt word_le_nat_alt)
  with assms show "a \<le> window_end a b chunk" "window_end a b chunk \<le> b"
    "unat (window_end a b chunk) - unat a < unat chunk"
    using unat_le_max [of a]
    by (auto simp: window_end_def word_le_nat_alt word_less_nat_alt word_min_unat unat_sat_add)
qed

lemma next_window:
  assumes "a \<le> b" "b < max_val" "0 < chunk"
  shows "unat (sat_add (window_end a b chunk) 1) = unat (window_end a b chunk) + 1"
proof -
  have "unat (window_end a b chunk) < 2 ^ 64 - 1"
    using window_end_bounds(2) [OF assms(1,3)] assms(2)
    by (simp add: word_le_nat_alt word_less_nat_alt unat_max_val)
  then show ?thesis by (simp add: unat_sat_add)
qed

text \<open>Below the largest key the loop ends, whatever the source answers.\<close>

lemma chunk_loop_ends:
  assumes "to_key < max_val" "0 < chunk"
  shows "\<exists>r. chunk_loop P src to_key chunk a c = Some r"
proof (induction "unat to_key + 1 - unat a" arbitrary: a c rule: less_induct)
  case less
  show ?case
  proof (cases "a \<le> to_key")
    case False
    then have "chunk_loop P src to_key chunk a c = Some ([], False, c)" by (simp add: chunk_loop.simps)
    then show ?thesis ..
  next
    case True
    obtain r c1 where q: "query_range_split P src a (window_end a to_key chunk) c = (r, c1)"
      by (cases "query_range_split P src a (window_end a to_key chunk) c")
    show ?thesis
    proof (cases r)
      case (Inl e)
      with q True have "chunk_loop P src to_key chunk a c = Some ([], True, c1)" by (simp add: chunk_loop.simps)
      then show ?thesis ..
    next
      case (Inr xs)
      let ?n = "sat_add (window_end a to_key chunk) 1"
      have "unat to_key + 1 - unat ?n < unat to_key + 1 - unat a"
        using window_end_bounds [OF True assms(2)] next_window [OF True assms] True
        by (auto simp: word_le_nat_alt)
      from less [OF this, of c1] obtain ys poison c'' where
        "chunk_loop P src to_key chunk ?n c1 = Some (ys, poison, c'')" by (metis prod_cases3)
      with Inr q True show ?thesis by (subst chunk_loop.simps) simp
    qed
  qed
qed

text \<open>What it delivers is the range up to where it stopped, complete positions only.\<close>

lemma chunk_loop_serves:
  assumes "serves P src history" "to_key < max_val" "0 < chunk"
  shows "chunk_loop P src to_key chunk a c = Some (ys, poison, c') \<Longrightarrow> unat a \<le> unat to_key + 1 \<Longrightarrow>
    \<exists>hi. unat a \<le> hi \<and> hi \<le> unat to_key + 1 \<and> ys = span P history (unat a) hi \<and> (\<not> poison \<longrightarrow> hi = unat to_key + 1)"
proof (induction "unat to_key + 1 - unat a" arbitrary: a c ys rule: less_induct)
  case less
  show ?case
  proof (cases "a \<le> to_key")
    case False
    with less.prems have "ys = []" "unat a = unat to_key + 1" by (auto simp: chunk_loop.simps word_le_nat_alt)
    then show ?thesis by (intro exI [of _ "unat a"]) (simp add: span_empty)
  next
    case True
    let ?e = "window_end a to_key chunk" and ?n = "sat_add (window_end a to_key chunk) 1"
    note we = window_end_bounds [OF True assms(3)] and nw = next_window [OF True assms(2,3)]
    obtain r c1 where q: "query_range_split P src a ?e c = (r, c1)"
      by (cases "query_range_split P src a ?e c")
    show ?thesis
    proof (cases r)
      case (Inl e)
      with q True less.prems have "ys = []" "poison" by (auto simp: chunk_loop.simps [of P src to_key chunk a])
      with less.prems(2) show ?thesis by (intro exI [of _ "unat a"]) (simp add: span_empty)
    next
      case (Inr xs)
      with q True less.prems obtain zs where
        rest: "chunk_loop P src to_key chunk ?n c1 = Some (zs, poison, c')" and ys: "ys = xs @ zs"
        by (auto simp: chunk_loop.simps [of P src to_key chunk a] bind_eq_Some_conv)
      have xs: "xs = between P history a ?e" using split_serves [OF assms(1) we(1)] q Inr by simp
      have "unat to_key + 1 - unat ?n < unat to_key + 1 - unat a" "unat ?n \<le> unat to_key + 1"
        using we nw True by (auto simp: word_le_nat_alt)
      from less.hyps [OF this(1) rest this(2)] obtain hi where
        hi: "unat ?n \<le> hi" "hi \<le> unat to_key + 1" "zs = span P history (unat ?n) hi" "\<not> poison \<longrightarrow> hi = unat to_key + 1"
        by blast
      have "sorted (map (\<lambda>pe. sort_key P (fst pe)) history)" using assms(1) by (simp add: serves_def)
      moreover have "unat a \<le> unat ?e + 1" using we(1) by (simp add: word_le_nat_alt)
      ultimately have "ys = span P history (unat a) hi"
        using span_append [of P history "unat a" "unat ?e + 1" hi] hi nw by (simp add: ys xs between_span)
      with hi nw we(1) show ?thesis by (intro exI [of _ hi]) (auto simp: word_le_nat_alt)
    qed
  qed
qed

text \<open>The same for the whole segment: an eager first window, and then the loop.\<close>

lemma backfill_segment_serves:
  assumes src: "serves P src history" "to_key < max_val" "0 < chunk"
    and seg: "backfill_segment P src a to_key chunk c = (Ok bf, c1)"
  shows "\<exists>ys poison c'. bf c2 = Some (ys, poison, c') \<and>
    (\<exists>hi. unat a \<le> hi \<and> ys = span P history (unat a) hi \<and> (hi \<le> unat to_key + 1 \<or> hi = unat a) \<and>
      (\<not> poison \<longrightarrow> ys = between P history a to_key))"
proof (cases "a \<le> to_key")
  case False
  with seg have "bf = (\<lambda>c. Some ([], False, c))" by (simp add: backfill_segment_def not_le)
  moreover have "between P history a to_key = []"
    using False by (auto simp: between_span word_le_nat_alt intro: span_empty)
  ultimately show ?thesis by (auto simp: span_empty intro!: exI [of _ "unat a"])
next
  case True
  let ?e = "window_end a to_key chunk"
  note we = window_end_bounds [OF True src(3)] and nw = next_window [OF True src(2,3)]
  from True have "\<not> to_key < a" by simp
  with seg obtain xs where
    q: "query_range_split P src a ?e c = (Ok xs, c1)"
    and bf: "bf = (\<lambda>c. Option.bind (chunk_loop P src to_key chunk (sat_add ?e 1) c)
                     (\<lambda>(ys, poison, c). Some (xs @ ys, poison, c)))"
    by (auto simp: backfill_segment_def chunked_query_def Let_def split: prod.splits sum.splits)
  obtain zs poison c' where l: "chunk_loop P src to_key chunk (sat_add ?e 1) c2 = Some (zs, poison, c')"
    using chunk_loop_ends [OF src(2,3)] by (metis prod_cases3)
  have n: "unat (sat_add ?e 1) \<le> unat to_key + 1" using nw we(2) by (simp add: word_le_nat_alt)
  from chunk_loop_serves [OF src l n] obtain hi where
    hi: "unat (sat_add ?e 1) \<le> hi" "hi \<le> unat to_key + 1" "zs = span P history (unat (sat_add ?e 1)) hi"
      "\<not> poison \<longrightarrow> hi = unat to_key + 1" by blast
  have "xs = between P history a ?e" using split_serves [OF src(1) we(1) q] .
  moreover have "sorted (map (\<lambda>pe. sort_key P (fst pe)) history)" using src(1) by (simp add: serves_def)
  moreover have "unat a \<le> unat ?e + 1" using we(1) by (simp add: word_le_nat_alt)
  ultimately have "xs @ zs = span P history (unat a) hi"
    using span_append [of P history "unat a" "unat ?e + 1" hi] hi nw by (simp add: between_span)
  moreover have "unat a \<le> hi" using hi(1) nw we(1) by (auto simp: word_le_nat_alt)
  ultimately show ?thesis using l hi by (auto simp: bf between_span)
qed

text \<open>At the largest key the loop never ends when every query is answered.\<close>

lemma split_total:
  assumes "\<forall>a b c. is_ok (fst (query_range src (from_sort_key P a) (from_sort_key P b) c))"
  shows "is_ok (fst (query_range_split P src a b c))"
proof -
  obtain r c' where q: "query_range src (from_sort_key P a) (from_sort_key P b) c = (r, c')" by fastforce
  with assms have "is_ok r" by (metis fst_conv)
  with q show ?thesis by (cases r) (simp_all add: query_range_split.simps [of P src a b])
qed

definition always_answers :: "'p position_ops \<Rightarrow> ('p, 'e, 'c) source \<Rightarrow> bool" where
  "always_answers P src \<longleftrightarrow>
     (\<forall>a b c. is_ok (fst (query_range src (from_sort_key P a) (from_sort_key P b) c)))"

lemma chunk_loop_stalls:
  assumes "always_answers P src"
  shows "chunk_loop P src max_val chunk a c = None"
proof -
  have "to_key = max_val \<longrightarrow> \<not> always_answers P src"
    if "chunk_loop P src to_key chunk a c = Some r" for P :: "'a position_ops" and src :: "('a, 'b, 'c) source" and to_key chunk a c r
  proof -
    have "case (((((P, src), to_key), chunk), a), c) of (((((P, src), to_key), chunk), a), c) \<Rightarrow>
        to_key = max_val \<longrightarrow> \<not> always_answers P src"
    proof (rule chunk_loop.raw_induct [OF _ that, where Pa = "\<lambda>t r. case t of (((((P, src), to_key), chunk), a), c) \<Rightarrow>
        to_key = max_val \<longrightarrow> \<not> always_answers P src"], goal_cases)
      case (1 loop P src to_key chunk a c r)
      show ?case
      proof (clarify)
        assume "to_key = max_val" and total: "always_answers P src"
        then have "a \<le> to_key" by simp
        obtain x c' where q: "query_range_split P src a (window_end a to_key chunk) c = (x, c')" by fastforce
        with split_total [of src P a "window_end a to_key chunk" c] total obtain xs where "x = Ok xs"
          by (cases x) (auto simp: always_answers_def)
        with 1(2) q \<open>a \<le> to_key\<close> obtain r' where
          "loop P src to_key chunk (sat_add (window_end a to_key chunk) 1) c' = Some r'"
          by (auto simp: bind_eq_Some_conv)
        from 1(1) [OF this] total \<open>to_key = max_val\<close> show False by simp
      qed
    qed
    then show ?thesis by simp
  qed
  with assms show ?thesis by (metis option.exhaust)
qed

section \<open>What a subscription is made of\<close>

lemma subscribe_OkE:
  assumes "subscribe P sd S src cfg replayed s c = (Ok seg, c')"
  obtains rec items c1 tip c2 stored events marks bf where
    "resolve_record (p_schema cfg) (p_table cfg) = Ok rec"
    "(if p_to_block cfg = None then subscribe_indexed src c else (Ok [], c)) = (Ok items, c1)"
    "source_tip src c1 = (Ok tip, c2)"
    "stored_position S (rec_table rec) s = Ok stored"
    "replay_segment sd S replayed rec (replay_limit P cfg stored) s = Ok (events, marks)"
    "backfill_segment P src (backfill_from P cfg stored) (effective_tip cfg (sort_key P tip)) (p_chunk cfg) c2 = (Ok bf, c')"
    "seg = \<lparr>seg_replay = events, seg_marks = marks, seg_backfill = bf, seg_live = items, seg_record = rec,
       seg_cut = final_cut cfg (effective_tip cfg (sort_key P tip)), seg_seed = stored\<rparr>"
  using assms by (auto simp: subscribe_def Let_def split: sum.splits prod.splits)

lemma replay_segment_Ok:
  assumes "replay_segment sd S replayed rec up_to s = Ok (events, marks)"
  shows "(replayed \<longrightarrow> events = [] \<and> \<not> marks) \<and> (\<not> replayed \<longrightarrow> marks \<and> replay_stored sd S rec up_to s = Ok events)"
  using assms by (auto simp: replay_segment_def split: if_splits sum.splits)

lemma consume_flag:
  assumes "consume P sd S cfg replayed seg s c = Some (out, replayed', s', c')"
  shows "replayed' = (replayed \<or> seg_marks seg)" "\<exists>out'. out = seg_replay seg @ out'"
proof -
  from assms obtain backfill poison c1 where b: "seg_backfill seg c = Some (backfill, poison, c1)"
    by (auto simp: consume_def bind_eq_Some_conv)
  obtain out' settled win w where "persist_and_emit \<lparr>env_pos = P, env_serde = sd, env_store = S\<rparr> backfill
      (if poison then [] else seg_live seg) (p_depth cfg) (seg_cut seg) (seg_seed seg)
      \<lparr>w_store = s, w_record = seg_record seg\<rparr> = (out', settled, win, w)"
    by (metis surj_pair)
  with assms b show "replayed' = (replayed \<or> seg_marks seg)" "\<exists>out'. out = seg_replay seg @ out'"
    by (simp_all add: consume_def) auto
qed

lemma subscribe_gap:
  assumes src: "serves P src history" and tip: "\<forall>c. fst (source_tip src c) = Ok tip"
    and bounds: "effective_tip cfg (sort_key P tip) < max_val" "0 < p_chunk cfg"
    and run: "subscribe P sd S src cfg replayed s c = (Ok seg, c1)"
  shows "\<exists>ys poison c3. seg_backfill seg c2 = Some (ys, poison, c3) \<and>
    (\<not> poison \<longrightarrow> ys = between P history (backfill_from P cfg (seg_seed seg)) (effective_tip cfg (sort_key P tip))) \<and>
    (\<exists>hi. ys = span P history (unat (backfill_from P cfg (seg_seed seg))) hi)"
  using run
proof (cases rule: subscribe_OkE)
  case (1 rec items c1' tip' c2' stored events marks bf)
  from tip have "fst (source_tip src c1') = Ok tip" by blast
  with 1(3) have "tip' = tip" by simp
  with backfill_segment_serves [OF src bounds, of "backfill_from P cfg stored" c2' bf c1 c2] 1(6,7)
  show ?thesis by auto
qed

end
