(* ===== verification/Persisted_Properties.thy ===== *)
theory Persisted_Properties
  imports Persisted Fixtures
begin

text \<open>The properties of a persisted subscription, each at a concrete input too.\<close>

text \<open>
  A source over a fixed history of blocks: it refuses ranges of more than \<open>n\<close> positions with the text
  providers use, and never fails otherwise.
\<close>

definition block_source ::
  "nat \<Rightarrow> u64 \<Rightarrow> (block_position \<times> string) list \<Rightarrow> (block_position, string, nat) source" where
  "block_source n tip history = \<lparr>
     subscribe_indexed = (\<lambda>c. (Ok [], c)),
     query_range = (\<lambda>a b c.
       if unat (block_number b) - unat (block_number a) < n
       then (Ok (between block_position_ops history (block_number a) (block_number b)), c + 1)
       else (Err ''query returned more than 10000 results'', c + 1)),
     source_tip = (\<lambda>c. (Ok (BlockPosition tip), c)) \<rparr>"

lemma block_source_serves:
  "sorted (map (\<lambda>pe. block_number (fst pe)) history) \<Longrightarrow> serves block_position_ops (block_source n tip history) history"
  by (simp add: serves_def block_source_def)

definition demo_history :: "(block_position \<times> string) list" where
  "demo_history = [(BlockPosition 2, ''a''), (BlockPosition 3, ''b''), (BlockPosition 7, ''c'')]"

lemma demo_history_sorted: "sorted (map (\<lambda>pe. block_number (fst pe)) demo_history)"
  by (simp add: demo_history_def)

section \<open>The gap\<close>

text \<open>
  Property C10: over a source that serves an ordered history, the backfill of a subscription always
  ends (for a tip below the largest key, whatever the window size and whatever windows fail).  If
  no window failed it yields exactly the events from the resume point (the stored position's
  resume key, or the start block when that is higher) to the tip; if one failed it yields the
  events below some key, so that every position it delivered is complete.
\<close>

theorem subscription_covers_gap:
  assumes "serves P src history" and "\<forall>c. fst (source_tip src c) = Ok tip"
    and "effective_tip cfg (sort_key P tip) < max_val" and "0 < p_chunk cfg"
    and "subscribe P sd S src cfg replayed s c = (Ok seg, c1)"
  shows "\<exists>ys poison c3. seg_backfill seg c2 = Some (ys, poison, c3) \<and>
    (\<not> poison \<longrightarrow> ys = between P history (backfill_from P cfg (seg_seed seg)) (effective_tip cfg (sort_key P tip))) \<and>
    (\<exists>hi. ys = span P history (unat (backfill_from P cfg (seg_seed seg))) hi)"
  by (rule subscribe_gap [OF assms])

definition demo_cfg :: persisted where
  "demo_cfg = with_backfill_chunk_size 3 (with_start_block 1 (with_table ''ev'' persisted_new))"

text \<open>Evaluating a subscription.\<close>

lemmas subscribe_simps = subscribe_def demo_cfg_def with_backfill_chunk_size_def with_start_block_def
  with_table_def persisted_new_def resolve_record_def Let_def block_source_def effective_tip_def
  accepting_store_def record_inferred_def replay_segment_def replay_stored_def replay_limit_def
  backfill_segment_def backfill_from_def chunked_query_def window_end_def sat_add_def
  query_range_split.simps is_response_size_error_def size_error_marks_def to_ascii_lowercase_def
  is_ascii_uppercase_def midpoint_def

lemma demo_subscribes:
  "is_ok (fst (subscribe block_position_ops demo_serde accepting_store (block_source 2 9 demo_history) demo_cfg replayed () c))"
  by (cases replayed) (simp_all add: subscribe_simps)

lemma subscription_covers_gap_witness:
  "\<exists>seg c1 ys poison c3. subscribe block_position_ops demo_serde accepting_store (block_source 2 9 demo_history)
        demo_cfg False () 0 = (Ok seg, c1) \<and>
    seg_backfill seg 0 = Some (ys, poison, c3) \<and>
    (\<not> poison \<longrightarrow> ys = between block_position_ops demo_history (backfill_from block_position_ops demo_cfg (seg_seed seg)) 9)"
proof -
  obtain seg c1 where run: "subscribe block_position_ops demo_serde accepting_store (block_source 2 9 demo_history)
      demo_cfg False () 0 = (Ok seg, c1)"
    using demo_subscribes [of False 0] by (metis is_ok_simps(2) obj_sumE prod.collapse)
  have tip: "effective_tip demo_cfg (sort_key block_position_ops (BlockPosition 9)) = 9" "p_chunk demo_cfg = 3"
    by (simp_all add: effective_tip_def demo_cfg_def with_backfill_chunk_size_def with_start_block_def with_table_def
        persisted_new_def)
  have "\<exists>ys poison c3. seg_backfill seg 0 = Some (ys, poison, c3) \<and>
    (\<not> poison \<longrightarrow> ys = between block_position_ops demo_history (backfill_from block_position_ops demo_cfg (seg_seed seg))
       (effective_tip demo_cfg (sort_key block_position_ops (BlockPosition 9)))) \<and>
    (\<exists>hi. ys = span block_position_ops demo_history (unat (backfill_from block_position_ops demo_cfg (seg_seed seg))) hi)"
    by (rule subscription_covers_gap [OF block_source_serves [OF demo_history_sorted] _ _ _ run])
      (simp_all only: tip, simp_all add: block_source_def max_val_def)
  with run tip show ?thesis by fastforce
qed

section \<open>Replay once\<close>

text \<open>
  Property C11: subscribing does not by itself use up the replay: as long as no stream has been
  consumed the stored history is replayed again, decoded in full, at the front of what is
  delivered; once a stream has been consumed no later subscription replays anything.
\<close>

theorem replay_once:
  assumes "subscribe P sd S src cfg replayed s c = (Ok seg, c1)"
    and "consume P sd S cfg replayed seg s1 c1 = Some (out, replayed', s2, c2)"
    and "subscribe P sd S src cfg replayed' s2 c2 = (Ok seg', c3)"
  shows "replayed' \<and> seg_replay seg' = [] \<and> \<not> seg_marks seg' \<and> prefix (seg_replay seg) out \<and>
    (\<not> replayed \<longrightarrow> replay_stored sd S (seg_record seg) (replay_limit P cfg (seg_seed seg)) s = Ok (seg_replay seg))"
proof -
  from consume_flag [OF assms(2)] have flag: "replayed' = (replayed \<or> seg_marks seg)" and pre: "prefix (seg_replay seg) out"
    by (auto simp: prefix_def)
  from assms(1) have *: "(\<not> replayed \<longrightarrow> seg_marks seg \<and>
      replay_stored sd S (seg_record seg) (replay_limit P cfg (seg_seed seg)) s = Ok (seg_replay seg))"
    by (elim subscribe_OkE) (auto dest: replay_segment_Ok)
  from flag * have r: "replayed'" by auto
  from assms(3) have "replayed' \<longrightarrow> seg_replay seg' = [] \<and> \<not> seg_marks seg'"
    by (elim subscribe_OkE) (auto dest: replay_segment_Ok)
  with r * pre show ?thesis by blast
qed

lemma replay_once_witness:
  "\<exists>seg c1 out s2 c2 seg' c3.
    subscribe block_position_ops demo_serde accepting_store (block_source 2 9 demo_history) demo_cfg False () 0 = (Ok seg, c1) \<and>
    consume block_position_ops demo_serde accepting_store demo_cfg False seg () c1 = Some (out, True, s2, c2) \<and>
    subscribe block_position_ops demo_serde accepting_store (block_source 2 9 demo_history) demo_cfg True s2 c2 = (Ok seg', c3) \<and>
    seg_replay seg' = []"
proof -
  obtain seg c1 where run: "subscribe block_position_ops demo_serde accepting_store (block_source 2 9 demo_history)
      demo_cfg False () 0 = (Ok seg, c1)"
    using demo_subscribes [of False 0] by (metis is_ok_simps(2) obj_sumE prod.collapse)
  have "\<exists>ys poison c3. seg_backfill seg c1 = Some (ys, poison, c3)"
    using subscribe_gap [OF block_source_serves [OF demo_history_sorted] _ _ _ run, of "BlockPosition 9" c1]
    by (auto simp: block_source_def effective_tip_def demo_cfg_def with_backfill_chunk_size_def with_start_block_def
        with_table_def persisted_new_def max_val_def)
  then obtain ys poison c3 where bf: "seg_backfill seg c1 = Some (ys, poison, c3)" by blast
  then obtain out replayed' s2 c2 where con:
    "consume block_position_ops demo_serde accepting_store demo_cfg False seg () c1 = Some (out, replayed', s2, c2)"
    by (cases "consume block_position_ops demo_serde accepting_store demo_cfg False seg () c1")
      (auto simp: consume_def split: prod.splits)
  obtain seg' c4 where run': "subscribe block_position_ops demo_serde accepting_store (block_source 2 9 demo_history)
      demo_cfg replayed' () c2 = (Ok seg', c4)"
    using demo_subscribes [of replayed' c2] by (metis is_ok_simps(2) obj_sumE prod.collapse)
  have "s2 = ()" by simp
  with replay_once [OF run con] run run' con show ?thesis by fastforce
qed

section \<open>The largest key\<close>

text \<open>
  Property C12: at the largest sort key the window loop never ends: with the tip at \<open>u64::MAX\<close> and a
  source that answers every query, the step past the last window saturates back onto it, the loop
  condition still holds, and the backfill of the last window repeats forever.
\<close>

theorem window_loop_stalls_at_max:
  assumes "always_answers P src"
  shows "chunk_loop P src max_val chunk next_from c = None"
  by (rule chunk_loop_stalls [OF assms])

lemma window_loop_stalls_at_max_witness:
  "chunk_loop block_position_ops (block_source (2 ^ 64) max_val demo_history) max_val 1000 5 0 = None"
proof -
  have "unat b - unat a < 2 ^ 64" for a b :: u64 using unat_lt2p [of b] by simp
  then have "always_answers block_position_ops (block_source (2 ^ 64) max_val demo_history)"
    by (simp add: always_answers_def block_source_def)
  then show ?thesis by (rule window_loop_stalls_at_max)
qed

end
