(* ===== verification/Reconnect.thy ===== *)
theory Reconnect
  imports Prelude
begin

text \<open>
  The backoff curve (\<open>src/src/backoff.rs\<close>) and the reconnect policy of a collector
  (\<open>src/src/engine/reconnect.rs\<close>): a pure state machine that counts consecutive failures and
  decides between a retry and the fatal verdict.

  A \<open>std::time::Duration\<close> is its number of nanoseconds, at most \<open>duration_max\<close>
  (\<open>u64::MAX\<close> seconds and 999,999,999 nanoseconds).
\<close>

section \<open>Durations and the backoff curve\<close>

type_synonym duration = nat

definition from_secs :: "u64 \<Rightarrow> duration" where
  "from_secs s = unat s * 10 ^ 9"

definition duration_max :: duration where
  "duration_max = (2 ^ 64 - 1) * 10 ^ 9 + (10 ^ 9 - 1)"

definition duration_saturating_mul :: "duration \<Rightarrow> u32 \<Rightarrow> duration" where
  "duration_saturating_mul d n = min (d * unat n) duration_max"

definition checked_pow :: "u32 \<Rightarrow> u32 \<Rightarrow> u32 option" where
  "checked_pow a n = (if unat a ^ unat n < 2 ^ 32 then Some (a ^ unat n) else None)"

record backoff =
  base :: duration

definition backoff_new :: "duration \<Rightarrow> backoff" where
  "backoff_new d = \<lparr>base = d\<rparr>"

definition delay :: "backoff \<Rightarrow> u32 \<Rightarrow> duration" where
  "delay b attempt =
     (let factor = (case checked_pow 2 attempt of Some f \<Rightarrow> f | None \<Rightarrow> max_val)
      in duration_saturating_mul (base b) factor)"

lemma unat_two_power:
  assumes "n < 32"
  shows "unat ((2::u32) ^ n) = 2 ^ n"
proof -
  have "(2::nat) ^ n < 2 ^ 32" using assms by (intro power_strict_increasing) simp_all
  moreover have "(2::u32) ^ n = of_nat (2 ^ n)" by simp
  ultimately show ?thesis by (simp only: unat_of_nat take_bit_nat_eq_self_iff len_num1 len_bit0) (simp add: take_bit_nat_eq_self)
qed

lemma checked_pow_two [rust_arith]:
  "checked_pow 2 n = (if unat n < 32 then Some (2 ^ unat n) else None)"
proof -
  have "(2::nat) ^ unat n < 2 ^ 32 \<longleftrightarrow> unat n < 32" by (rule power_strict_increasing_iff) simp
  then show ?thesis by (simp add: checked_pow_def)
qed

lemma delay_eq:
  "delay b n = min (base b * (if unat n < 32 then 2 ^ unat n else 2 ^ 32 - 1)) duration_max"
  by (simp add: delay_def checked_pow_two duration_saturating_mul_def unat_two_power unat_max_val)

lemma delay_mono:
  assumes "m \<le> n"
  shows "delay b m \<le> delay b n"
proof -
  have "(if unat m < 32 then 2 ^ unat m else 2 ^ 32 - 1 :: nat) \<le> (if unat n < 32 then 2 ^ unat n else 2 ^ 32 - 1)"
  proof (cases "unat m < 32 \<and> 32 \<le> unat n")
    case True
    then have "unat m \<le> 31" by simp
    then have "(2::nat) ^ unat m \<le> 2 ^ 31" by (intro power_increasing) simp_all
    also have "\<dots> \<le> 2 ^ 32 - 1" by simp
    finally show ?thesis using True by simp
  next
    case False
    with assms show ?thesis by (auto simp: word_le_nat_alt power_increasing_iff)
  qed
  then have "base b * (if unat m < 32 then 2 ^ unat m else 2 ^ 32 - 1)
      \<le> base b * (if unat n < 32 then 2 ^ unat n else 2 ^ 32 - 1)"
    by (rule mult_le_mono2)
  then show ?thesis unfolding delay_eq by (rule min.mono) (rule order_refl)
qed

section \<open>The policy\<close>

record reconnect_config =
  max_failures :: u32
  base_delay :: duration
  healthy_uptime :: duration

definition default_reconnect_config :: reconnect_config where
  "default_reconnect_config =
     \<lparr>max_failures = 3, base_delay = from_secs 1, healthy_uptime = from_secs 30\<rparr>"

datatype decision = Retry duration | Fatal

record reconnect_policy =
  policy_config :: reconnect_config
  failures :: u32

definition policy_new :: "reconnect_config \<Rightarrow> reconnect_policy" where
  "policy_new config = \<lparr>policy_config = config, failures = 0\<rparr>"

definition policy_backoff :: "reconnect_policy \<Rightarrow> duration" where
  "policy_backoff p = delay (backoff_new (base_delay (policy_config p))) (failures p)"

definition on_events_received :: "reconnect_policy \<Rightarrow> reconnect_policy" where
  "on_events_received p = p\<lparr>failures := 0\<rparr>"

definition record_failure :: "reconnect_policy \<Rightarrow> decision \<times> reconnect_policy" where
  "record_failure p =
     (let p = p\<lparr>failures := failures p + 1\<rparr> in
      if failures p \<ge> max_failures (policy_config p) then (Fatal, p)
      else (Retry (policy_backoff p), p))"

definition on_creation_failed :: "reconnect_policy \<Rightarrow> decision \<times> reconnect_policy" where
  "on_creation_failed p = record_failure p"

definition on_stream_ended :: "reconnect_policy \<Rightarrow> duration \<Rightarrow> decision \<times> reconnect_policy" where
  "on_stream_ended p uptime =
     (if uptime \<ge> healthy_uptime (policy_config p) then
        (let p = p\<lparr>failures := 0\<rparr> in (Retry (policy_backoff p), p))
      else record_failure p)"

section \<open>The streak of consecutive failures\<close>

text \<open>What a policy is told, and the specification of its counter: the failures since the last
  delivered event or healthy end.\<close>

datatype notice = Received | Creation_failed | Ended duration

fun failing :: "reconnect_config \<Rightarrow> notice \<Rightarrow> bool" where
  "failing c Received = False"
| "failing c Creation_failed = True"
| "failing c (Ended uptime) = (uptime < healthy_uptime c)"

definition streak :: "reconnect_config \<Rightarrow> notice list \<Rightarrow> nat" where
  "streak c ns = length (takeWhile (failing c) (rev ns))"

lemma streak_simps [simp]:
  "streak c [] = 0" "streak c (ns @ [n]) = (if failing c n then Suc (streak c ns) else 0)"
  by (simp_all add: streak_def)

fun policy_on :: "reconnect_policy \<Rightarrow> notice \<Rightarrow> decision option \<times> reconnect_policy" where
  "policy_on p Received = (None, on_events_received p)"
| "policy_on p Creation_failed = map_prod Some id (on_creation_failed p)"
| "policy_on p (Ended uptime) = map_prod Some id (on_stream_ended p uptime)"

fun policy_run :: "reconnect_policy \<Rightarrow> notice list \<Rightarrow> decision option list \<times> reconnect_policy" where
  "policy_run p [] = ([], p)"
| "policy_run p (n # ns) =
     (case policy_on p n of (d, p') \<Rightarrow> (case policy_run p' ns of (ds, p'') \<Rightarrow> (d # ds, p'')))"

lemma policy_run_append:
  "policy_run p (ms @ ns) =
     (case policy_run p ms of (ds, p') \<Rightarrow> (case policy_run p' ns of (es, p'') \<Rightarrow> (ds @ es, p'')))"
  by (induction ms arbitrary: p) (auto split: prod.splits)

text \<open>A counter below the threshold counts on without wrapping.\<close>

definition policy_counts :: "reconnect_config \<Rightarrow> nat \<Rightarrow> reconnect_policy \<Rightarrow> bool" where
  "policy_counts c k p \<longleftrightarrow> policy_config p = c \<and> unat (failures p) = k \<and> k < max 1 (unat (max_failures c))"

lemma unat_failures_Suc:
  assumes "policy_counts c k p"
  shows "unat (failures p + 1) = Suc k"
proof -
  from assms have "Suc (unat (failures p)) < 2 ^ 32"
    using unat_lt2p [of "max_failures c"] by (auto simp: policy_counts_def)
  then show ?thesis using assms by (simp add: policy_counts_def unat_word_ariths)
qed

lemma record_failure_counts:
  assumes "policy_counts c k p"
  shows "record_failure p =
     (if unat (max_failures c) \<le> Suc k then Fatal else Retry (delay (backoff_new (base_delay c)) (failures p + 1)),
      p\<lparr>failures := failures p + 1\<rparr>)"
  using assms unat_failures_Suc [OF assms]
  by (simp add: record_failure_def policy_counts_def policy_backoff_def word_le_nat_alt)

lemma policy_counts_Suc:
  "policy_counts c k p \<Longrightarrow> Suc k < unat (max_failures c) \<Longrightarrow> policy_counts c (Suc k) (p\<lparr>failures := failures p + 1\<rparr>)"
  using unat_failures_Suc [of c k p] by (simp add: policy_counts_def)

lemma policy_counts_reset: "policy_counts c k p \<Longrightarrow> policy_counts c 0 (p\<lparr>failures := 0\<rparr>)"
  by (simp add: policy_counts_def)

lemma failures_of_nat: "policy_counts c k p \<Longrightarrow> failures p = of_nat k"
  by (auto simp: policy_counts_def)

lemmas policy_on_simps = on_events_received_def on_creation_failed_def on_stream_ended_def Let_def

lemma policy_on_counts:
  assumes counts: "policy_counts c k p" and run: "policy_on p n = (d, p')"
  shows "d = (if n = Received then None
      else Some (if failing c n \<and> unat (max_failures c) \<le> Suc k then Fatal
           else Retry (delay (backoff_new (base_delay c)) (of_nat (if failing c n then Suc k else 0)))))"
    and "d \<noteq> Some Fatal \<Longrightarrow> policy_counts c (if failing c n then Suc k else 0) p'"
proof -
  from counts have config: "policy_config p = c" by (simp add: policy_counts_def)
  consider "n = Received" "d = None" "p' = p\<lparr>failures := 0\<rparr>"
    | "failing c n" "n \<noteq> Received" "(d, p') = map_prod Some id (record_failure p)"
    | "\<not> failing c n" "n \<noteq> Received" "d = Some (Retry (delay (backoff_new (base_delay c)) 0))" "p' = p\<lparr>failures := 0\<rparr>"
    using run config by (cases n) (auto simp: policy_on_simps policy_backoff_def split: if_splits)
  note cases = this
  from cases show "d = (if n = Received then None
      else Some (if failing c n \<and> unat (max_failures c) \<le> Suc k then Fatal
           else Retry (delay (backoff_new (base_delay c)) (of_nat (if failing c n then Suc k else 0)))))"
    by cases (auto simp: record_failure_counts [OF counts] failures_of_nat [OF counts] add.commute)
  assume "d \<noteq> Some Fatal"
  with cases show "policy_counts c (if failing c n then Suc k else 0) p'"
  proof cases
    case 2
    with \<open>d \<noteq> Some Fatal\<close> have "Suc k < unat (max_failures c)"
      by (auto simp: record_failure_counts [OF counts] split: if_splits)
    from policy_counts_Suc [OF counts this] 2 show ?thesis
      by (simp add: record_failure_counts [OF counts])
  qed (simp_all add: policy_counts_reset [OF counts])
qed

lemma policy_run_counts:
  assumes "policy_run (policy_new c) ns = (ds, p)" and "Some Fatal \<notin> set ds"
  shows "policy_counts c (streak c ns) p"
  using assms
proof (induction ns arbitrary: ds p rule: rev_induct)
  case Nil
  then show ?case by (auto simp: policy_counts_def policy_new_def)
next
  case (snoc n ns)
  obtain es q where run: "policy_run (policy_new c) ns = (es, q)" by fastforce
  with snoc.prems obtain d where d: "policy_on q n = (d, p)" "ds = es @ [d]"
    by (auto simp: policy_run_append split: prod.splits)
  with snoc.prems snoc.IH [OF run] have "policy_counts c (streak c ns) q" by simp
  from policy_on_counts(2) [OF this d(1)] d snoc.prems show ?case by (auto split: if_splits)
qed

lemma policy_follows_streak:
  assumes "policy_run (policy_new c) (ns @ [n]) = (ds @ [d], p)" and "Some Fatal \<notin> set ds"
  shows "d = (if n = Received then None
      else Some (if failing c n \<and> unat (max_failures c) \<le> streak c (ns @ [n]) then Fatal
           else Retry (delay (backoff_new (base_delay c)) (of_nat (streak c (ns @ [n]))))))"
proof -
  from assms obtain q where run: "policy_run (policy_new c) ns = (ds, q)" and "policy_on q n = (d, p)"
    by (auto simp: policy_run_append split: prod.splits)
  from policy_on_counts(1) [OF policy_run_counts [OF run assms(2)] this(2)] show ?thesis
    by simp
qed

end
