(* ===== verification/Driver.thy ===== *)
theory Driver
  imports Reconnect
begin

text \<open>
  The collector driver (\<open>src/src/engine/driver.rs\<close>): the loop that subscribes, pumps events into the
  broadcast channel and, on a lost or failed stream, retries or escalates. A driver is a state
  machine whose inputs are what its awaits return; the fleet of an engine's drivers shares the
  fatal and the root token and the event channel, and interleaves freely with the caller's
  cancellation. A child token is cancelled exactly when the root is: nobody else cancels it.

  What is abstracted: the wall clock (\<open>Stream_ended\<close> carries the measured uptime, \<open>Slept\<close> is the end of
  the sleep), and a send without receivers, which the driver only logs.
\<close>

section \<open>One driver\<close>

datatype driver_phase =
    Subscribing
  | Pumping
  | Sleeping duration
  | Cancelling_fatal
  | Cancelling_root
  | Returned

record driver =
  d_phase :: driver_phase
  d_policy :: reconnect_policy

datatype 'e driver_input =
    Shutdown
  | Subscribed
  | Subscribe_failed
  | Item 'e
  | Stream_ended duration
  | Slept
  | Cancel_fatal
  | Cancel_root

definition driver_new :: "reconnect_config \<Rightarrow> driver" where
  "driver_new config = \<lparr>d_phase = Subscribing, d_policy = policy_new config\<rparr>"

definition after_verdict :: "decision \<times> reconnect_policy \<Rightarrow> driver" where
  "after_verdict v = \<lparr>d_phase = (case fst v of Retry after \<Rightarrow> Sleeping after | Fatal \<Rightarrow> Cancelling_fatal),
     d_policy = snd v\<rparr>"

text \<open>
  \<open>cancelled\<close> is the state of the child token. The select around \<open>subscribe\<close> is biased towards the
  token, so once it is cancelled no subscription result is taken; the other selects are fair and
  may still take an item, a stream end or the end of the sleep.
\<close>

fun driver_on :: "bool \<Rightarrow> driver \<Rightarrow> 'e driver_input \<Rightarrow> driver option" where
  "driver_on cancelled d Shutdown =
     (if cancelled then
        (case d_phase d of
           Subscribing \<Rightarrow> Some (d\<lparr>d_phase := Returned\<rparr>)
         | Pumping \<Rightarrow> Some (d\<lparr>d_phase := Returned\<rparr>)
         | Sleeping _ \<Rightarrow> Some (d\<lparr>d_phase := Returned\<rparr>)
         | _ \<Rightarrow> None)
      else None)"
| "driver_on cancelled d Subscribed =
     (if d_phase d = Subscribing \<and> \<not> cancelled then Some (d\<lparr>d_phase := Pumping\<rparr>) else None)"
| "driver_on cancelled d Subscribe_failed =
     (if d_phase d = Subscribing \<and> \<not> cancelled
      then Some (after_verdict (on_creation_failed (d_policy d))) else None)"
| "driver_on cancelled d (Item e) =
     (if d_phase d = Pumping then Some (d\<lparr>d_policy := on_events_received (d_policy d)\<rparr>) else None)"
| "driver_on cancelled d (Stream_ended uptime) =
     (if d_phase d = Pumping then Some (after_verdict (on_stream_ended (d_policy d) uptime)) else None)"
| "driver_on cancelled d Slept =
     (case d_phase d of Sleeping _ \<Rightarrow> Some (d\<lparr>d_phase := Subscribing\<rparr>) | _ \<Rightarrow> None)"
| "driver_on cancelled d Cancel_fatal =
     (if d_phase d = Cancelling_fatal then Some (d\<lparr>d_phase := Cancelling_root\<rparr>) else None)"
| "driver_on cancelled d Cancel_root =
     (if d_phase d = Cancelling_root then Some (d\<lparr>d_phase := Returned\<rparr>) else None)"

section \<open>The fleet\<close>

record 'e fleet =
  drivers :: "driver list"
  fatal_token :: bool
  root_token :: bool
  sent :: "'e list"

datatype 'e fleet_label = Driver nat "'e driver_input" | Caller_cancels

definition fleet_start :: "reconnect_config \<Rightarrow> nat \<Rightarrow> 'e fleet" where
  "fleet_start config n = \<lparr>drivers = replicate n (driver_new config),
     fatal_token = False, root_token = False, sent = []\<rparr>"

text \<open>What an input of a driver does to the shared state.\<close>

fun driver_effect :: "'e driver_input \<Rightarrow> 'e fleet \<Rightarrow> 'e fleet" where
  "driver_effect (Item e) s = s\<lparr>sent := sent s @ [e]\<rparr>"
| "driver_effect Cancel_fatal s = s\<lparr>fatal_token := True\<rparr>"
| "driver_effect Cancel_root s = s\<lparr>root_token := True\<rparr>"
| "driver_effect _ s = s"

inductive fleet_step :: "'e fleet \<Rightarrow> 'e fleet_label \<Rightarrow> 'e fleet \<Rightarrow> bool" where
  Drive: "i < length (drivers s) \<Longrightarrow> driver_on (root_token s) (drivers s ! i) inp = Some d \<Longrightarrow>
     fleet_step s (Driver i inp) (driver_effect inp (s\<lparr>drivers := (drivers s)[i := d]\<rparr>))"
| Caller: "fleet_step s Caller_cancels (s\<lparr>root_token := True\<rparr>)"

inductive fleet_run :: "'e fleet \<Rightarrow> 'e fleet_label list \<Rightarrow> 'e fleet \<Rightarrow> bool" for s0 where
  Start: "fleet_run s0 [] s0"
| Then: "fleet_run s0 ls s \<Longrightarrow> fleet_step s l s' \<Longrightarrow> fleet_run s0 (ls @ [l]) s'"

inductive_cases fleet_step_driverE: "fleet_step s (Driver i inp) s'"
inductive_cases fleet_step_callerE: "fleet_step s Caller_cancels s'"
inductive_simps fleet_step_driver: "fleet_step s (Driver i inp) s'"
inductive_simps fleet_step_caller: "fleet_step s Caller_cancels s'"

text \<open>The projection of a run on one driver, and on the event channel.\<close>

fun notice_of :: "'e driver_input \<Rightarrow> notice list" where
  "notice_of (Item e) = [Received]"
| "notice_of Subscribe_failed = [Creation_failed]"
| "notice_of (Stream_ended uptime) = [Ended uptime]"
| "notice_of _ = []"

definition notices :: "nat \<Rightarrow> 'e fleet_label list \<Rightarrow> notice list" where
  "notices i ls = concat (map (\<lambda>l. case l of Driver j inp \<Rightarrow> if j = i then notice_of inp else [] | _ \<Rightarrow> []) ls)"

definition items :: "'e fleet_label list \<Rightarrow> 'e list" where
  "items ls = concat (map (\<lambda>l. case l of Driver j (Item e) \<Rightarrow> [e] | _ \<Rightarrow> []) ls)"

lemma notices_snoc [simp]:
  "notices i [] = []"
  "notices i (ls @ [Driver j inp]) = notices i ls @ (if j = i then notice_of inp else [])"
  "notices i (ls @ [Caller_cancels]) = notices i ls"
  by (simp_all add: notices_def)

lemma items_snoc [simp]:
  "items [] = []" "items (ls @ [Caller_cancels]) = items ls"
  "items (ls @ [Driver j inp]) = items ls @ (case inp of Item e \<Rightarrow> [e] | _ \<Rightarrow> [])"
  by (simp_all add: items_def split: driver_input.split)

lemma driver_effect_simps [simp]:
  "drivers (driver_effect inp s) = drivers s"
  "fatal_token (driver_effect inp s) = (fatal_token s \<or> inp = Cancel_fatal)"
  "root_token (driver_effect inp s) = (root_token s \<or> inp = Cancel_root)"
  "sent (driver_effect inp s) = sent s @ (case inp of Item e \<Rightarrow> [e] | _ \<Rightarrow> [])"
  by (cases inp; simp)+

lemma fleet_run_trans:
  "fleet_run s1 ls' s2 \<Longrightarrow> fleet_run s0 ls s1 \<Longrightarrow> fleet_run s0 (ls @ ls') s2"
proof (induction rule: fleet_run.induct)
  case Start
  then show ?case by simp
next
  case (Then ls' s l s')
  from fleet_run.Then [OF Then.IH [OF Then.prems] Then.hyps(2)] show ?case by simp
qed

lemma fleet_run_one: "fleet_step s l s' \<Longrightarrow> fleet_run s [l] s'"
  using fleet_run.Then [OF fleet_run.Start] by fastforce

section \<open>The invariant of a driver\<close>

text \<open>A driver that goes on counts its failures exactly, below the threshold; one that escalates
  has seen the threshold reached.\<close>

definition driver_ok :: "reconnect_config \<Rightarrow> notice list \<Rightarrow> driver \<Rightarrow> bool" where
  "driver_ok c ns d \<longleftrightarrow>
     (case d_phase d of
        Cancelling_fatal \<Rightarrow> streak c ns \<ge> max 1 (unat (max_failures c))
      | Cancelling_root \<Rightarrow> streak c ns \<ge> max 1 (unat (max_failures c))
      | Returned \<Rightarrow> True
      | _ \<Rightarrow> policy_counts c (streak c ns) (d_policy d))"

lemma driver_ok_new: "driver_ok c [] (driver_new c)"
  by (simp add: driver_ok_def driver_new_def policy_counts_def policy_new_def)

lemma driver_ok_verdict:
  assumes "policy_counts c (streak c ns) p" "policy_on p n = (Some d, p')"
  shows "driver_ok c (ns @ [n]) (after_verdict (d, p'))"
  using policy_on_counts [OF assms]
  by (cases d) (auto simp: driver_ok_def after_verdict_def split: if_splits)

lemma driver_ok_on:
  assumes ok: "driver_ok c ns d" and on: "driver_on cancelled d inp = Some d'"
  shows "driver_ok c (ns @ notice_of inp) d'"
proof (cases inp)
  case Subscribe_failed
  obtain v p where v: "on_creation_failed (d_policy d) = (v, p)" by fastforce
  with Subscribe_failed ok on driver_ok_verdict [of c ns "d_policy d" Creation_failed v p]
  show ?thesis by (auto simp: driver_ok_def split: if_splits)
next
  case (Stream_ended uptime)
  obtain v p where v: "on_stream_ended (d_policy d) uptime = (v, p)" by fastforce
  with Stream_ended ok on driver_ok_verdict [of c ns "d_policy d" "Ended uptime" v p]
  show ?thesis by (auto simp: driver_ok_def split: if_splits)
next
  case (Item e)
  with ok on policy_counts_reset [of c "streak c ns" "d_policy d"] show ?thesis
    by (auto simp: driver_ok_def on_events_received_def split: if_splits)
qed (use ok on in \<open>auto simp: driver_ok_def split: if_splits driver_phase.splits\<close>)

lemma fleet_drivers_ok:
  assumes "fleet_run (fleet_start c n) ls s"
  shows "length (drivers s) = n \<and> (\<forall>i < n. driver_ok c (notices i ls) (drivers s ! i))"
  using assms
proof (induction rule: fleet_run.induct)
  case Start
  then show ?case by (simp add: fleet_start_def driver_ok_new)
next
  case (Then ls s l s')
  show ?case
  proof (cases l)
    case (Driver i inp)
    with Then.hyps(2) obtain d where d: "driver_on (root_token s) (drivers s ! i) inp = Some d" "i < length (drivers s)"
      and s': "drivers s' = (drivers s)[i := d]"
      by (auto simp: fleet_step_driver)
    have "driver_ok c (notices j (ls @ [l])) (drivers s' ! j)" if "j < n" for j
    proof (cases "j = i")
      case True
      with Then.IH d s' Driver that driver_ok_on [OF _ d(1), of c "notices i ls"] show ?thesis by simp
    next
      case False
      with Then.IH s' Driver that show ?thesis by simp
    qed
    with Then.IH s' show ?thesis by simp
  next
    case Caller_cancels
    with Then show ?thesis by (auto simp: fleet_step_caller)
  qed
qed

section \<open>The tokens\<close>

definition escalating :: "driver \<Rightarrow> bool" where
  "escalating d \<longleftrightarrow> d_phase d \<in> {Cancelling_fatal, Cancelling_root}"

lemma driver_on_escalating:
  "driver_on cancelled d inp = Some d' \<Longrightarrow> d_phase d' = Cancelling_root \<longleftrightarrow> inp = Cancel_fatal"
  by (cases inp) (auto simp: after_verdict_def split: if_splits driver_phase.splits decision.splits)

text \<open>
  The order of the two cancellations: a driver about to cancel the root has cancelled the fatal
  token, so a root token that nobody but a driver cancelled comes with the fatal one.
\<close>

definition tokens_ok :: "'e fleet_label list \<Rightarrow> 'e fleet \<Rightarrow> bool" where
  "tokens_ok ls s \<longleftrightarrow>
     ((\<exists>d \<in> set (drivers s). d_phase d = Cancelling_root) \<longrightarrow> fatal_token s) \<and>
     (root_token s \<longrightarrow> fatal_token s \<or> Caller_cancels \<in> set ls)"

lemma fleet_tokens_ok:
  assumes "fleet_run (fleet_start c n) ls s"
  shows "tokens_ok ls s"
  using assms
proof (induction rule: fleet_run.induct)
  case Start
  then show ?case by (auto simp: tokens_ok_def fleet_start_def driver_new_def)
next
  case (Then ls s l s')
  show ?case
  proof (cases l)
    case (Driver i inp)
    with Then.hyps(2) obtain d where d: "driver_on (root_token s) (drivers s ! i) inp = Some d" "i < length (drivers s)"
      and s': "s' = driver_effect inp (s\<lparr>drivers := (drivers s)[i := d]\<rparr>)"
      by (auto simp: fleet_step_driver)
    have ph: "\<exists>e \<in> set (drivers s). d_phase e = Cancelling_root" if "inp = Cancel_root"
      using d that nth_mem [OF d(2)] by (auto split: if_splits)
    have "\<exists>e \<in> set (drivers s'). d_phase e = Cancelling_root \<Longrightarrow> fatal_token s'"
      using set_update_subset_insert [of "drivers s" i d] driver_on_escalating [OF d(1)] Then.IH s'
      by (auto simp: tokens_ok_def)
    moreover have "root_token s' \<Longrightarrow> fatal_token s' \<or> Caller_cancels \<in> set (ls @ [l])"
      using ph Then.IH s' by (auto simp: tokens_ok_def)
    ultimately show ?thesis by (simp add: tokens_ok_def)
  next
    case Caller_cancels
    with Then show ?thesis by (auto simp: tokens_ok_def fleet_step_caller)
  qed
qed

lemma fleet_fatal_cause:
  assumes "fleet_run (fleet_start c n) ls s" and "fatal_token s"
  shows "\<exists>ls1 i ls2. ls = ls1 @ ls2 \<and> i < n \<and> streak c (notices i ls1) \<ge> max 1 (unat (max_failures c))"
  using assms
proof (induction rule: fleet_run.induct)
  case Start
  then show ?case by (simp add: fleet_start_def)
next
  case (Then ls s l s')
  show ?case
  proof (cases "fatal_token s")
    case True
    with Then.IH show ?thesis by (metis append.assoc)
  next
    case False
    with Then.prems Then.hyps(2) obtain i where l: "l = Driver i Cancel_fatal" "i < length (drivers s)"
      "d_phase (drivers s ! i) = Cancelling_fatal"
      by (cases l) (auto simp: fleet_step_driver fleet_step_caller split: if_splits)
    with fleet_drivers_ok [OF Then.hyps(1)] have "i < n" "streak c (notices i ls) \<ge> max 1 (unat (max_failures c))"
      by (auto simp: driver_ok_def)
    then show ?thesis by blast
  qed
qed

lemma fleet_sent:
  assumes "fleet_run (fleet_start c n) ls s"
  shows "sent s = items ls"
  using assms
  by (induction rule: fleet_run.induct)
    (auto simp: fleet_start_def elim!: fleet_step.cases)

section \<open>Shutting down\<close>

fun shutdown_inputs :: "driver_phase \<Rightarrow> 'e driver_input list" where
  "shutdown_inputs Returned = []"
| "shutdown_inputs Cancelling_fatal = [Cancel_fatal, Cancel_root]"
| "shutdown_inputs Cancelling_root = [Cancel_root]"
| "shutdown_inputs _ = [Shutdown]"

definition winding_down :: "'e fleet_label \<Rightarrow> bool" where
  "winding_down l \<longleftrightarrow> (\<exists>i inp. l = Driver i inp \<and> inp \<in> {Shutdown, Cancel_fatal, Cancel_root})"

lemma fleet_drive:
  assumes "i < length (drivers s)" "driver_on (root_token s) (drivers s ! i) inp = Some d"
  shows "fleet_run s [Driver i inp] (driver_effect inp (s\<lparr>drivers := (drivers s)[i := d]\<rparr>))"
  using assms by (intro fleet_run_one fleet_step.Drive)

lemma driver_shuts_down:
  fixes s :: "'e fleet"
  assumes "root_token s" "i < length (drivers s)"
  shows "\<exists>ls s'. fleet_run s ls s' \<and> (\<forall>l \<in> set ls. winding_down l) \<and> root_token s' \<and> length ls \<le> 2 \<and>
    (\<exists>d. drivers s' = (drivers s)[i := d] \<and> d_phase d = Returned)"
proof -
  let ?d = "drivers s ! i"
  consider "d_phase ?d = Returned" | "d_phase ?d = Cancelling_fatal" | "d_phase ?d = Cancelling_root"
    | "driver_on True ?d (Shutdown :: 'e driver_input) = Some (?d\<lparr>d_phase := Returned\<rparr>)"
    by (cases "d_phase ?d") auto
  then show ?thesis
  proof cases
    case 1
    then show ?thesis using assms fleet_run.Start [of s]
      by (intro exI [of _ "[]"] exI [of _ s]) (auto intro!: exI [of _ ?d])
  next
    case 2
    let ?s1 = "driver_effect Cancel_fatal (s\<lparr>drivers := (drivers s)[i := ?d\<lparr>d_phase := Cancelling_root\<rparr>]\<rparr>)"
    let ?s2 = "driver_effect Cancel_root (?s1\<lparr>drivers := (drivers ?s1)[i := ?d\<lparr>d_phase := Returned\<rparr>]\<rparr>)"
    have "fleet_run s [Driver i Cancel_fatal] ?s1" using 2 assms by (intro fleet_drive) simp_all
    moreover have "fleet_run ?s1 [Driver i Cancel_root] ?s2" using 2 assms by (intro fleet_drive) simp_all
    ultimately have "fleet_run s ([Driver i Cancel_fatal] @ [Driver i Cancel_root]) ?s2" by (rule fleet_run_trans [rotated])
    then show ?thesis using assms
      by (intro exI [of _ "[Driver i Cancel_fatal] @ [Driver i Cancel_root]"] exI [of _ ?s2])
        (auto simp: winding_down_def intro!: exI [of _ "?d\<lparr>d_phase := Returned\<rparr>"])
  next
    case 3
    let ?s1 = "driver_effect Cancel_root (s\<lparr>drivers := (drivers s)[i := ?d\<lparr>d_phase := Returned\<rparr>]\<rparr>)"
    have "fleet_run s [Driver i Cancel_root] ?s1" using 3 assms by (intro fleet_drive) simp_all
    then show ?thesis using assms
      by (intro exI [of _ "[Driver i Cancel_root]"] exI [of _ ?s1])
        (auto simp: winding_down_def intro!: exI [of _ "?d\<lparr>d_phase := Returned\<rparr>"])
  next
    case 4
    let ?s1 = "driver_effect Shutdown (s\<lparr>drivers := (drivers s)[i := ?d\<lparr>d_phase := Returned\<rparr>]\<rparr>)"
    have "fleet_run s [Driver i Shutdown] ?s1" using 4 assms by (intro fleet_drive) simp_all
    then show ?thesis using assms
      by (intro exI [of _ "[Driver i Shutdown]"] exI [of _ ?s1])
        (auto simp: winding_down_def intro!: exI [of _ "?d\<lparr>d_phase := Returned\<rparr>"])
  qed
qed

lemma fleet_shuts_down_upto:
  fixes s :: "'e fleet"
  assumes "root_token s" "k \<le> length (drivers s)"
  shows "\<exists>ls s'. fleet_run s ls s' \<and> (\<forall>l \<in> set ls. winding_down l) \<and> root_token s' \<and> length ls \<le> 2 * k \<and>
    length (drivers s') = length (drivers s) \<and> (\<forall>i < k. d_phase (drivers s' ! i) = Returned)"
  using assms
proof (induction k)
  case 0
  then show ?case by (intro exI [of _ "[]"] exI [of _ s]) (auto intro: fleet_run.Start)
next
  case (Suc k)
  then obtain ls s' where run: "fleet_run s ls s'" "\<forall>l \<in> set ls. winding_down l" "root_token s'" "length ls \<le> 2 * k"
    and len: "length (drivers s') = length (drivers s)" and ret: "\<forall>i < k. d_phase (drivers s' ! i) = Returned"
    by auto
  with Suc.prems driver_shuts_down [OF run(3), of k] obtain ls2 s2 d where
    run2: "fleet_run s' ls2 s2" "\<forall>l \<in> set ls2. winding_down l" "root_token s2" "length ls2 \<le> 2"
    and d: "drivers s2 = (drivers s')[k := d]" "d_phase d = Returned"
    by auto
  have "\<forall>i < Suc k. d_phase (drivers s2 ! i) = Returned"
    using d ret len Suc.prems by (auto simp: less_Suc_eq)
  with fleet_run_trans [OF run2(1) run(1)] run run2 len d show ?case
    by (intro exI [of _ "ls @ ls2"] exI [of _ s2]) auto
qed

lemma no_subscription_when_cancelled:
  "driver_on True d Subscribed = None" "driver_on True d Subscribe_failed = None"
  by simp_all

end
