(* ===== verification/Engine.thy ===== *)
theory Engine
  imports Driver "HOL-Library.Sublist"
begin

text \<open>
  The engine (\<open>src/src/engine.rs\<close>), its channel adapter (\<open>src/src/engine/channel.rs\<close>) and the traits
  of \<open>src/src/types.rs\<close> it drives: the builder, the order in which \<open>run\<close> subscribes, syncs and spawns,
  and the loops of the executor, observer and strategy tasks.

  A broadcast receiver is the list of what its \<open>recv\<close> calls return. A cancellation is the number of
  polls a task makes before its token fires (\<open>None\<close>: never).
\<close>

section \<open>The traits\<close>

type_synonym anyhow = string

record ('e, 'a, 's) strategy_ops =
  sync_state :: "'s \<Rightarrow> (anyhow + unit) \<times> 's"
  process_event :: "'s \<Rightarrow> 'e \<Rightarrow> (anyhow + 'a list) \<times> 's"

record ('a, 'x) executor_ops =
  execute :: "'x \<Rightarrow> 'a \<Rightarrow> (anyhow + unit) \<times> 'x"

record ('e, 'a, 'o) observer_ops =
  observe_event :: "'o \<Rightarrow> 'e \<Rightarrow> 'o"
  observe_action :: "'o \<Rightarrow> 'a \<Rightarrow> 'o"

definition default_observer :: "('e, 'a, 'o) observer_ops" where
  "default_observer = \<lparr>observe_event = (\<lambda>ob e. ob), observe_action = (\<lambda>ob a. ob)\<rparr>"

section \<open>The builder\<close>

record ('c, 's, 'x, 'ob) engine =
  collectors :: "'c list"
  strategies :: "'s list"
  executors :: "'x list"
  observers :: "'ob list"
  event_channel_capacity :: nat
  action_channel_capacity :: nat
  reconnect_config :: reconnect_config

definition engine_default :: "('c, 's, 'x, 'ob) engine" where
  "engine_default = \<lparr>collectors = [], strategies = [], executors = [], observers = [],
     event_channel_capacity = 512, action_channel_capacity = 512,
     reconnect_config = default_reconnect_config\<rparr>"

definition with_event_channel_capacity :: "nat \<Rightarrow> ('c, 's, 'x, 'ob) engine \<Rightarrow> ('c, 's, 'x, 'ob) engine" where
  "with_event_channel_capacity capacity en = en\<lparr>event_channel_capacity := capacity\<rparr>"

definition with_action_channel_capacity :: "nat \<Rightarrow> ('c, 's, 'x, 'ob) engine \<Rightarrow> ('c, 's, 'x, 'ob) engine" where
  "with_action_channel_capacity capacity en = en\<lparr>action_channel_capacity := capacity\<rparr>"

definition with_reconnect_config :: "reconnect_config \<Rightarrow> ('c, 's, 'x, 'ob) engine \<Rightarrow> ('c, 's, 'x, 'ob) engine" where
  "with_reconnect_config config en = en\<lparr>reconnect_config := config\<rparr>"

definition add_collector :: "'c \<Rightarrow> ('c, 's, 'x, 'ob) engine \<Rightarrow> ('c, 's, 'x, 'ob) engine" where
  "add_collector c en = en\<lparr>collectors := collectors en @ [c]\<rparr>"

definition add_strategy :: "'s \<Rightarrow> ('c, 's, 'x, 'ob) engine \<Rightarrow> ('c, 's, 'x, 'ob) engine" where
  "add_strategy s en = en\<lparr>strategies := strategies en @ [s]\<rparr>"

definition add_executor :: "'x \<Rightarrow> ('c, 's, 'x, 'ob) engine \<Rightarrow> ('c, 's, 'x, 'ob) engine" where
  "add_executor x en = en\<lparr>executors := executors en @ [x]\<rparr>"

definition add_observer :: "'ob \<Rightarrow> ('c, 's, 'x, 'ob) engine \<Rightarrow> ('c, 's, 'x, 'ob) engine" where
  "add_observer ob en = en\<lparr>observers := observers en @ [ob]\<rparr>"

section \<open>The start-up sequence\<close>

text \<open>What \<open>run\<close> does, in order. A receiver sees the messages sent after it was created.\<close>

datatype ('c, 's, 'x, 'ob) task =
    Executor_task 'x
  | Observer_task 'ob
  | Strategy_task nat 's
  | Collector_task 'c reconnect_config

datatype ('c, 's, 'x, 'ob) effect =
    Observer_receivers nat
  | Executor_receiver nat
  | Strategy_receiver nat
  | Synced nat
  | Spawn "('c, 's, 'x, 'ob) task"

definition spawn_executors :: "'x list \<Rightarrow> ('c, 's, 'x, 'ob) effect list" where
  "spawn_executors xs = concat (map (\<lambda>(i, x). [Executor_receiver i, Spawn (Executor_task x)]) (enumerate 0 xs))"

definition spawn_observers :: "'ob list \<Rightarrow> ('c, 's, 'x, 'ob) effect list" where
  "spawn_observers obs = concat (map (\<lambda>(i, ob). [Observer_receivers i, Spawn (Observer_task ob)]) (enumerate 0 obs))"

definition spawn_collectors :: "reconnect_config \<Rightarrow> 'c list \<Rightarrow> ('c, 's, 'x, 'ob) effect list" where
  "spawn_collectors config cs = map (\<lambda>c. Spawn (Collector_task c config)) cs"

text \<open>\<open>cancelled i\<close>: the select at strategy \<open>i\<close> saw the cancelled token first.\<close>

fun sync_and_spawn_strategies ::
  "('s \<Rightarrow> (anyhow + unit) \<times> 's) \<Rightarrow> (nat \<Rightarrow> bool) \<Rightarrow> (nat \<times> 's) list
     \<Rightarrow> ('c, 's, 'x, 'ob) effect list \<times> (anyhow + unit)" where
  "sync_and_spawn_strategies sync cancelled [] = ([], Ok ())"
| "sync_and_spawn_strategies sync cancelled ((i, s) # rest) =
     (if cancelled i then ([], Err ''engine cancelled during strategy sync'')
      else
        (case sync s of
           (Err e, _) \<Rightarrow> ([], Err e)
         | (Ok _, s') \<Rightarrow>
             (case sync_and_spawn_strategies sync cancelled rest of
                (effs, r) \<Rightarrow> (Synced i # Spawn (Strategy_task i s') # effs, r))))"

definition engine_run ::
  "('s \<Rightarrow> (anyhow + unit) \<times> 's) \<Rightarrow> (nat \<Rightarrow> bool) \<Rightarrow> ('c, 's, 'x, 'ob) engine
     \<Rightarrow> ('c, 's, 'x, 'ob) effect list \<times> (anyhow + unit)" where
  "engine_run sync cancelled en =
     (let started = spawn_executors (executors en) @ spawn_observers (observers en)
            @ map Strategy_receiver [0..<length (strategies en)]
      in (case sync_and_spawn_strategies sync cancelled (enumerate 0 (strategies en)) of
            (effs, Err e) \<Rightarrow> (started @ effs, Err e)
          | (effs, Ok _) \<Rightarrow> (started @ effs @ spawn_collectors (reconnect_config en) (collectors en), Ok ())))"

fun is_collector :: "('c, 's, 'x, 'ob) effect \<Rightarrow> bool" where
  "is_collector (Spawn (Collector_task c config)) = True"
| "is_collector _ = False"

lemma sync_ok:
  assumes "sync_and_spawn_strategies sync cancelled ss = (effs, r)"
  shows "\<not> list_ex is_collector effs \<and>
    (r = Ok () \<longrightarrow> effs = concat (map (\<lambda>(i, s). [Synced i, Spawn (Strategy_task i (snd (sync s)))]) ss) \<and>
       (\<forall>(i, s) \<in> set ss. \<not> cancelled i \<and> is_ok (fst (sync s))))"
  using assms
  by (induction sync cancelled ss arbitrary: effs r rule: sync_and_spawn_strategies.induct)
    (fastforce split: if_splits prod.splits sum.splits)+

lemma no_collector_started:
  "\<not> list_ex is_collector (spawn_executors xs)" "\<not> list_ex is_collector (spawn_observers obs)"
  "\<not> list_ex is_collector (map Strategy_receiver ns)"
  by (auto simp: spawn_executors_def spawn_observers_def list_ex_iff)

lemma collectors_all: "list_all is_collector (spawn_collectors config cs)"
  by (simp add: spawn_collectors_def list_all_iff)

lemma engine_run_shape:
  fixes en :: "('c, 's, 'x, 'ob) engine"
  assumes "engine_run sync cancelled en = (effs, r)"
  obtains pre where "\<not> list_ex is_collector pre"
    and "effs = pre @ (if r = Ok () then spawn_collectors (reconnect_config en) (collectors en) else [])"
    and "\<forall>i < length (strategies en). Strategy_receiver i \<in> set pre"
    and "\<forall>i < length (observers en). Observer_receivers i \<in> set pre"
    and "\<forall>i < length (executors en). Executor_receiver i \<in> set pre"
    and "r = Ok () \<Longrightarrow> \<forall>i < length (strategies en). Synced i \<in> set pre \<and> is_ok (fst (sync (strategies en ! i))) \<and>
           Spawn (Strategy_task i (snd (sync (strategies en ! i)))) \<in> set pre"
proof -
  let ?started = "spawn_executors (executors en) @ spawn_observers (observers en)
    @ map Strategy_receiver [0..<length (strategies en)] :: ('c, 's, 'x, 'ob) effect list"
  obtain se :: "('c, 's, 'x, 'ob) effect list" and sr where s: "sync_and_spawn_strategies sync cancelled (enumerate 0 (strategies en)) = (se, sr)"
    by fastforce
  with assms have e: "r = sr" "effs = (?started @ se) @ (if r = Ok () then spawn_collectors (reconnect_config en) (collectors en) else [])"
    by (auto simp: engine_run_def Let_def split: sum.splits)
  have ix: "(i, strategies en ! i) \<in> set (enumerate 0 (strategies en))" if "i < length (strategies en)" for i
    using that by (auto simp: in_set_enumerate_eq)
  show thesis
  proof (rule that [of "?started @ se"])
    show "\<not> list_ex is_collector (?started @ se)"
      unfolding list_ex_append using sync_ok [OF s] by (simp add: no_collector_started)
    show "effs = (?started @ se) @ (if r = Ok () then spawn_collectors (reconnect_config en) (collectors en) else [])"
      by (rule e(2))
    show "\<forall>i < length (strategies en). Strategy_receiver i \<in> set (?started @ se)" by auto
    show "\<forall>i < length (observers en). Observer_receivers i \<in> set (?started @ se)"
      by (auto simp: spawn_observers_def in_set_enumerate_eq)
    show "\<forall>i < length (executors en). Executor_receiver i \<in> set (?started @ se)"
      by (auto simp: spawn_executors_def in_set_enumerate_eq)
    show "\<forall>i < length (strategies en). Synced i \<in> set (?started @ se) \<and> is_ok (fst (sync (strategies en ! i))) \<and>
        Spawn (Strategy_task i (snd (sync (strategies en ! i)))) \<in> set (?started @ se)" if "r = Ok ()"
    proof (intro allI impI)
      fix i assume i: "i < length (strategies en)"
      let ?s = "strategies en ! i"
      from sync_ok [OF s] that e(1)
      have se: "se = concat (map (\<lambda>(i, s). [Synced i, Spawn (Strategy_task i (snd (sync s)))]) (enumerate 0 (strategies en)))"
        and ok: "\<forall>(i, s) \<in> set (enumerate 0 (strategies en)). \<not> cancelled i \<and> is_ok (fst (sync s))"
        by auto
      from ok ix [OF i] have "is_ok (fst (sync ?s))" by fast
      moreover have "{Synced i, Spawn (Strategy_task i (snd (sync ?s)))} \<subseteq> set se"
        unfolding se set_concat set_map using ix [OF i] by (intro subsetI UN_I [of "[Synced i, Spawn (Strategy_task i (snd (sync ?s)))]"]) (auto intro!: image_eqI [of _ _ "(i, ?s)"])
      ultimately show "Synced i \<in> set (?started @ se) \<and> is_ok (fst (sync ?s)) \<and>
          Spawn (Strategy_task i (snd (sync ?s))) \<in> set (?started @ se)"
        by simp
    qed
  qed
qed

section \<open>The channel adapter\<close>

datatype 'm recv = Got 'm | Lagged nat

definition polls :: "nat option \<Rightarrow> 'a list \<Rightarrow> 'a list" where
  "polls cancel xs = (case cancel of None \<Rightarrow> xs | Some k \<Rightarrow> take k xs)"

text \<open>\<open>filter_map\<close> drops the lag reports, \<open>take_until\<close> ends the stream at the cancellation.\<close>

definition into_stream :: "nat option \<Rightarrow> 'm recv list \<Rightarrow> 'm list" where
  "into_stream cancel rs = polls cancel (concat (map (\<lambda>r. case r of Got m \<Rightarrow> [m] | Lagged _ \<Rightarrow> []) rs))"

text \<open>
  What a receiver of a broadcast channel sees of the messages sent after its creation: the
  messages in order, a lag report standing for the messages it skipped.
\<close>

inductive receives :: "'m list \<Rightarrow> 'm recv list \<Rightarrow> bool" where
  Closed: "receives [] []"
| Message: "receives ms rs \<Longrightarrow> receives (m # ms) (Got m # rs)"
| Lag: "receives ms rs \<Longrightarrow> length skipped = n \<Longrightarrow> receives (skipped @ ms) (Lagged n # rs)"

definition lag :: "'m recv list \<Rightarrow> nat" where
  "lag rs = sum_list (map (\<lambda>r. case r of Got _ \<Rightarrow> 0 | Lagged n \<Rightarrow> n) rs)"

lemma into_stream_simps [simp]:
  "into_stream None [] = []" "into_stream None (Got m # rs) = m # into_stream None rs"
  "into_stream None (Lagged n # rs) = into_stream None rs"
  "into_stream (Some k) rs = take k (into_stream None rs)"
  by (simp_all add: into_stream_def polls_def)

lemma into_stream_receives:
  assumes "receives ms rs"
  shows "subseq (into_stream None rs) ms \<and> length (into_stream None rs) + lag rs = length ms
    \<and> (lag rs = 0 \<longrightarrow> into_stream None rs = ms)"
  using assms
proof (induction rule: receives.induct)
  case (Lag ms rs skipped n)
  then show ?case by (auto simp: lag_def intro: subseq_drop_many)
qed (auto simp: lag_def)

lemma into_stream_prefix: "prefix (into_stream c rs) (into_stream None rs)"
  by (cases c) (simp_all add: take_is_prefix)

section \<open>The tasks\<close>

fun executor_task :: "('a, 'x) executor_ops \<Rightarrow> 'x \<Rightarrow> 'a list \<Rightarrow> (anyhow + unit) list \<times> 'x" where
  "executor_task X x [] = ([], x)"
| "executor_task X x (a # actions) =
     (case execute X x a of (r, x') \<Rightarrow>
        (case executor_task X x' actions of (rs, x'') \<Rightarrow> (r # rs, x'')))"

text \<open>\<open>schedule\<close> is the choice of the select; a finished stream leaves the other branch.\<close>

fun observer_task ::
  "('e, 'a, 'o) observer_ops \<Rightarrow> (nat \<Rightarrow> bool) \<Rightarrow> 'o \<Rightarrow> 'e list \<Rightarrow> 'a list \<Rightarrow> 'o" where
  "observer_task V schedule ob [] [] = ob"
| "observer_task V schedule ob (e # es) [] =
     observer_task V (\<lambda>n. schedule (Suc n)) (observe_event V ob e) es []"
| "observer_task V schedule ob [] (a # as) =
     observer_task V (\<lambda>n. schedule (Suc n)) (observe_action V ob a) [] as"
| "observer_task V schedule ob (e # es) (a # as) =
     (if schedule 0 then observer_task V (\<lambda>n. schedule (Suc n)) (observe_event V ob e) es (a # as)
      else observer_task V (\<lambda>n. schedule (Suc n)) (observe_action V ob a) (e # es) as)"

text \<open>
  One poll spends one unit of what is left until the cancellation. The strategy's \<open>take_until\<close> is
  the test before each event here, since the inner action streams watch the same token: the events
  argument is the receiver's stream before any cancellation.
\<close>

definition spend :: "nat option \<Rightarrow> nat option" where
  "spend cancel = map_option (\<lambda>k. k - 1) cancel"

fun drain :: "nat option \<Rightarrow> 'a list \<Rightarrow> 'a list \<times> nat option" where
  "drain cancel [] = ([], spend cancel)"
| "drain cancel (a # as) =
     (if cancel = Some 0 then ([], Some 0)
      else (case drain (spend cancel) as of (out, c) \<Rightarrow> (a # out, c)))"

fun strategy_task ::
  "('e, 'a, 's) strategy_ops \<Rightarrow> nat option \<Rightarrow> 's \<Rightarrow> 'e list \<Rightarrow> 'a list \<times> 's" where
  "strategy_task S cancel s [] = ([], s)"
| "strategy_task S cancel s (e # events) =
     (if cancel = Some 0 then ([], s)
      else
        (case process_event S s e of
           (Err _, s') \<Rightarrow> strategy_task S (spend cancel) s' events
         | (Ok actions, s') \<Rightarrow>
             (case drain (spend cancel) actions of (out, c) \<Rightarrow>
                (case strategy_task S c s' events of (out', s'') \<Rightarrow> (out @ out', s'')))))"

text \<open>The reference: every event that is processed contributes its actions.\<close>

fun decisions :: "('e, 'a, 's) strategy_ops \<Rightarrow> 's \<Rightarrow> 'e list \<Rightarrow> 'a list" where
  "decisions S s [] = []"
| "decisions S s (e # es) =
     (case fst (process_event S s e) of Err _ \<Rightarrow> [] | Ok as \<Rightarrow> as) @ decisions S (snd (process_event S s e)) es"

lemma spend_simps [simp]: "spend None = None" "spend (Some k) = Some (k - 1)"
  by (simp_all add: spend_def)

lemma drain_None: "drain None as = (as, None)"
  by (induction as) simp_all

lemma drain_prefix: "prefix (fst (drain c as)) as \<and> (fst (drain c as) = as \<or> snd (drain c as) = Some 0)"
  by (induction c as rule: drain.induct) (auto split: prod.splits)

lemma strategy_task_stopped [simp]: "strategy_task S (Some 0) s es = ([], s)"
  by (cases es) simp_all

lemma strategy_task_uncancelled: "fst (strategy_task S None s es) = decisions S s es"
  by (induction es arbitrary: s) (simp_all add: drain_None split_beta split: sum.splits)

lemma strategy_task_prefix: "prefix (fst (strategy_task S c s es)) (decisions S s es)"
proof (induction es arbitrary: c s)
  case (Cons e es)
  show ?case
  proof (cases "c = Some 0")
    case False
    obtain r s' where p: "process_event S s e = (r, s')" by fastforce
    show ?thesis
    proof (cases r)
      case (Inr as)
      obtain out c' where d: "drain (spend c) as = (out, c')" by fastforce
      obtain out' s'' where t: "strategy_task S c' s' es = (out', s'')" by fastforce
      from drain_prefix [of "spend c" as] d have "prefix out as" "out = as \<or> c' = Some 0" by auto
      with Cons [of c' s'] t show ?thesis using False p Inr d by (auto simp: prefix_def)
    qed (use Cons False p in auto)
  qed simp
qed simp

lemma executor_task_all:
  "length (fst (executor_task X x as)) = length as"
  "snd (executor_task X x as) = fold (\<lambda>a x. snd (execute X x a)) as x"
  by (induction as arbitrary: x) (simp_all add: split_beta)

text \<open>An observer that records what it sees sees both streams, each in its order.\<close>

definition recording_observer :: "('e, 'a, 'e list \<times> 'a list) observer_ops" where
  "recording_observer = \<lparr>observe_event = (\<lambda>(es, as) e. (es @ [e], as)),
     observe_action = (\<lambda>(es, as) a. (es, as @ [a]))\<rparr>"

lemma observer_task_records:
  "V = recording_observer \<Longrightarrow> observer_task V schedule seen es as = (fst seen @ es, snd seen @ as)"
  by (induction V schedule seen es as rule: observer_task.induct)
    (simp_all add: recording_observer_def split_beta)

end
