(* ===== verification/Engine_Properties.thy ===== *)
theory Engine_Properties
  imports Engine
begin

text \<open>The properties of the engine: escalation, shutdown, start-up order and event flow.\<close>

section \<open>The reconnect policy\<close>

text \<open>
  Property C20: until its first fatal verdict the policy's answer to every failure or stream end is
  determined by the streak of consecutive failures: fatal exactly when the streak reaches
  \<open>max_failures\<close>, and otherwise a retry after the backoff of the streak, which is zero after a
  healthy end; the machine counter never wraps.
\<close>

theorem policy_verdict:
  assumes "policy_run (policy_new c) (ns @ [n]) = (ds @ [d], p)" and "Some Fatal \<notin> set ds"
  shows "d = (if n = Received then None
      else Some (if failing c n \<and> unat (max_failures c) \<le> streak c (ns @ [n]) then Fatal
           else Retry (delay (backoff_new (base_delay c)) (of_nat (streak c (ns @ [n]))))))"
  by (rule policy_follows_streak [OF assms])

lemmas policy_eval = policy_new_def on_creation_failed_def on_stream_ended_def on_events_received_def
  record_failure_def policy_backoff_def default_reconnect_config_def from_secs_def backoff_new_def
  delay_eq duration_max_def Let_def

lemma policy_verdict_witness:
  "\<exists>ds d p. policy_run (policy_new default_reconnect_config)
       ([Creation_failed, Received, Ended 1, Ended 2] @ [Ended 3]) = (ds @ [d], p) \<and> d = Some Fatal"
proof -
  let ?ns = "[Creation_failed, Received, Ended 1, Ended 2]"
  let ?ds = "[Some (Retry 2000000000), None, Some (Retry 2000000000), Some (Retry 4000000000)]"
  have "\<exists>d p. policy_run (policy_new default_reconnect_config) (?ns @ [Ended 3]) = (?ds @ [d], p)"
    by (simp add: policy_eval word_le_nat_alt)
  then obtain d p where run: "policy_run (policy_new default_reconnect_config) (?ns @ [Ended 3]) = (?ds @ [d], p)"
    by blast
  have "d = Some Fatal"
    by (subst policy_verdict [OF run]) (simp_all add: default_reconnect_config_def from_secs_def streak_def)
  with run show ?thesis by blast
qed

text \<open>
  The backoff curve doubles per attempt until it saturates, never decreases with the
  attempt number, and never exceeds the largest duration.
\<close>

lemma backoff_curve:
  assumes "m \<le> n"
  shows "delay b m \<le> delay b n \<and> delay b n \<le> duration_max \<and>
    (unat n < 32 \<and> base b * 2 ^ unat n \<le> duration_max \<longrightarrow> delay b n = base b * 2 ^ unat n)"
  using delay_mono [OF assms, of b] by (simp add: delay_eq)

section \<open>The fleet of drivers\<close>

text \<open>
  Property C18: in every reachable state of the fleet, whatever the interleaving, a driver that is
  still running has a failure counter equal to its streak of consecutive failures and below the
  threshold (so the u32 increment never wraps), and one that escalates has a streak that reached it.
\<close>

theorem driver_counts_streak:
  assumes "fleet_run (fleet_start c n) ls s" and "i < n"
  shows "length (drivers s) = n \<and> driver_ok c (notices i ls) (drivers s ! i)"
  using fleet_drivers_ok [OF assms(1)] assms(2) by simp

text \<open>Two failed subscriptions of driver 1 of 2, one delivered event of driver 0.\<close>

definition quick_config :: reconnect_config where
  "quick_config = \<lparr>max_failures = 2, base_delay = 1, healthy_uptime = 100\<rparr>"

definition demo_labels :: "string fleet_label list" where
  "demo_labels = [Driver 1 Subscribe_failed, Driver 0 Subscribed, Driver 0 (Item ''e''), Driver 1 Slept,
     Driver 1 Subscribe_failed, Driver 1 Cancel_fatal, Driver 1 Cancel_root]"

lemma max_failures_quick: "unat (max_failures quick_config) = 2"
  by (simp add: quick_config_def)

lemmas fleet_eval = fleet_start_def driver_new_def after_verdict_def quick_config_def policy_eval

definition demo_end :: "string fleet" where
  "demo_end = \<lparr>drivers =
     [\<lparr>d_phase = Pumping, d_policy = policy_new quick_config\<rparr>,
      \<lparr>d_phase = Returned, d_policy = (policy_new quick_config)\<lparr>failures := 2\<rparr>\<rparr>],
     fatal_token = True, root_token = True, sent = [''e'']\<rparr>"

lemma fleet_run_snoc:
  assumes "fleet_run s0 ls s" "i < length (drivers s)" "driver_on (root_token s) (drivers s ! i) inp = Some d"
  shows "fleet_run s0 (ls @ [Driver i inp]) (driver_effect inp (s\<lparr>drivers := (drivers s)[i := d]\<rparr>))"
  by (rule fleet_run.Then [OF assms(1) fleet_step.Drive [OF assms(2,3)]])

fun fleet_exec :: "'e fleet \<Rightarrow> 'e fleet_label list \<Rightarrow> 'e fleet option" where
  "fleet_exec s [] = Some s"
| "fleet_exec s (Caller_cancels # ls) = fleet_exec (s\<lparr>root_token := True\<rparr>) ls"
| "fleet_exec s (Driver i inp # ls) =
     (if i < length (drivers s) then
        (case driver_on (root_token s) (drivers s ! i) inp of
           None \<Rightarrow> None
         | Some d \<Rightarrow> fleet_exec (driver_effect inp (s\<lparr>drivers := (drivers s)[i := d]\<rparr>)) ls)
      else None)"

lemma fleet_exec_run: "fleet_exec s ls = Some s' \<Longrightarrow> fleet_run s ls s'"
proof (induction s ls rule: fleet_exec.induct)
  case (2 s ls)
  then have "fleet_run s ([Caller_cancels] @ ls) s'"
    by (intro fleet_run_trans [OF _ fleet_run_one [OF fleet_step.Caller]]) simp
  then show ?case by simp
next
  case (3 s i inp ls)
  then obtain d where d: "i < length (drivers s)" "driver_on (root_token s) (drivers s ! i) inp = Some d"
    and "fleet_run (driver_effect inp (s\<lparr>drivers := (drivers s)[i := d]\<rparr>)) ls s'"
    by (auto split: if_splits option.splits)
  from fleet_run_trans [OF this(3) fleet_run_one [OF fleet_step.Drive [OF d]]] show ?case by simp
qed (auto intro: fleet_run.Start)

lemma replicate_two: "replicate 2 x = [x, x]"
  by (simp add: numeral_2_eq_2)

lemma demo_run: "fleet_run (fleet_start quick_config 2) demo_labels demo_end"
  by (rule fleet_exec_run) (simp add: demo_labels_def demo_end_def fleet_eval word_le_nat_alt replicate_two)

lemma driver_counts_streak_witness:
  "\<exists>ls s. fleet_run (fleet_start quick_config 2) ls s \<and>
     driver_ok quick_config (notices 0 ls) (drivers s ! 0) \<and> (sent s :: string list) = [''e'']"
proof (intro exI conjI)
  show "fleet_run (fleet_start quick_config 2) demo_labels demo_end" by (rule demo_run)
  show "driver_ok quick_config (notices 0 demo_labels) (drivers demo_end ! 0)"
    using driver_counts_streak [OF demo_run, of 0] by simp
  show "sent demo_end = [''e'']" by (simp add: demo_end_def)
qed

text \<open>
  Property C17: the cause of a shutdown can be told apart. If the root token is cancelled and the
  caller did not do it, the fatal token is cancelled too (there is no moment in between), and some
  collector had at some point at least \<open>max_failures\<close> consecutive failures.
\<close>

theorem fatal_cause_visible:
  assumes "fleet_run (fleet_start c n) ls s" and "root_token s" and "Caller_cancels \<notin> set ls"
  shows "fatal_token s \<and> (\<exists>ls1 i ls2. ls = ls1 @ ls2 \<and> i < n \<and>
    streak c (notices i ls1) \<ge> max 1 (unat (max_failures c)))"
  using fleet_tokens_ok [OF assms(1)] assms fleet_fatal_cause [OF assms(1)] by (auto simp: tokens_ok_def)

lemma fatal_cause_visible_witness:
  "fatal_token demo_end \<and> (\<exists>ls1 i ls2. demo_labels = ls1 @ ls2 \<and> i < 2 \<and> streak quick_config (notices i ls1) \<ge> 2)"
proof -
  have "root_token demo_end" "Caller_cancels \<notin> set demo_labels"
    by (simp_all add: demo_end_def demo_labels_def)
  from fatal_cause_visible [OF demo_run this] show ?thesis
    by (simp add: max_failures_quick numeral_2_eq_2)
qed

text \<open>
  Property C19: once the root token is cancelled the fleet can wind down from every state without any
  further event of a collector, in at most two steps per driver, and no driver takes up a
  subscription any more.
\<close>

theorem cancelled_fleet_returns:
  fixes s :: "'e fleet"
  assumes "root_token s"
  shows "(\<exists>ls s'. fleet_run s ls s' \<and> (\<forall>l \<in> set ls. winding_down l) \<and> length ls \<le> 2 * length (drivers s) \<and>
      list_all (\<lambda>d. d_phase d = Returned) (drivers s')) \<and>
    (\<forall>i s'. \<not> fleet_step s (Driver i Subscribed) s')"
proof
  from fleet_shuts_down_upto [OF assms order_refl] obtain ls s' where
    "fleet_run s ls s'" "\<forall>l \<in> set ls. winding_down l" "length ls \<le> 2 * length (drivers s)"
    and len: "length (drivers s') = length (drivers s)"
    and ret: "\<forall>i < length (drivers s). d_phase (drivers s' ! i) = Returned"
    by (elim exE conjE)
  moreover from len ret have "list_all (\<lambda>d. d_phase d = Returned) (drivers s')" by (simp add: list_all_length)
  ultimately show "\<exists>ls s'. fleet_run s ls s' \<and> (\<forall>l \<in> set ls. winding_down l) \<and>
      length ls \<le> 2 * length (drivers s) \<and> list_all (\<lambda>d. d_phase d = Returned) (drivers s')"
    by (intro exI conjI)
  show "\<forall>i s'. \<not> fleet_step s (Driver i Subscribed) s'"
    using assms by (auto simp: fleet_step_driver)
qed

lemma cancelled_fleet_returns_witness:
  "\<exists>ls s'. fleet_run demo_end ls s' \<and> list_all (\<lambda>d. d_phase d = Returned) (drivers s')"
proof -
  have "root_token demo_end" by (simp add: demo_end_def)
  from cancelled_fleet_returns [OF this] show ?thesis by blast
qed

section \<open>Start-up\<close>

text \<open>
  Property C21: no collector task is spawned before every executor, observer and strategy has its
  receiver and every strategy has synced and runs in its synced state; and when a sync fails or is
  cancelled, no collector is ever spawned.
\<close>

theorem collectors_start_last:
  fixes en :: "('c, 's, 'x, 'ob) engine"
  assumes "engine_run sync cancelled en = (effs, r)" and "effs = pre @ eff # post" and "is_collector eff"
  shows "r = Ok () \<and>
    (\<forall>i < length (executors en). Executor_receiver i \<in> set pre) \<and>
    (\<forall>i < length (observers en). Observer_receivers i \<in> set pre) \<and>
    (\<forall>i < length (strategies en). Strategy_receiver i \<in> set pre \<and> Synced i \<in> set pre \<and>
       is_ok (fst (sync (strategies en ! i))) \<and>
       Spawn (Strategy_task i (snd (sync (strategies en ! i)))) \<in> set pre)"
proof -
  from assms(1) obtain early where early: "\<not> list_ex is_collector early"
    and effs: "effs = early @ (if r = Ok () then spawn_collectors (reconnect_config en) (collectors en) else [])"
    and rcv: "\<forall>i < length (strategies en). Strategy_receiver i \<in> set early"
      "\<forall>i < length (observers en). Observer_receivers i \<in> set early"
      "\<forall>i < length (executors en). Executor_receiver i \<in> set early"
    and sync: "r = Ok () \<longrightarrow> (\<forall>i < length (strategies en). Synced i \<in> set early \<and> is_ok (fst (sync (strategies en ! i))) \<and>
       Spawn (Strategy_task i (snd (sync (strategies en ! i)))) \<in> set early)"
    by (rule engine_run_shape) blast
  have "eff \<notin> set early" using early assms(3) by (auto simp: list_ex_iff)
  have "set early \<subseteq> set pre"
  proof -
    let ?cs = "if r = Ok () then spawn_collectors (reconnect_config en) (collectors en) else []"
    from assms(2) effs have "early @ ?cs = pre @ eff # post" by simp
    then obtain us where us: "early = pre @ us \<and> us @ ?cs = eff # post \<or> early @ us = pre \<and> ?cs = us @ eff # post"
      unfolding append_eq_append_conv2 by (elim exE)
    show ?thesis
    proof (cases us)
      case Nil
      with us show ?thesis by auto
    next
      case (Cons u vs)
      with us \<open>eff \<notin> set early\<close> have "early @ us = pre" by auto
      then show ?thesis by auto
    qed
  qed
  moreover have "r = Ok ()"
    using assms(2) effs \<open>eff \<notin> set early\<close> by (cases "r = Ok ()") auto
  ultimately show ?thesis using rcv sync by blast
qed

definition demo_engine :: "(string, nat, string, string) engine" where
  "demo_engine = add_collector ''blocks'' (add_strategy 1 (add_strategy 0 (add_executor ''mempool''
     (add_observer ''log'' engine_default))))"

lemma collectors_start_last_witness:
  "\<exists>pre c. fst (engine_run (\<lambda>s. (Ok (), s + 10)) (\<lambda>i. False) demo_engine) = pre @ [Spawn (Collector_task c default_reconnect_config)]
     \<and> Spawn (Strategy_task 1 11) \<in> set pre"
proof -
  let ?pre = "[Executor_receiver 0, Spawn (Executor_task ''mempool''), Observer_receivers 0, Spawn (Observer_task ''log''),
    Strategy_receiver 0, Strategy_receiver 1, Synced 0, Spawn (Strategy_task 0 10), Synced 1, Spawn (Strategy_task 1 11)]"
  let ?eff = "Spawn (Collector_task ''blocks'' default_reconnect_config)"
  have run: "engine_run (\<lambda>s. (Ok (), s + 10)) (\<lambda>i. False) demo_engine = (?pre @ ?eff # [], Ok ())"
    by (simp add: demo_engine_def add_collector_def add_strategy_def add_executor_def add_observer_def
        engine_default_def engine_run_def Let_def spawn_executors_def spawn_observers_def spawn_collectors_def upt_rec)
  have "Spawn (Strategy_task 1 (snd ((Ok () :: anyhow + unit, (strategies demo_engine ! 1) + 10)))) \<in> set ?pre"
    using collectors_start_last [OF run refl] by (simp add: demo_engine_def add_strategy_def add_collector_def
        add_executor_def add_observer_def engine_default_def)
  with run show ?thesis
    by (intro exI [of _ ?pre] exI [of _ "''blocks''"]) simp
qed

section \<open>Event flow\<close>

text \<open>
  Property C22: from the collectors to the executors. What a strategy's stream yields is a
  subsequence of the events its drivers delivered, missing exactly the lagged ones; the actions it
  sends are a prefix of its decisions on those events, all of them when it is never cancelled;
  failed events and failed actions are skipped, and without lag and cancellation an executor is
  handed exactly the strategy's decisions on the delivered events, in order.
\<close>

theorem events_reach_executor:
  assumes "fleet_run (fleet_start c n) ls st" and "receives (sent st) rs"
    and "fst (strategy_task S cancel s (into_stream None rs)) = actions" and "receives actions as"
  shows "subseq (into_stream None rs) (items ls) \<and> length (into_stream None rs) + lag rs = length (items ls) \<and>
    prefix actions (decisions S s (into_stream None rs)) \<and>
    length (fst (executor_task X x (into_stream None as))) + lag as = length actions \<and>
    (cancel = None \<and> lag rs = 0 \<and> lag as = 0 \<longrightarrow>
       executor_task X x (into_stream None as) = executor_task X x (decisions S s (items ls)))"
proof -
  note ev = into_stream_receives [OF assms(2)] and act = into_stream_receives [OF assms(4)]
  have st: "sent st = items ls" by (rule fleet_sent [OF assms(1)])
  have pre: "prefix actions (decisions S s (into_stream None rs))"
    using strategy_task_prefix [of S cancel s "into_stream None rs"] assms(3) by simp
  have len: "length (fst (executor_task X x (into_stream None as))) + lag as = length actions"
    using act by (simp add: executor_task_all)
  have "executor_task X x (into_stream None as) = executor_task X x (decisions S s (items ls))"
    if "cancel = None" "lag rs = 0" "lag as = 0"
    using ev act st assms(3) that by (simp add: strategy_task_uncancelled)
  with ev st pre len show ?thesis by simp
qed

text \<open>A strategy that fails on one event and doubles the others; an executor that keeps a log.\<close>

definition demo_strategy :: "(string, string, nat) strategy_ops" where
  "demo_strategy = \<lparr>sync_state = (\<lambda>s. (Ok (), s)),
     process_event = (\<lambda>s e. (if e = ''bad'' then Err ''no'' else Ok [e, e], s + 1))\<rparr>"

definition demo_executor :: "(string, string list) executor_ops" where
  "demo_executor = \<lparr>execute = (\<lambda>x a. (Ok (), x @ [a]))\<rparr>"

lemma events_reach_executor_witness:
  "snd (executor_task demo_executor [] (into_stream None [Got ''e'', Got ''e''])) = [''e'', ''e'']
     \<and> subseq (into_stream None [Got ''e'']) (items demo_labels)"
proof -
  have rc: "receives (sent demo_end) [Got ''e'']" "receives [''e'', ''e''] [Got ''e'', Got ''e'']"
    by (auto simp: demo_end_def intro: receives.intros)
  have act: "fst (strategy_task demo_strategy None 0 (into_stream None [Got ''e''])) = [''e'', ''e'']"
    by (simp add: demo_strategy_def)
  from events_reach_executor [OF demo_run rc(1) act rc(2), of demo_executor "[]"] show ?thesis
    by (simp add: demo_executor_def)
qed

end
