(* ===== verification/Executors_Ext.thy ===== *)
theory Executors_Ext
  imports Reconnect Decimal "HOL-Library.Sublist"
begin

text \<open>
  The executor combinators (\<open>src/src/executor_ext.rs\<close> and \<open>src/src/executor_ext/\<close>).

  A boxed executor is a function on the world: what it owns and what it shares through an \<open>Arc\<close>
  lies in the world and is reached through a \<open>cell\<close>, a getter and a setter. The clock is a pair of
  operations on the world, tokio's \<open>Instant::now\<close> and \<open>sleep_until\<close>; \<open>sleep d\<close> is
  \<open>sleep_until (now + d)\<close>.
\<close>

section \<open>Worlds\<close>

type_synonym instant = nat
type_synonym ('a, 'w) executor = "'a \<Rightarrow> 'w \<Rightarrow> (string + unit) \<times> 'w"

record ('v, 'w) cell =
  get :: "'w \<Rightarrow> 'v"
  put :: "'v \<Rightarrow> 'w \<Rightarrow> 'w"

record 'w clock =
  now :: "'w \<Rightarrow> instant"
  sleep_until :: "instant \<Rightarrow> 'w \<Rightarrow> 'w"

definition sleep :: "'w clock \<Rightarrow> duration \<Rightarrow> 'w \<Rightarrow> 'w" where
  "sleep T d w = sleep_until T (now T w + d) w"

locale store_cell =
  fixes c :: "('v, 'w) cell"
  assumes get_put: "get c (put c v w) = v"

locale monotone_clock =
  fixes T :: "'w clock"
  assumes woken: "t \<le> now T (sleep_until T t w)" and awake: "now T w \<le> now T (sleep_until T t w)"
begin

lemma slept: "now T w + d \<le> now T (sleep T d w)"
  unfolding sleep_def by (rule woken)

end

text \<open>An executor keeps an invariant of the world.\<close>

definition keeps :: "('w \<Rightarrow> bool) \<Rightarrow> ('a, 'w) executor \<Rightarrow> bool" where
  "keeps I ex \<longleftrightarrow> (\<forall>a w. I w \<longrightarrow> I (snd (ex a w)))"

lemma keepsD: "keeps I ex \<Longrightarrow> I w \<Longrightarrow> I (snd (ex a w))"
  by (simp add: keeps_def)

section \<open>Retry\<close>

record retry_policy =
  max_retries :: u32
  retry_base_delay :: duration

definition default_retry_policy :: retry_policy where
  "default_retry_policy = \<lparr>max_retries = 3, retry_base_delay = 100 * 10 ^ 6\<rparr>"

function retry_loop :: "'w clock \<Rightarrow> retry_policy \<Rightarrow> ('a, 'w) executor \<Rightarrow> 'a \<Rightarrow> u32 \<Rightarrow> 'w \<Rightarrow> (string + unit) \<times> 'w" where
  "retry_loop T policy ex a retries w =
     (case ex a w of
        (Ok u, w') \<Rightarrow> (Ok u, w')
      | (Err e, w') \<Rightarrow>
          if retries \<ge> max_retries policy then (Err e, w')
          else retry_loop T policy ex a (retries + 1)
                 (sleep T (delay (backoff_new (retry_base_delay policy)) retries) w'))"
  by pat_completeness auto

lemma unat_Suc_less: "\<not> m \<le> (k :: u32) \<Longrightarrow> unat (k + 1) = Suc (unat k)"
  using unat_lt2p [of m] by (simp add: word_le_nat_alt unat_word_ariths)

termination retry_loop
  by (relation "measure (\<lambda>(T, policy, ex, a, retries, w). unat (max_retries policy) - unat retries)")
    (auto simp: unat_Suc_less word_le_nat_alt)

declare retry_loop.simps [simp del]

definition retry :: "'w clock \<Rightarrow> retry_policy \<Rightarrow> ('a, 'w) executor \<Rightarrow> ('a, 'w) executor" where
  "retry T policy ex a w = retry_loop T policy ex a 0 w"

text \<open>The loop unfolded for a single allowed retry.\<close>

lemma retry_once:
  assumes "max_retries policy = 1"
  shows "retry T policy ex a w =
     (case ex a w of
        (Ok u, w') \<Rightarrow> (Ok u, w')
      | (Err e, w') \<Rightarrow> ex a (sleep T (delay (backoff_new (retry_base_delay policy)) 0) w'))"
  using assms unfolding retry_def
  by (subst retry_loop.simps) (simp add: retry_loop.simps [of T policy ex a 1] split: prod.split sum.split)

section \<open>Fallback, routing, the kill switch\<close>

definition fallback :: "('a, 'w) executor \<Rightarrow> ('a, 'w) executor \<Rightarrow> ('a, 'w) executor" where
  "fallback primary other a w =
     (case primary a w of
        (Ok u, w') \<Rightarrow> (Ok u, w')
      | (Err e, w') \<Rightarrow> other a w')"

definition filter_map_action :: "('b \<Rightarrow> 'a option) \<Rightarrow> ('a, 'w) executor \<Rightarrow> ('b, 'w) executor" where
  "filter_map_action f ex a w = (case f a of Some a' \<Rightarrow> ex a' w | None \<Rightarrow> (Ok (), w))"

definition gated :: "('w \<Rightarrow> bool) \<Rightarrow> ('a, 'w) executor \<Rightarrow> ('a, 'w) executor" where
  "gated enabled ex a w = (if enabled w then ex a w else (Ok (), w))"

definition dry_run :: "('a, 'w) executor \<Rightarrow> ('a, 'w) executor" where
  "dry_run ex = gated (\<lambda>w. False) ex"

definition deadline :: "'w clock \<Rightarrow> ('a \<Rightarrow> instant) \<Rightarrow> ('a, 'w) executor \<Rightarrow> ('a, 'w) executor" where
  "deadline T expires_at ex a w = (if now T w \<ge> expires_at a then (Ok (), w) else ex a w)"

section \<open>Reporting\<close>

record 'a execution_outcome =
  outcome_action :: 'a
  outcome_result :: "string + unit"

text \<open>The outcome channel: a send answers whether anyone listens, which is only logged.\<close>

definition report ::
  "('a execution_outcome \<Rightarrow> 'w \<Rightarrow> bool \<times> 'w) \<Rightarrow> ('a, 'w) executor \<Rightarrow> ('a, 'w) executor" where
  "report send ex a w =
     (case ex a w of (r, w') \<Rightarrow>
        (case send \<lparr>outcome_action = a, outcome_result = r\<rparr> w' of (_, w'') \<Rightarrow> (r, w'')))"

section \<open>The circuit breaker\<close>

record 'w breaker =
  breaker_max_failures :: u32
  breaker_failures :: "(u32, 'w) cell"

text \<open>A new breaker starts with a zeroed counter; the threshold is a \<open>NonZeroU32\<close>.\<close>

definition breaker_new :: "u32 \<Rightarrow> (u32, 'w) cell \<Rightarrow> 'w \<Rightarrow> 'w breaker \<times> 'w" where
  "breaker_new limit c w =
     (\<lparr>breaker_max_failures = limit, breaker_failures = c\<rparr>, put c 0 w)"

definition is_open :: "'w breaker \<Rightarrow> 'w \<Rightarrow> bool" where
  "is_open B w \<longleftrightarrow> get (breaker_failures B) w \<ge> breaker_max_failures B"

definition breaker_reset :: "'w breaker \<Rightarrow> 'w \<Rightarrow> 'w" where
  "breaker_reset B w = put (breaker_failures B) 0 w"

definition open_error :: "u32 \<Rightarrow> string" where
  "open_error limit = ''circuit breaker open after '' @ dec_string (unat limit) @
     '' consecutive failures; action rejected until reset''"

definition circuit_breaker :: "'w breaker \<Rightarrow> ('a, 'w) executor \<Rightarrow> ('a, 'w) executor" where
  "circuit_breaker B ex a w =
     (if is_open B w then (Err (open_error (breaker_max_failures B)), w)
      else
        (case ex a w of
           (Ok u, w') \<Rightarrow> (Ok (), put (breaker_failures B) 0 w')
         | (Err e, w') \<Rightarrow>
             (Err e, put (breaker_failures B) (get (breaker_failures B) w' + 1) w')))"

section \<open>The rate limit\<close>

definition WINDOW :: duration where
  "WINDOW = from_secs 1"

text \<open>The loop that pops the expired instants at the front.\<close>

fun drop_expired :: "instant \<Rightarrow> instant list \<Rightarrow> instant list" where
  "drop_expired n [] = []"
| "drop_expired n (t # ts) = (if t + WINDOW \<le> n then drop_expired n ts else t # ts)"

definition rate_limit ::
  "'w clock \<Rightarrow> u32 \<Rightarrow> (instant list, 'w) cell \<Rightarrow> ('a, 'w) executor \<Rightarrow> ('a, 'w) executor" where
  "rate_limit T per_second q ex a w =
     (let sent = get q w;
          w = (if length sent \<ge> unat per_second
               then sleep_until T (sent ! (length sent - unat per_second) + WINDOW) w else w);
          n = now T w;
          w = put q (drop_expired n (get q w) @ [n]) w
      in ex a w)"

section \<open>Retry as a sequence of attempts\<close>

text \<open>The \<open>k\<close>-th attempt: the result and the world after \<open>k\<close> failures and backoffs.\<close>

fun attempt :: "'w clock \<Rightarrow> retry_policy \<Rightarrow> ('a, 'w) executor \<Rightarrow> 'a \<Rightarrow> 'w \<Rightarrow> nat \<Rightarrow> (string + unit) \<times> 'w" where
  "attempt T policy ex a w 0 = ex a w"
| "attempt T policy ex a w (Suc k) =
     ex a (sleep T (delay (backoff_new (retry_base_delay policy)) (of_nat k)) (snd (attempt T policy ex a w k)))"

lemma retry_loop_attempts:
  assumes "w' = (case k of 0 \<Rightarrow> w | Suc j \<Rightarrow>
      sleep T (delay (backoff_new (retry_base_delay policy)) (of_nat j)) (snd (attempt T policy ex a w j)))"
    and "unat retries = k" and "k \<le> unat (max_retries policy)" and "\<forall>j < k. \<not> is_ok (fst (attempt T policy ex a w j))"
  shows "\<exists>m \<le> unat (max_retries policy). retry_loop T policy ex a retries w' = attempt T policy ex a w m \<and>
    (\<forall>j < m. \<not> is_ok (fst (attempt T policy ex a w j))) \<and>
    (is_ok (fst (attempt T policy ex a w m)) \<or> m = unat (max_retries policy))"
  using assms
proof (induction "unat (max_retries policy) - k" arbitrary: k retries w')
  case 0
  then have k: "k = unat (max_retries policy)" by simp
  have "ex a w' = attempt T policy ex a w k" using 0(2) by (cases k) simp_all
  moreover have "retry_loop T policy ex a retries w' = ex a w'"
    using 0 k by (subst retry_loop.simps) (auto simp: word_le_nat_alt split: prod.splits sum.splits)
  ultimately show ?case using k 0 by (intro exI [of _ k]) auto
next
  case (Suc d)
  have at: "ex a w' = attempt T policy ex a w k" using Suc.prems(1) by (cases k) simp_all
  have lt: "\<not> max_retries policy \<le> retries" using Suc.hyps(2) Suc.prems(2) by (simp add: word_le_nat_alt)
  show ?case
  proof (cases "fst (ex a w')")
    case (Inr u)
    then have "retry_loop T policy ex a retries w' = ex a w'"
      by (subst retry_loop.simps) (auto split: prod.splits)
    with at Inr Suc.prems show ?thesis by (intro exI [of _ k]) auto
  next
    case (Inl e)
    let ?v = "sleep T (delay (backoff_new (retry_base_delay policy)) retries) (snd (ex a w'))"
    have "retry_loop T policy ex a retries w' = retry_loop T policy ex a (retries + 1) ?v"
      using Inl lt by (subst retry_loop.simps) (auto split: prod.splits)
    moreover have "\<forall>j < Suc k. \<not> is_ok (fst (attempt T policy ex a w j))"
      using Suc.prems(4) at Inl by (auto simp: less_Suc_eq)
    moreover have "?v = sleep T (delay (backoff_new (retry_base_delay policy)) (of_nat k)) (snd (attempt T policy ex a w k))"
      using at Suc.prems(2) by auto
    moreover have "d = unat (max_retries policy) - Suc k" "Suc k \<le> unat (max_retries policy)"
      using Suc.hyps(2) by simp_all
    moreover have "unat (retries + 1) = Suc k" using unat_Suc_less [OF lt] Suc.prems(2) by simp
    ultimately show ?thesis using Suc.hyps(1) [of "Suc k" ?v "retries + 1"] by simp
  qed
qed

lemma retry_attempts:
  "\<exists>m \<le> unat (max_retries policy). retry T policy ex a w = attempt T policy ex a w m \<and>
    (\<forall>j < m. \<not> is_ok (fst (attempt T policy ex a w j))) \<and>
    (is_ok (fst (attempt T policy ex a w m)) \<or> m = unat (max_retries policy))"
  unfolding retry_def by (rule retry_loop_attempts [where k = 0]) simp_all

context monotone_clock begin

lemma attempt_time:
  assumes "\<And>a w. now T w \<le> now T (snd (ex a w))"
  shows "now T w + sum (\<lambda>j. delay (backoff_new (retry_base_delay policy)) (of_nat j)) {..<k}
    \<le> now T (snd (attempt T policy ex a w k))"
proof (induction k)
  case (Suc k)
  let ?d = "delay (backoff_new (retry_base_delay policy)) (of_nat k)"
  have "now T (snd (attempt T policy ex a w k)) + ?d \<le> now T (sleep T ?d (snd (attempt T policy ex a w k)))"
    by (rule slept)
  also have "\<dots> \<le> now T (snd (attempt T policy ex a w (Suc k)))" using assms by simp
  finally show ?case using Suc by simp
qed (simp add: assms)

end

section \<open>Invariants through the combinators\<close>

lemma keeps_attempt:
  assumes "keeps I ex" "\<And>t w. I w \<Longrightarrow> I (sleep_until T t w)" "I w"
  shows "I (snd (attempt T policy ex a w k))"
  by (induction k) (auto simp: sleep_def keepsD [OF assms(1)] assms(2,3))

lemma keeps_retry:
  assumes "keeps I ex" "\<And>t w. I w \<Longrightarrow> I (sleep_until T t w)"
  shows "keeps I (retry T policy ex)"
  unfolding keeps_def using retry_attempts [of policy T ex] keeps_attempt [OF assms] by metis

lemma keeps_fallback: "keeps I ex \<Longrightarrow> keeps I ex' \<Longrightarrow> keeps I (fallback ex ex')"
  unfolding keeps_def fallback_def by (simp add: split_beta split: sum.split)

lemma keeps_filter_map_action: "keeps I ex \<Longrightarrow> keeps I (filter_map_action f ex)"
  by (simp add: keeps_def filter_map_action_def split: option.split)

lemma keeps_gated: "keeps I ex \<Longrightarrow> keeps I (gated enabled ex)"
  by (simp add: keeps_def gated_def)

lemma keeps_deadline: "keeps I ex \<Longrightarrow> keeps I (deadline T expires_at ex)"
  by (simp add: keeps_def deadline_def)

lemma keeps_report:
  "keeps I ex \<Longrightarrow> (\<And>oc w. I w \<Longrightarrow> I (snd (send oc w))) \<Longrightarrow> keeps I (report send ex)"
  unfolding keeps_def report_def by (simp add: split_beta)

lemma keeps_circuit_breaker:
  "keeps I ex \<Longrightarrow> (\<And>v w. I w \<Longrightarrow> I (put (breaker_failures B) v w)) \<Longrightarrow> keeps I (circuit_breaker B ex)"
  unfolding keeps_def circuit_breaker_def by (simp add: split_beta split: sum.split)

section \<open>The cap\<close>

text \<open>
  \<open>gap n ts\<close>: any submission is at least one window after the one \<open>n\<close> before it, so no window of a
  second holds more than \<open>n\<close>. The queue holds the last submissions; what was dropped from it has
  left the window.
\<close>

definition capped :: "nat \<Rightarrow> instant list \<Rightarrow> bool" where
  "capped n ts \<longleftrightarrow> (\<forall>i. i + n < length ts \<longrightarrow> ts ! i + WINDOW \<le> ts ! (i + n))"

definition cap_inv :: "nat \<Rightarrow> instant \<Rightarrow> instant list \<Rightarrow> instant list \<Rightarrow> bool" where
  "cap_inv n present queue history \<longleftrightarrow>
     (\<exists>gone. history = gone @ queue \<and> (\<forall>t \<in> set gone. t + WINDOW \<le> present)) \<and>
     length queue \<le> n \<and> sorted history \<and> (\<forall>t \<in> set history. t \<le> present) \<and> capped n history"

lemma drop_expired_split:
  obtains gone where "ts = gone @ drop_expired n ts" "\<forall>t \<in> set gone. t + WINDOW \<le> n"
    "drop_expired n ts = [] \<or> n < hd (drop_expired n ts) + WINDOW"
proof (induction ts arbitrary: thesis)
  case Nil
  then show ?case by simp
next
  case (Cons t ts)
  show ?case
  proof (cases "t + WINDOW \<le> n")
    case True
    from Cons.IH obtain gone where "ts = gone @ drop_expired n ts" "\<forall>t \<in> set gone. t + WINDOW \<le> n"
      "drop_expired n ts = [] \<or> n < hd (drop_expired n ts) + WINDOW" .
    with True Cons.prems [of "t # gone"] show ?thesis by simp
  next
    case False
    with Cons.prems [of "[]"] show ?thesis by simp
  qed
qed

lemma cap_inv_later: "cap_inv n p queue history \<Longrightarrow> p \<le> p' \<Longrightarrow> cap_inv n p' queue history"
  unfolding cap_inv_def using le_trans by blast

lemma cap_inv_submit:
  assumes inv: "cap_inv n p queue history" and "0 < n" and "p \<le> p'"
    and waited: "length queue \<ge> n \<Longrightarrow> queue ! (length queue - n) + WINDOW \<le> p'"
  shows "cap_inv n p' (drop_expired p' queue @ [p']) (history @ [p'])"
proof -
  from inv obtain old where h: "history = old @ queue" "\<forall>t \<in> set old. t + WINDOW \<le> p'"
    and len: "length queue \<le> n" and s: "sorted history" and le: "\<forall>t \<in> set history. t \<le> p'" and cap: "capped n history"
    using cap_inv_later [OF inv \<open>p \<le> p'\<close>] unfolding cap_inv_def by blast
  obtain gone where g: "queue = gone @ drop_expired p' queue" "\<forall>t \<in> set gone. t + WINDOW \<le> p'"
    "drop_expired p' queue = [] \<or> p' < hd (drop_expired p' queue) + WINDOW"
    by (rule drop_expired_split)
  have short: "length (drop_expired p' queue) < n"
  proof (cases "length queue = n")
    case True
    with waited \<open>0 < n\<close> have "hd queue + WINDOW \<le> p'" by (cases queue) auto
    with g True \<open>0 < n\<close> have "gone \<noteq> []" by (cases gone) auto
    with g(1) True show ?thesis by (metis length_append length_greater_0_conv less_add_same_cancel2)
  next
    case False
    with len g(1) show ?thesis by (metis le_neq_implies_less length_append less_or_eq_imp_le trans_le_add2 order_le_less_trans le_add2)
  qed
  have "capped n (history @ [p'])"
    unfolding capped_def
  proof (intro allI impI)
    fix i assume i: "i + n < length (history @ [p'])"
    show "(history @ [p']) ! i + WINDOW \<le> (history @ [p']) ! (i + n)"
    proof (cases "i + n < length history")
      case True
      with cap show ?thesis by (simp add: capped_def nth_append)
    next
      case False
      with i have final: "i + n = length history" by simp
      with \<open>0 < n\<close> have "i < length history" by simp
      have "history ! i + WINDOW \<le> p'"
      proof (cases "i < length old")
        case True
        with h show ?thesis by (simp add: nth_append)
      next
        case False
        with final h(1) len have "length queue = n" "i = length old" by simp_all
        with waited \<open>0 < n\<close> h(1) show ?thesis by (simp add: nth_append)
      qed
      with final \<open>i < length history\<close> show ?thesis by (simp add: nth_append)
    qed
  qed
  moreover have "history @ [p'] = (old @ gone) @ (drop_expired p' queue @ [p'])"
    using h(1) g(1) by simp
  moreover have "\<forall>t \<in> set (old @ gone). t + WINDOW \<le> p'" using h(2) g(2) by auto
  ultimately show ?thesis
    unfolding cap_inv_def using short s le by (auto simp: sorted_append)
qed

text \<open>In terms of the submissions alone: any \<open>n + 1\<close> of them span at least a window.\<close>

definition spaced :: "nat \<Rightarrow> instant list \<Rightarrow> bool" where
  "spaced n ts \<longleftrightarrow> (\<forall>us. subseq us ts \<and> length us = Suc n \<longrightarrow> hd us + WINDOW \<le> last us)"

lemma spaced_subseq: "spaced n ts \<Longrightarrow> subseq us ts \<Longrightarrow> spaced n us"
  unfolding spaced_def by (meson subseq_order.order_trans)

lemma subseq_snoc:
  assumes "subseq xs ys"
  shows "subseq (xs @ [t]) (ys @ [t])" "subseq xs (ys @ [t])"
  using assms list_emb_append_mono [OF assms, of "[t]" "[t]"] list_emb_append_mono [OF assms, of "[]" "[t]"]
  by simp_all

lemma subseq_last_ge:
  assumes "subseq us (zs :: nat list)" "sorted zs" "us \<noteq> []"
  shows "zs ! (length us - 1) \<le> last us"
  using assms
proof (induction zs arbitrary: us rule: list.induct)
  case (Cons z zs)
  from Cons.prems(3) obtain u us' where us: "us = u # us'" by (cases us) auto
  show ?case
  proof (cases "us' = []")
    case True
    with us Cons.prems show ?thesis by (cases "u = z") (auto dest: list_emb_set)
  next
    case False
    with us Cons.prems(1) have "subseq us' zs" by (cases "u = z") (auto dest: subseq_Cons')
    with Cons.IH [of us'] Cons.prems False us show ?thesis by (auto simp: Suc_le_eq)
  qed
qed simp

lemma capped_spaced:
  assumes "sorted ts" "capped n ts"
  shows "spaced n ts"
  unfolding spaced_def
proof (intro allI impI)
  fix us assume "subseq us ts \<and> length us = Suc n"
  then obtain u us' where us: "us = u # us'" "length us' = n" "subseq (u # us') ts" by (cases us) auto
  from list_emb_ConsD [OF us(3)] obtain xs zs where ts: "ts = xs @ u # zs" "subseq us' zs" by auto
  from list_emb_length [OF ts(2)] us(2) have n: "n \<le> length zs" by simp
  with assms(2) ts(1) have "u + WINDOW \<le> (u # zs) ! n"
    unfolding capped_def by (auto simp: nth_append dest!: spec [of _ "length xs"])
  also have "(u # zs) ! n \<le> last us"
  proof (cases n)
    case (Suc m)
    with us(2) have "us' \<noteq> []" by auto
    with Suc have "zs ! m \<le> last us'" using subseq_last_ge [OF ts(2)] assms(1) ts(1) us(2) by (auto simp: sorted_append)
    with Suc us show ?thesis by auto
  qed (use us in simp)
  finally show "hd us + WINDOW \<le> last us" using us by simp
qed

text \<open>
  The interface the cap rests on: a clock, the queue's cell, a view of the submissions made, and an
  inner executor that submits at once or not at all and leaves the queue alone.
\<close>

locale limited = monotone_clock T for T :: "'w clock" +
  fixes q :: "(instant list, 'w) cell" and history :: "'w \<Rightarrow> instant list" and ex :: "('a, 'w) executor"
  assumes queue_cell: "get q (put q ts w) = ts" "history (put q ts w) = history w" "now T (put q ts w) = now T w"
    and sleep_frame: "get q (sleep_until T t w) = get q w" "history (sleep_until T t w) = history w"
    and submits: "history (snd (ex a w)) = history w @ [now T w] \<or> history (snd (ex a w)) = history w"
    and ex_frame: "get q (snd (ex a w)) = get q w" "now T w \<le> now T (snd (ex a w))"
begin

definition world_inv :: "nat \<Rightarrow> 'w \<Rightarrow> bool" where
  "world_inv n w \<longleftrightarrow> (\<exists>slots. cap_inv n (now T w) (get q w) slots \<and> subseq (history w) slots)"

lemma world_inv_spaced: "world_inv n w \<Longrightarrow> spaced n (history w)"
  unfolding world_inv_def cap_inv_def by (meson capped_spaced spaced_subseq)

lemma rate_limit_keeps:
  assumes "0 < per_second"
  shows "keeps (world_inv (unat per_second)) (rate_limit T per_second q ex)"
  unfolding keeps_def
proof (intro allI impI)
  fix a w assume "world_inv (unat per_second) w"
  then obtain slots where inv: "cap_inv (unat per_second) (now T w) (get q w) slots" and sub: "subseq (history w) slots"
    by (auto simp: world_inv_def)
  let ?n = "unat per_second" and ?sent = "get q w"
  let ?w1 = "if length ?sent \<ge> ?n then sleep_until T (?sent ! (length ?sent - ?n) + WINDOW) w else w"
  let ?w2 = "put q (drop_expired (now T ?w1) (get q ?w1) @ [now T ?w1]) ?w1"
  let ?w3 = "snd (ex a ?w2)"
  have n: "0 < ?n" using assms by (simp add: word_less_nat_alt)
  have frame: "get q ?w1 = ?sent" "history ?w1 = history w" "now T w \<le> now T ?w1"
    by (simp_all add: sleep_frame awake)
  have "cap_inv ?n (now T ?w1) (drop_expired (now T ?w1) ?sent @ [now T ?w1]) (slots @ [now T ?w1])"
    by (rule cap_inv_submit [OF inv n frame(3)]) (simp add: woken)
  then have "cap_inv ?n (now T ?w3) (get q ?w3) (slots @ [now T ?w1])"
    using frame ex_frame(2) [of ?w2 a] by (simp only: ex_frame(1) queue_cell) (elim cap_inv_later)
  moreover have "subseq (history ?w3) (slots @ [now T ?w1])"
  proof -
    have "history ?w2 = history w" "now T ?w2 = now T ?w1" using frame(2) by (simp_all only: queue_cell)
    with submits [of a ?w2] have "history ?w3 = history w @ [now T ?w1] \<or> history ?w3 = history w" by metis
    with subseq_snoc [OF sub] show ?thesis by (elim disjE) (simp_all only:)
  qed
  ultimately show "world_inv ?n (snd (rate_limit T per_second q ex a w))"
    unfolding rate_limit_def Let_def world_inv_def by blast
qed

lemma sleep_keeps: "world_inv n w \<Longrightarrow> world_inv n (sleep_until T t w)"
  unfolding world_inv_def sleep_frame using awake cap_inv_later by blast

end

section \<open>The breaker as a counter\<close>

text \<open>The specification: a count of the failures in a row, closed below the threshold.\<close>

fun breaker_spec :: "nat \<Rightarrow> nat \<Rightarrow> bool \<Rightarrow> nat" where
  "breaker_spec m k ok = (if m \<le> k then k else if ok then 0 else Suc k)"

locale guarded = store_cell "breaker_failures B" for B :: "'w breaker" +
  fixes ex :: "('a, 'w) executor"
  assumes frame: "get (breaker_failures B) (snd (ex a w)) = get (breaker_failures B) w"
begin

lemma breaker_simulates:
  shows "unat (get (breaker_failures B) (snd (circuit_breaker B ex a w))) =
     breaker_spec (unat (breaker_max_failures B)) (unat (get (breaker_failures B) w)) (is_ok (fst (ex a w)))"
    and "is_open B w \<Longrightarrow> circuit_breaker B ex a w = (Err (open_error (breaker_max_failures B)), w)"
    and "\<not> is_open B w \<Longrightarrow> fst (circuit_breaker B ex a w) = fst (ex a w)"
proof -
  have "unat (get (breaker_failures B) w + 1) = Suc (unat (get (breaker_failures B) w))" if "\<not> is_open B w"
    using unat_Suc_less that by (simp add: is_open_def)
  moreover have f: "get (breaker_failures B) w' = get (breaker_failures B) w" if "ex a w = (r, w')" for r w'
    using frame [of a w] that by simp
  ultimately show "unat (get (breaker_failures B) (snd (circuit_breaker B ex a w))) =
     breaker_spec (unat (breaker_max_failures B)) (unat (get (breaker_failures B) w)) (is_ok (fst (ex a w)))"
    by (auto simp: circuit_breaker_def is_open_def word_le_nat_alt get_put split: prod.splits sum.splits)
  show "is_open B w \<Longrightarrow> circuit_breaker B ex a w = (Err (open_error (breaker_max_failures B)), w)"
    by (simp add: circuit_breaker_def)
  show "\<not> is_open B w \<Longrightarrow> fst (circuit_breaker B ex a w) = fst (ex a w)"
    by (auto simp: circuit_breaker_def split: prod.splits sum.splits)
qed

lemma reset_closes: "0 < breaker_max_failures B \<Longrightarrow> \<not> is_open B (breaker_reset B w)"
  by (simp add: is_open_def breaker_reset_def get_put)

end

end
