(* ===== verification/Executors_Properties.thy ===== *)
theory Executors_Properties
  imports Executors_Ext Engine
begin

text \<open>
  The reliability stack built from the combinators, run by the engine's executor task, on a world
  with a clock, the cells of the layers and a submission log. The submission sink and the lateness
  of timers are arbitrary.
\<close>

section \<open>The world of a stack\<close>

record ('a, 'v) bot =
  bot_now :: instant
  bot_queue :: "instant list"
  bot_failures :: u32
  bot_enabled :: bool
  bot_submitted :: "('a \<times> instant) list"
  bot_outcomes :: "'a execution_outcome list"
  bot_chain :: 'v

definition bot_clock :: "(instant \<Rightarrow> duration) \<Rightarrow> ('a, 'v) bot clock" where
  "bot_clock late = \<lparr>now = bot_now, sleep_until = (\<lambda>t b. b\<lparr>bot_now := max t (bot_now b) + late t\<rparr>)\<rparr>"

definition queue_cell :: "(instant list, ('a, 'v) bot) cell" where
  "queue_cell = \<lparr>get = bot_queue, put = (\<lambda>ts b. b\<lparr>bot_queue := ts\<rparr>)\<rparr>"

definition failures_cell :: "(u32, ('a, 'v) bot) cell" where
  "failures_cell = \<lparr>get = bot_failures, put = (\<lambda>n b. b\<lparr>bot_failures := n\<rparr>)\<rparr>"

definition bot_send :: "'a execution_outcome \<Rightarrow> ('a, 'v) bot \<Rightarrow> bool \<times> ('a, 'v) bot" where
  "bot_send oc b = (True, b\<lparr>bot_outcomes := bot_outcomes b @ [oc]\<rparr>)"

text \<open>A submission takes some time, answers, and changes the chain.\<close>

definition submit :: "('a \<Rightarrow> 'v \<Rightarrow> duration \<times> (string + unit) \<times> 'v) \<Rightarrow> ('a, ('a, 'v) bot) executor" where
  "submit sink a b =
     (case sink a (bot_chain b) of (d, r, v) \<Rightarrow>
        (r, b\<lparr>bot_submitted := bot_submitted b @ [(a, bot_now b)], bot_now := bot_now b + d, bot_chain := v\<rparr>))"

definition bot_breaker :: "u32 \<Rightarrow> ('a, 'v) bot breaker" where
  "bot_breaker limit = \<lparr>breaker_max_failures = limit, breaker_failures = failures_cell\<rparr>"

definition bot_start :: "'v \<Rightarrow> ('a, 'v) bot" where
  "bot_start v = \<lparr>bot_now = 0, bot_queue = [], bot_failures = 0, bot_enabled = True, bot_submitted = [],
     bot_outcomes = [], bot_chain = v\<rparr>"

definition stack ::
  "(instant \<Rightarrow> duration) \<Rightarrow> u32 \<Rightarrow> retry_policy \<Rightarrow> u32 \<Rightarrow> ('a \<Rightarrow> instant)
     \<Rightarrow> ('a \<Rightarrow> 'v \<Rightarrow> duration \<times> (string + unit) \<times> 'v) \<Rightarrow> ('a, ('a, 'v) bot) executor" where
  "stack late limit policy per_second expires_at sink =
     report bot_send (gated bot_enabled (circuit_breaker (bot_breaker limit)
       (retry (bot_clock late) policy (rate_limit (bot_clock late) per_second queue_cell
         (deadline (bot_clock late) expires_at (submit sink))))))"

definition boxed :: "('a, 'w) executor \<Rightarrow> ('a, 'w) executor_ops" where
  "boxed ex = \<lparr>execute = (\<lambda>w a. ex a w)\<rparr>"

lemmas bot_simps = bot_clock_def queue_cell_def failures_cell_def bot_send_def submit_def bot_breaker_def

interpretation bot_clock: monotone_clock "bot_clock late" for late
  by unfold_locales (simp_all add: bot_clock_def)

interpretation bot_cell: store_cell failures_cell
  by unfold_locales (simp add: failures_cell_def)

interpretation bot_limit: limited "bot_clock late" queue_cell "\<lambda>b. map snd (bot_submitted b)"
    "deadline (bot_clock late) expires_at (submit sink)" for late expires_at sink
  by unfold_locales (auto simp: bot_simps deadline_def split: prod.splits)

interpretation bot_guard: guarded "bot_breaker limit" "retry (bot_clock late) policy (rate_limit (bot_clock late)
    per_second queue_cell (deadline (bot_clock late) expires_at (submit sink)))"
  for limit late policy per_second expires_at sink
proof unfold_locales
  show "get (breaker_failures (bot_breaker limit)) (put (breaker_failures (bot_breaker limit)) v w) = v" for v w
    by (simp add: bot_simps)
  let ?ex = "rate_limit (bot_clock late) per_second queue_cell (deadline (bot_clock late) expires_at (submit sink))"
  fix a :: 'a and w :: "('a, 'b) bot"
  have "keeps (\<lambda>b. bot_failures b = bot_failures w) ?ex"
    by (auto simp: keeps_def rate_limit_def Let_def deadline_def bot_simps split: prod.splits)
  then have "keeps (\<lambda>b. bot_failures b = bot_failures w) (retry (bot_clock late) policy ?ex)"
    by (rule keeps_retry) (simp add: bot_clock_def)
  then show "get (breaker_failures (bot_breaker limit)) (snd (retry (bot_clock late) policy ?ex a w)) =
      get (breaker_failures (bot_breaker limit)) w"
    by (simp add: keeps_def bot_breaker_def failures_cell_def)
qed

section \<open>Invariants over a run of the engine's executor task\<close>

lemma executor_task_keeps:
  assumes "keeps I ex" "I w"
  shows "I (snd (executor_task (boxed ex) w as))"
  using assms(2)
  by (induction as arbitrary: w) (auto simp: boxed_def keepsD [OF assms(1)] split_beta)

lemma stack_keeps:
  assumes "keeps I (rate_limit (bot_clock late) per_second queue_cell (deadline (bot_clock late) expires_at (submit sink)))"
    and "\<And>t b. I b \<Longrightarrow> I (sleep_until (bot_clock late) t b)"
    and "\<And>n b. I b \<Longrightarrow> I (b\<lparr>bot_failures := n\<rparr>)" and "\<And>os b. I b \<Longrightarrow> I (b\<lparr>bot_outcomes := os\<rparr>)"
  shows "keeps I (stack late limit policy per_second expires_at sink)"
  unfolding stack_def
  by (intro keeps_report keeps_gated keeps_circuit_breaker keeps_retry assms(1))
    (simp_all add: assms bot_breaker_def failures_cell_def bot_send_def)

section \<open>The properties\<close>

text \<open>
  Property C13: with the rate limit composed inside the retry, whatever the sink answers, however long
  submissions and sleeps take, and whatever the actions are: any \<open>per_second + 1\<close> submissions,
  retries included, span at least one second.
\<close>

theorem stack_rate_capped:
  assumes "0 < per_second"
    and "executor_task (boxed (stack late limit policy per_second expires_at sink)) (bot_start v) actions = (rs, b)"
  shows "spaced (unat per_second) (map snd (bot_submitted b))"
proof -
  let ?I = "bot_limit.world_inv late (unat per_second)"
  have "keeps ?I (stack late limit policy per_second expires_at sink)"
  proof (rule stack_keeps)
    show "keeps ?I (rate_limit (bot_clock late) per_second queue_cell (deadline (bot_clock late) expires_at (submit sink)))"
      by (rule bot_limit.rate_limit_keeps [OF assms(1)])
    show "?I b \<Longrightarrow> ?I (sleep_until (bot_clock late) t b)" for t b
      by (rule bot_limit.sleep_keeps)
  qed (unfold bot_limit.world_inv_def, simp_all add: bot_clock_def queue_cell_def)
  moreover have "?I (bot_start v)"
    unfolding bot_limit.world_inv_def by (intro exI [of _ "[]"]) (simp add: bot_start_def cap_inv_def capped_def bot_simps)
  ultimately have "?I (snd (executor_task (boxed (stack late limit policy per_second expires_at sink)) (bot_start v) actions))"
    by (rule executor_task_keeps)
  then have "spaced (unat per_second) (map snd (bot_submitted
      (snd (executor_task (boxed (stack late limit policy per_second expires_at sink)) (bot_start v) actions))))"
    by (rule bot_limit.world_inv_spaced)
  with assms(2) show ?thesis by simp
qed

text \<open>A sink that takes 300 ms and always fails; two actions, two submissions per second, one retry.\<close>

definition demo_sink :: "string \<Rightarrow> nat \<Rightarrow> duration \<times> (string + unit) \<times> nat" where
  "demo_sink a v = (300000000, Err ''nonce'', Suc v)"

definition demo_policy :: retry_policy where
  "demo_policy = \<lparr>max_retries = 1, retry_base_delay = 1000\<rparr>"

definition demo_stack :: "(string, (string, nat) bot) executor" where
  "demo_stack = stack (\<lambda>t. 0) 2 demo_policy 2 (\<lambda>a. 10 ^ 11) demo_sink"

lemma bot_rate_limit:
  "rate_limit (bot_clock late) n queue_cell ex a b =
     (if length (bot_queue b) \<ge> unat n then
        (let t = bot_queue b ! (length (bot_queue b) - unat n) + WINDOW; t = max t (bot_now b) + late t
         in ex a (b\<lparr>bot_now := t, bot_queue := drop_expired t (bot_queue b) @ [t]\<rparr>))
      else ex a (b\<lparr>bot_queue := drop_expired (bot_now b) (bot_queue b) @ [bot_now b]\<rparr>))"
  by (simp add: rate_limit_def Let_def bot_clock_def queue_cell_def)

lemma bot_deadline:
  "deadline (bot_clock late) expires_at (submit sink) a b =
     (if bot_now b \<ge> expires_at a then (Ok (), b) else submit sink a b)"
  by (simp add: deadline_def bot_clock_def)

lemma bot_sleep: "sleep (bot_clock late) d b = b\<lparr>bot_now := max (bot_now b + d) (bot_now b) + late (bot_now b + d)\<rparr>"
  by (simp add: sleep_def bot_clock_def)

lemma demo_submit: "submit demo_sink a b = (Err ''nonce'',
    b\<lparr>bot_submitted := bot_submitted b @ [(a, bot_now b)], bot_now := bot_now b + 300000000, bot_chain := Suc (bot_chain b)\<rparr>)"
  by (simp add: submit_def demo_sink_def)

lemma demo_retry: "retry T demo_policy ex a w =
     (case ex a w of
        (Ok u, w') \<Rightarrow> (Ok u, w')
      | (Err e, w') \<Rightarrow> ex a (sleep T 1000 w'))"
proof -
  have "max_retries demo_policy = 1" "delay (backoff_new (retry_base_delay demo_policy)) 0 = 1000"
    by (simp_all add: demo_policy_def delay_eq backoff_new_def duration_max_def)
  then show ?thesis by (simp only: retry_once)
qed

lemmas stack_eval = bot_rate_limit bot_deadline bot_sleep demo_submit demo_retry WINDOW_def from_secs_def

lemma demo_first: "retry (bot_clock (\<lambda>t. 0)) demo_policy (rate_limit (bot_clock (\<lambda>t. 0)) 2 queue_cell
    (deadline (bot_clock (\<lambda>t. 0)) (\<lambda>a. 10 ^ 11) (submit demo_sink))) a (bot_start 0) =
  (Err ''nonce'', (bot_start 0)\<lparr>bot_now := 600001000, bot_queue := [0, 300001000],
     bot_submitted := [(a, 0), (a, 300001000)], bot_chain := 2\<rparr>)"
  by (simp add: stack_eval bot_start_def)

lemma demo_second: "retry (bot_clock (\<lambda>t. 0)) demo_policy (rate_limit (bot_clock (\<lambda>t. 0)) 2 queue_cell
    (deadline (bot_clock (\<lambda>t. 0)) (\<lambda>a. 10 ^ 11) (submit demo_sink))) b ((bot_start 0)\<lparr>bot_now := 600001000, bot_failures := n,
       bot_queue := [0, 300001000], bot_submitted := [(a, 0), (a, 300001000)], bot_chain := 2, bot_outcomes := os\<rparr>) =
  (Err ''nonce'', (bot_start 0)\<lparr>bot_now := 1600001000, bot_failures := n, bot_queue := [1000000000, 1300001000],
     bot_submitted := [(a, 0), (a, 300001000), (b, 1000000000), (b, 1300001000)], bot_chain := 4, bot_outcomes := os\<rparr>)"
  by (simp add: stack_eval bot_start_def)

lemma demo_stack_run:
  "map snd (bot_submitted (snd (executor_task (boxed demo_stack) (bot_start 0) [''a'', ''b'', ''c'']))) =
     [0, 300001000, 1000000000, 1300001000]"
  using demo_first [of "''a''"]
    demo_second [where b = "''b''" and n = 1 and a = "''a''" and os = "[\<lparr>outcome_action = ''a'', outcome_result = Err ''nonce''\<rparr>]"]
  by (simp add: demo_stack_def stack_def report_def gated_def circuit_breaker_def is_open_def boxed_def bot_simps
      bot_start_def word_le_nat_alt)

lemma stack_rate_capped_witness: "spaced 2 [0, 300001000, 1000000000, 1300001000]"
proof -
  obtain rs b where run: "executor_task (boxed demo_stack) (bot_start 0) [''a'', ''b'', ''c''] = (rs, b)"
    by fastforce
  from stack_rate_capped [OF _ run [unfolded demo_stack_def]] have "spaced 2 (map snd (bot_submitted b))"
    by simp
  with demo_stack_run run show ?thesis by simp
qed

text \<open>
  Property C16: a retried execution is the first successful attempt, or the attempt after the last
  allowed retry with its error: at most \<open>1 + max_retries\<close> submissions, and on a monotone clock the
  time passed is at least the sum of the doubling backoffs of the failed attempts.
\<close>

theorem retry_stops:
  assumes "\<And>a b. bot_now b \<le> bot_now (snd (ex a b))"
  shows "\<exists>m \<le> unat (max_retries policy). retry (bot_clock late) policy ex a b = attempt (bot_clock late) policy ex a b m \<and>
    (\<forall>j < m. \<not> is_ok (fst (attempt (bot_clock late) policy ex a b j))) \<and>
    (is_ok (fst (attempt (bot_clock late) policy ex a b m)) \<or> m = unat (max_retries policy)) \<and>
    bot_now b + (\<Sum>j < m. delay (backoff_new (retry_base_delay policy)) (of_nat j))
      \<le> bot_now (snd (retry (bot_clock late) policy ex a b))"
proof -
  obtain m where m: "m \<le> unat (max_retries policy)"
    "retry (bot_clock late) policy ex a b = attempt (bot_clock late) policy ex a b m"
    "\<forall>j < m. \<not> is_ok (fst (attempt (bot_clock late) policy ex a b j))"
    "is_ok (fst (attempt (bot_clock late) policy ex a b m)) \<or> m = unat (max_retries policy)"
    using retry_attempts [of policy "bot_clock late" ex a b] by (elim exE conjE)
  moreover have "bot_now b + (\<Sum>j < m. delay (backoff_new (retry_base_delay policy)) (of_nat j))
      \<le> bot_now (snd (attempt (bot_clock late) policy ex a b m))"
    using bot_clock.attempt_time [of late ex b policy m a] assms by (simp add: bot_clock_def)
  ultimately show ?thesis by (intro exI [of _ m]) simp
qed

lemma demo_attempts_fail: "fst (attempt T demo_policy (submit demo_sink) a b m) = Err ''nonce''"
  by (cases m) (simp_all add: submit_def demo_sink_def)

lemma retry_stops_witness:
  "let r = retry (bot_clock (\<lambda>t. 0)) demo_policy (submit demo_sink) ''a'' (bot_start 0) in
     fst r = Err ''nonce'' \<and> 1000 \<le> bot_now (snd r)"
proof -
  obtain m where m: "retry (bot_clock (\<lambda>t. 0)) demo_policy (submit demo_sink) ''a'' (bot_start 0)
      = attempt (bot_clock (\<lambda>t. 0)) demo_policy (submit demo_sink) ''a'' (bot_start 0) m"
    "is_ok (fst (attempt (bot_clock (\<lambda>t. 0)) demo_policy (submit demo_sink) ''a'' (bot_start 0) m)) \<or>
       m = unat (max_retries demo_policy)"
    "(\<Sum>j < m. delay (backoff_new (retry_base_delay demo_policy)) (of_nat j))
      \<le> bot_now (snd (retry (bot_clock (\<lambda>t. 0)) demo_policy (submit demo_sink) ''a'' (bot_start 0)))"
    using retry_stops [of "submit demo_sink" demo_policy "\<lambda>t. 0" "''a''" "bot_start 0"]
    by (auto simp: submit_def demo_sink_def bot_start_def)
  have "unat (max_retries demo_policy) = 1" by (simp add: demo_policy_def)
  with m(2) have "m = 1" by (simp add: demo_attempts_fail)
  with m(3) have "1000 \<le> bot_now (snd (retry (bot_clock (\<lambda>t. 0)) demo_policy (submit demo_sink) ''a'' (bot_start 0)))"
    by (simp add: demo_policy_def delay_eq backoff_new_def duration_max_def)
  with m(1) show ?thesis by (simp add: demo_attempts_fail Let_def)
qed

section \<open>Failing closed\<close>

context guarded begin

lemma open_rejects:
  assumes "is_open B w"
  shows "executor_task (boxed (circuit_breaker B ex)) w as
    = (map (\<lambda>_. Err (open_error (breaker_max_failures B))) as, w)"
  by (induction as) (simp_all add: boxed_def breaker_simulates(2) [OF assms])

lemma failures_open:
  assumes "executor_task (boxed (circuit_breaker B ex)) w as = (rs, w')" and "\<forall>r \<in> set rs. \<not> is_ok r"
    and "unat (breaker_max_failures B) \<le> unat (get (breaker_failures B) w) + length as"
  shows "is_open B w'"
  using assms
proof (induction as arbitrary: w rs)
  case (Cons a as)
  show ?case
  proof (cases "is_open B w")
    case True
    with Cons.prems(1) open_rejects [OF True, of "a # as"] show ?thesis by simp
  next
    case False
    let ?w = "snd (circuit_breaker B ex a w)"
    from Cons.prems(1,2) obtain qs where run: "executor_task (boxed (circuit_breaker B ex)) ?w as = (qs, w')"
      "\<forall>r \<in> set qs. \<not> is_ok r" "\<not> is_ok (fst (circuit_breaker B ex a w))"
      by (auto simp: boxed_def split: prod.splits)
    have "unat (get (breaker_failures B) ?w) = Suc (unat (get (breaker_failures B) w))"
      using breaker_simulates(1) [of a w] breaker_simulates(3) [OF False, of a] run(3) False
      by (simp add: is_open_def word_le_nat_alt)
    with Cons.IH [OF run(1,2)] Cons.prems(3) show ?thesis by simp
  qed
qed (simp add: is_open_def word_le_nat_alt)

end

text \<open>
  Property C14: the breaker fails closed. When its failure count plus the failed actions reach the
  threshold the circuit is open; every later action is rejected with the breaker's error and the
  world (so the sink) is left untouched, until a reset closes the circuit.
\<close>

theorem breaker_fails_closed:
  assumes "executor_task (boxed (circuit_breaker (bot_breaker limit) (retry (bot_clock late) policy
      (rate_limit (bot_clock late) per_second queue_cell (deadline (bot_clock late) expires_at (submit sink)))))) b actions
        = (rs, b')"
    and "\<forall>r \<in> set rs. \<not> is_ok r" and "unat limit \<le> unat (bot_failures b) + length actions"
  shows "is_open (bot_breaker limit) b' \<and>
    executor_task (boxed (circuit_breaker (bot_breaker limit) (retry (bot_clock late) policy
      (rate_limit (bot_clock late) per_second queue_cell (deadline (bot_clock late) expires_at (submit sink)))))) b' later
        = (map (\<lambda>_. Err (open_error limit)) later, b') \<and>
    (0 < limit \<longrightarrow> \<not> is_open (bot_breaker limit) (breaker_reset (bot_breaker limit) b'))"
proof -
  have "is_open (bot_breaker limit) b'"
    by (rule bot_guard.failures_open [OF assms(1,2)]) (use assms(3) in \<open>simp add: bot_simps\<close>)
  with bot_guard.open_rejects [OF this] bot_guard.reset_closes [of limit b'] show ?thesis
    by (simp add: bot_breaker_def)
qed

lemma breaker_fails_closed_witness:
  "\<exists>b. bot_failures b = (2 :: u32) \<and>
     executor_task (boxed (circuit_breaker (bot_breaker 2) (retry (bot_clock (\<lambda>t. 0)) demo_policy
      (rate_limit (bot_clock (\<lambda>t. 0)) 2 queue_cell (deadline (bot_clock (\<lambda>t. 0)) (\<lambda>a. 10 ^ 11) (submit demo_sink)))))) b [''c'']
        = ([Err (open_error 2)], b)"
proof -
  let ?ex = "circuit_breaker (bot_breaker 2) (retry (bot_clock (\<lambda>t. 0)) demo_policy
      (rate_limit (bot_clock (\<lambda>t. 0)) 2 queue_cell (deadline (bot_clock (\<lambda>t. 0)) (\<lambda>a. 10 ^ 11) (submit demo_sink))))"
  obtain rs b where run: "executor_task (boxed ?ex) (bot_start 0) [''a'', ''b''] = (rs, b)" by fastforce
  then have "\<forall>r \<in> set rs. \<not> is_ok r" "bot_failures b = 2"
    using demo_first [of "''a''"] demo_second [where b = "''b''" and n = 1 and a = "''a''" and os = "[]"]
    by (auto simp: circuit_breaker_def is_open_def boxed_def bot_breaker_def failures_cell_def bot_start_def word_le_nat_alt)
  with breaker_fails_closed [OF run, of "[''c'']"] show ?thesis by (auto simp: bot_start_def)
qed

text \<open>
  Property C15: with the deadline innermost nothing stale is submitted: after any run of the stack every
  submission, first attempts and retries after backoffs and rate-limit waits alike, was made
  strictly before its action expired.
\<close>

theorem no_stale_submission:
  assumes "executor_task (boxed (stack late limit policy per_second expires_at sink)) (bot_start v) actions = (rs, b)"
  shows "\<forall>(a, t) \<in> set (bot_submitted b). t < expires_at a"
proof -
  let ?I = "\<lambda>b :: ('a, 'b) bot. \<forall>(a, t) \<in> set (bot_submitted b). t < expires_at a"
  have "keeps ?I (stack late limit policy per_second expires_at sink)"
    by (rule stack_keeps)
      (auto simp: keeps_def rate_limit_def Let_def deadline_def bot_simps split: prod.splits)
  then have "?I (snd (executor_task (boxed (stack late limit policy per_second expires_at sink)) (bot_start v) actions))"
    by (rule executor_task_keeps) (simp add: bot_start_def)
  with assms show ?thesis by simp
qed

lemma no_stale_submission_witness:
  "list_all (\<lambda>(a, t). t < 10 ^ 11)
     (bot_submitted (snd (executor_task (boxed demo_stack) (bot_start 0) [''a'', ''b'', ''c''])))"
proof -
  obtain rs b where run: "executor_task (boxed demo_stack) (bot_start 0) [''a'', ''b'', ''c''] = (rs, b)" by fastforce
  from no_stale_submission [OF run [unfolded demo_stack_def]] run show ?thesis by (simp add: list_all_iff)
qed

end
