(* ===== verification/Pricing.thy ===== *)
theory Pricing
  imports Prelude Decimal
begin

text \<open>
  EIP-1559 pricing and fee escalation (\<open>src/src/executors/pricing.rs\<close>), on 128-bit words.
\<close>

record fees =
  max_fee_per_gas :: u128
  max_priority_fee_per_gas :: u128

definition clamped :: "u128 \<Rightarrow> u128 \<Rightarrow> fees" where
  "clamped max_fee priority = \<lparr>max_fee_per_gas = max_fee, max_priority_fee_per_gas = min priority max_fee\<rparr>"

record fee_estimate =
  est_max_fee :: u128
  est_max_priority_fee :: u128

record gas_bid_info =
  total_profit :: u128
  bid_percentage :: u64

definition scale_percent :: "u128 \<Rightarrow> u64 \<Rightarrow> u128" where
  "scale_percent v percent =
     (case checked_mul v (ucast percent) of Some p \<Rightarrow> p div 100 | None \<Rightarrow> max_val)"

definition over_bid :: "u64 \<Rightarrow> string" where
  "over_bid percent = ''bid_percentage '' @ dec_string (unat percent) @
     '' exceeds 100: the gas bid would cost more than the opportunity's total profit''"

definition price_1559 :: "fee_estimate \<Rightarrow> u64 \<Rightarrow> u64 \<Rightarrow> gas_bid_info option \<Rightarrow> string + fees" where
  "price_1559 est gas_usage bump_percent bid =
     (let base_headroom = sat_sub (est_max_fee est) (est_max_priority_fee est);
          bumped_priority = scale_percent (est_max_priority_fee est) bump_percent
      in case bid of
           Some b \<Rightarrow>
             if bid_percentage b > 100 then Err (over_bid (bid_percentage b))
             else if gas_usage = 0 then Err ''Gas estimation returned 0, cannot calculate bid price''
             else
               let breakeven = total_profit b div ucast gas_usage;
                   max_fee = scale_percent breakeven (bid_percentage b)
               in Ok (clamped max_fee bumped_priority)
         | None \<Rightarrow> Ok (clamped (sat_add base_headroom bumped_priority) bumped_priority))"

definition escalate :: "fees \<Rightarrow> u64 \<Rightarrow> fees" where
  "escalate f percent =
     clamped (scale_percent (max_fee_per_gas f) percent) (scale_percent (max_priority_fee_per_gas f) percent)"

section \<open>Readings\<close>

definition fees_ok :: "fees \<Rightarrow> bool" where
  "fees_ok f \<longleftrightarrow> max_priority_fee_per_gas f \<le> max_fee_per_gas f"

lemma clamped_ok [simp]: "fees_ok (clamped m p)"
  by (simp add: fees_ok_def clamped_def)

lemma unat_ucast_percent [simp]: "unat (ucast (percent :: u64) :: u128) = unat percent"
proof -
  have "unat percent < 2 ^ 128" using unat_lt2p [of percent] by simp
  then show ?thesis by (simp add: unsigned_ucast_eq take_bit_nat_eq_self)
qed

lemma unat_scale_percent [rust_arith]:
  "unat (scale_percent v percent) =
     (if unat v * unat percent < 2 ^ 128 then unat v * unat percent div 100 else 2 ^ 128 - 1)"
proof (cases "checked_mul v (ucast percent)")
  case None
  then have "2 ^ 128 \<le> unat v * unat percent" by (simp add: checked_mul_None_iff)
  with None show ?thesis by (simp add: scale_percent_def unat_max_val)
next
  case (Some p)
  then have "unat p = unat v * unat percent" by (simp add: checked_mul_Some_iff)
  with Some unat_lt2p [of p] show ?thesis by (simp add: scale_percent_def unat_div)
qed

lemma scale_percent_mono:
  assumes "v \<le> v'"
  shows "scale_percent v percent \<le> scale_percent v' percent"
proof -
  let ?a = "unat v * unat percent" and ?b = "unat v' * unat percent"
  have ab: "?a \<le> ?b" using assms by (simp add: word_le_nat_alt)
  have "unat (scale_percent v percent) \<le> unat (scale_percent v' percent)"
  proof (cases "?b < 2 ^ 128")
    case True
    with ab have "?a < 2 ^ 128" by linarith
    with True ab show ?thesis unfolding unat_scale_percent by (simp add: div_le_mono)
  next
    case False
    then have "unat (scale_percent v' percent) = 2 ^ 128 - 1" by (simp only: unat_scale_percent if_False)
    with unat_le_max [of "scale_percent v percent"] show ?thesis by simp
  qed
  then show ?thesis by (simp add: word_le_nat_alt)
qed

text \<open>The clamp in \<open>escalate\<close> is a no-op on valid pairs.\<close>

lemma escalate_fields:
  assumes "fees_ok f"
  shows "max_fee_per_gas (escalate f percent) = scale_percent (max_fee_per_gas f) percent"
    and "max_priority_fee_per_gas (escalate f percent) = scale_percent (max_priority_fee_per_gas f) percent"
  using scale_percent_mono [of "max_priority_fee_per_gas f" "max_fee_per_gas f" percent] assms
  by (simp_all add: escalate_def clamped_def fees_ok_def)

lemma scale_percent_bump:
  assumes "110 \<le> percent"
  shows "v \<le> scale_percent v percent"
    and "110 * unat v \<le> 100 * unat (scale_percent v percent) + 99 \<or> scale_percent v percent = max_val"
    and "10 \<le> v \<Longrightarrow> v < max_val \<Longrightarrow> v < scale_percent v percent"
proof -
  from assms have p: "110 \<le> unat percent" by (simp add: word_le_nat_alt)
  then have m: "110 * unat v \<le> unat v * unat percent" by (simp add: mult.commute)
  show "110 * unat v \<le> 100 * unat (scale_percent v percent) + 99 \<or> scale_percent v percent = max_val"
  proof (cases "unat v * unat percent < 2 ^ 128")
    case True
    then have s: "unat (scale_percent v percent) = unat v * unat percent div 100" by (simp only: unat_scale_percent if_True)
    have "x \<le> 100 * (x div 100) + 99" for x :: nat
      using mult_div_mod_eq [of 100 x] mod_less_divisor [of 100 x] by linarith
    from order_trans [OF m this] show ?thesis unfolding s by (rule disjI1)
  next
    case False
    then have "unat (scale_percent v percent) = unat (max_val :: u128)"
      by (simp only: unat_scale_percent if_False unat_max_val) simp
    then have "scale_percent v percent = max_val" by (rule word_unat_eq_iff [THEN iffD2])
    then show ?thesis by simp
  qed
  then show "v \<le> scale_percent v percent"
  proof
    assume "110 * unat v \<le> 100 * unat (scale_percent v percent) + 99"
    then show ?thesis by (simp add: word_le_nat_alt)
  qed simp
  assume v: "10 \<le> v" "v < max_val"
  then have "10 \<le> unat v" by (simp add: word_le_nat_alt)
  with \<open>110 * unat v \<le> 100 * unat (scale_percent v percent) + 99 \<or> scale_percent v percent = max_val\<close> v(2)
  show "v < scale_percent v percent" by (auto simp: word_less_nat_alt)
qed

text \<open>A bid priced without overflow costs at most the bid's share of the profit.\<close>

lemma bid_cost:
  assumes "price_1559 est gas bump (Some b) = Ok f"
    and "unat (total_profit b) div unat gas * unat (bid_percentage b) < 2 ^ 128"
  shows "100 * (unat gas * unat (max_fee_per_gas f)) \<le> unat (total_profit b) * unat (bid_percentage b) \<and>
    unat gas * unat (max_fee_per_gas f) \<le> unat (total_profit b)"
proof -
  let ?b = "unat (total_profit b) div unat gas"
  from assms have f: "f = clamped (scale_percent (total_profit b div ucast gas) (bid_percentage b))
      (scale_percent (est_max_priority_fee est) bump)"
    and pct: "bid_percentage b \<le> 100"
    by (auto simp: price_1559_def Let_def split: if_splits)
  have "unat (total_profit b div ucast gas) = ?b" by (simp add: unat_div)
  with f assms(2) have fee: "unat (max_fee_per_gas f) = ?b * unat (bid_percentage b) div 100"
    by (simp add: clamped_def unat_scale_percent)
  have "100 * unat (max_fee_per_gas f) \<le> ?b * unat (bid_percentage b)" unfolding fee by (rule times_div_less_eq_dividend)
  then have "unat gas * (100 * unat (max_fee_per_gas f)) \<le> unat gas * (?b * unat (bid_percentage b))"
    by (rule mult_le_mono2)
  moreover have "(unat gas * ?b) * unat (bid_percentage b) \<le> unat (total_profit b) * unat (bid_percentage b)"
    by (rule mult_le_mono1) (rule times_div_less_eq_dividend)
  ultimately have c: "100 * (unat gas * unat (max_fee_per_gas f)) \<le> unat (total_profit b) * unat (bid_percentage b)"
    by (simp only: ac_simps)
  also have "unat (total_profit b) * unat (bid_percentage b) \<le> unat (total_profit b) * 100"
    using pct by (simp add: word_le_nat_alt)
  finally have "unat gas * unat (max_fee_per_gas f) \<le> unat (total_profit b)" by simp
  with c show ?thesis by simp
qed

text \<open>The saturation of \<open>scale_percent\<close> breaks that bound for an astronomical profit.\<close>

definition whale_bid :: gas_bid_info where
  "whale_bid = \<lparr>total_profit = max_val, bid_percentage = 50\<rparr>"

lemma bid_saturates:
  "price_1559 est 1 bump (Some whale_bid) = Ok f \<Longrightarrow> max_fee_per_gas f = max_val"
proof -
  assume "price_1559 est 1 bump (Some whale_bid) = Ok f"
  then have "max_fee_per_gas f = scale_percent (max_val div 1) 50"
    by (auto simp: price_1559_def whale_bid_def clamped_def Let_def split: if_splits)
  then have "unat (max_fee_per_gas f) = unat (max_val :: u128)"
    by (simp add: unat_scale_percent unat_max_val unat_div)
  then show ?thesis by (simp only: word_unat_eq_iff)
qed

end
