(* ===== verification/Mempool_Executor.thy ===== *)
theory Mempool_Executor
  imports Pricing Reconnect
begin

text \<open>
  The mempool executor (\<open>src/src/executors/mempool_executor.rs\<close>): pricing, submission, and the
  watch-and-replace loop with its pure schedule.

  The provider is a dictionary of operations on a world. A call under the RPC timeout either times
  out, fails with an error text, or answers; \<open>watch\<close> tells a confirmation, the confirmation timeout
  and a transport failure apart. Errors are the texts \<open>anyhow\<close> renders, context first.
\<close>

section \<open>Types\<close>

definition DEFAULT_RPC_TIMEOUT :: duration where
  "DEFAULT_RPC_TIMEOUT = from_secs 10"

definition gas_limit_with_headroom :: "u64 \<Rightarrow> u64" where
  "gas_limit_with_headroom estimate = sat_add estimate (estimate div 5)"

datatype escalation_percent = EscalationPercent (percent_get: u64)

definition MIN_PERCENT :: u64 where
  "MIN_PERCENT = 110"

definition escalation_percent_new :: "u64 \<Rightarrow> string + escalation_percent" where
  "escalation_percent_new percent =
     (if percent < MIN_PERCENT then
        Err (''escalation_percent must be >= '' @ dec_string (unat MIN_PERCENT) @
          '' to clear the node's minimum replacement bump; got '' @ dec_string (unat percent))
      else Ok (EscalationPercent percent))"

record replacement_policy =
  confirmation_timeout :: duration
  max_replacements :: u32
  policy_percent :: escalation_percent

datatype ('h) watch_result = Mined 'h | Watch_timeout | Watch_error string

datatype watch_outcome = Confirmed | TimedOut | TransportError

fun classify :: "'h watch_result \<Rightarrow> watch_outcome" where
  "classify (Mined h) = Confirmed"
| "classify Watch_timeout = TimedOut"
| "classify (Watch_error e) = TransportError"

datatype next_step = Step_confirmed | Replace fees | Rewatch | GiveUp

section \<open>The replacement schedule\<close>

record schedule =
  s_percent :: u64
  s_max_replacements :: u32
  s_fees :: fees
  issued :: u32
  transport_failures :: u32

definition MAX_TRANSPORT_FAILURES :: u32 where
  "MAX_TRANSPORT_FAILURES = 3"

definition schedule_new :: "replacement_policy \<Rightarrow> fees \<Rightarrow> schedule" where
  "schedule_new policy initial = \<lparr>s_percent = percent_get (policy_percent policy),
     s_max_replacements = max_replacements policy, s_fees = initial, issued = 0, transport_failures = 0\<rparr>"

definition schedule_escalate :: "schedule \<Rightarrow> fees option \<times> schedule" where
  "schedule_escalate s =
     (if issued s \<ge> s_max_replacements s then (None, s)
      else
        let f = escalate (s_fees s) (s_percent s)
        in (Some f, s\<lparr>issued := issued s + 1, s_fees := f\<rparr>))"

fun schedule_next :: "schedule \<Rightarrow> watch_outcome \<Rightarrow> next_step \<times> schedule" where
  "schedule_next s Confirmed = (Step_confirmed, s)"
| "schedule_next s TimedOut =
     (case schedule_escalate (s\<lparr>transport_failures := 0\<rparr>) of
        (Some f, s') \<Rightarrow> (Replace f, s')
      | (None, s') \<Rightarrow> (GiveUp, s'))"
| "schedule_next s TransportError =
     (let s = s\<lparr>transport_failures := transport_failures s + 1\<rparr>
      in if transport_failures s > MAX_TRANSPORT_FAILURES then (GiveUp, s) else (Rewatch, s))"

section \<open>The provider\<close>

datatype 'r rpc = Timeout | Failed string | Answer 'r

text \<open>\<open>timeout(..).await.context(t)?.context(e)\<close>.\<close>

fun rpc_context :: "string \<Rightarrow> string \<Rightarrow> 'r rpc \<Rightarrow> string + 'r" where
  "rpc_context t e Timeout = Err (t @ '': deadline has elapsed'')"
| "rpc_context t e (Failed msg) = Err (e @ '': '' @ msg)"
| "rpc_context t e (Answer r) = Ok r"

text \<open>The fields of a transaction request that the code reads and sets; the rest is payload.\<close>

record ('a, 'p) tx_request =
  tx_from :: "'a option"
  tx_nonce :: "u64 option"
  tx_gas_limit :: "u64 option"
  tx_max_fee :: "u128 option"
  tx_max_priority_fee :: "u128 option"
  tx_payload :: 'p

record ('a, 'p, 'h, 'w) provider =
  estimate_gas :: "('a, 'p) tx_request \<Rightarrow> 'w \<Rightarrow> u64 rpc \<times> 'w"
  estimate_eip1559_fees :: "'w \<Rightarrow> fee_estimate rpc \<times> 'w"
  pending_transaction_count :: "'a \<Rightarrow> 'w \<Rightarrow> u64 rpc \<times> 'w"
  send_transaction :: "('a, 'p) tx_request \<Rightarrow> 'w \<Rightarrow> 'h rpc \<times> 'w"
  watch :: "'h \<Rightarrow> duration \<Rightarrow> 'w \<Rightarrow> 'h watch_result \<times> 'w"
  transaction_receipt :: "'h \<Rightarrow> 'w \<Rightarrow> bool rpc \<times> 'w"

record mempool_executor =
  rpc_timeout :: duration
  priority_fee_bump_percent :: u64
  replacement :: "replacement_policy option"

definition mempool_new :: mempool_executor where
  "mempool_new = \<lparr>rpc_timeout = DEFAULT_RPC_TIMEOUT, priority_fee_bump_percent = 100, replacement = None\<rparr>"

definition with_rpc_timeout :: "duration \<Rightarrow> mempool_executor \<Rightarrow> mempool_executor" where
  "with_rpc_timeout timeout m = m\<lparr>rpc_timeout := timeout\<rparr>"

definition with_priority_fee_bump :: "u64 \<Rightarrow> mempool_executor \<Rightarrow> mempool_executor" where
  "with_priority_fee_bump percent m = m\<lparr>priority_fee_bump_percent := percent\<rparr>"

definition with_replacement :: "replacement_policy \<Rightarrow> mempool_executor \<Rightarrow> mempool_executor" where
  "with_replacement policy m = m\<lparr>replacement := Some policy\<rparr>"

text \<open>The sweep over the receipts of the sent hashes; a failed or timed-out lookup counts as unmined.\<close>

fun any_mined :: "('a, 'p, 'h, 'w) provider \<Rightarrow> 'h list \<Rightarrow> 'w \<Rightarrow> bool \<times> 'w" where
  "any_mined C [] w = (False, w)"
| "any_mined C (h # hs) w =
     (case transaction_receipt C h w of
        (Answer True, w') \<Rightarrow> (True, w')
      | (_, w') \<Rightarrow> any_mined C hs w')"

definition send_and_forget ::
  "('a, 'p, 'h, 'w) provider \<Rightarrow> ('a, 'p) tx_request \<Rightarrow> 'w \<Rightarrow> (string + unit) \<times> 'w" where
  "send_and_forget C tx w =
     (case send_transaction C tx w of
        (r, w') \<Rightarrow> (map_sum id (\<lambda>h. ()) (rpc_context ''Timeout sending transaction'' ''Error sending transaction'' r), w'))"

text \<open>What is left of the schedule: replacements first, re-watches second.\<close>

definition schedule_left :: "schedule \<Rightarrow> nat \<times> nat" where
  "schedule_left s = (unat (s_max_replacements s) - unat (issued s),
     if transport_failures s \<le> MAX_TRANSPORT_FAILURES then 3 - unat (transport_failures s) else 4)"

lemma unat_u32_Suc: "k < m \<Longrightarrow> unat (k + 1) = Suc (unat (k :: u32))"
  using unat_lt2p [of m] by (simp add: word_less_nat_alt unat_word_ariths)

lemma next_replace:
  assumes "schedule_next s o1 = (Replace f, s')"
  shows "o1 = TimedOut \<and> issued s < s_max_replacements s \<and> f = escalate (s_fees s) (s_percent s) \<and>
    s' = s\<lparr>transport_failures := 0, issued := issued s + 1, s_fees := f\<rparr>"
  using assms by (cases o1) (auto simp: schedule_escalate_def Let_def split: if_splits)

lemma next_rewatch:
  assumes "schedule_next s o1 = (Rewatch, s')"
  shows "o1 = TransportError \<and> transport_failures s + 1 \<le> MAX_TRANSPORT_FAILURES \<and>
    s' = s\<lparr>transport_failures := transport_failures s + 1\<rparr>"
  using assms by (cases o1) (auto simp: schedule_escalate_def Let_def split: if_splits)

lemma next_give_up:
  assumes "schedule_next s o1 = (GiveUp, s')"
  shows "(o1 = TimedOut \<and> s_max_replacements s \<le> issued s \<or> o1 = TransportError) \<and> issued s' = issued s"
  using assms by (cases o1) (auto simp: schedule_escalate_def Let_def split: if_splits)

lemma transport_Suc:
  assumes "transport_failures s + 1 \<le> MAX_TRANSPORT_FAILURES"
  shows "unat (transport_failures s + 1) \<le> 3 \<and> (transport_failures s \<le> MAX_TRANSPORT_FAILURES \<longrightarrow>
    unat (transport_failures s + 1) = Suc (unat (transport_failures s)))"
proof -
  have "transport_failures s \<le> MAX_TRANSPORT_FAILURES \<Longrightarrow>
    unat (transport_failures s + 1) = Suc (unat (transport_failures s))"
    using unat_u32_Suc [of "transport_failures s" 4] by (simp add: MAX_TRANSPORT_FAILURES_def word_le_nat_alt word_less_nat_alt)
  with assms show ?thesis by (simp add: MAX_TRANSPORT_FAILURES_def word_le_nat_alt)
qed

lemma schedule_next_left:
  assumes "schedule_next s o1 = (st, s')" and "st = Rewatch \<or> st = Replace f"
  shows "(schedule_left s', schedule_left s) \<in> less_than <*lex*> less_than"
  using assms(2)
proof
  assume "st = Rewatch"
  with assms(1) have "schedule_next s o1 = (Rewatch, s')" by simp
  from next_rewatch [OF this] have t: "transport_failures s + 1 \<le> MAX_TRANSPORT_FAILURES"
    and s': "s' = s\<lparr>transport_failures := transport_failures s + 1\<rparr>" by simp_all
  from transport_Suc [OF t] t s' show ?thesis by (auto simp: schedule_left_def)
next
  assume "st = Replace f"
  with assms(1) have "schedule_next s o1 = (Replace f, s')" by simp
  from next_replace [OF this] have i: "issued s < s_max_replacements s"
    and s': "s' = s\<lparr>transport_failures := 0, issued := issued s + 1, s_fees := f\<rparr>" by simp_all
  from i unat_u32_Suc [OF i] s' show ?thesis by (auto simp: schedule_left_def word_less_nat_alt)
qed

lemmas schedule_next_lefts = schedule_next_left [OF _ disjI1, OF _ refl] schedule_next_left [OF _ disjI2, OF _ refl]

section \<open>Send and replace\<close>

definition set_fees :: "fees \<Rightarrow> ('a, 'p) tx_request \<Rightarrow> ('a, 'p) tx_request" where
  "set_fees f tx = tx\<lparr>tx_max_fee := Some (max_fee_per_gas f), tx_max_priority_fee := Some (max_priority_fee_per_gas f)\<rparr>"

definition unconfirmed :: "u32 \<Rightarrow> string" where
  "unconfirmed n = ''transaction unconfirmed after '' @ dec_string (unat n) @ '' replacement(s)''"

text \<open>The verdict behind every failure: success if the sweep finds a receipt.\<close>

definition sweep_or :: "('a, 'p, 'h, 'w) provider \<Rightarrow> 'h list \<Rightarrow> string \<Rightarrow> 'w \<Rightarrow> (string + unit) \<times> 'w" where
  "sweep_or C sent e w = (case any_mined C sent w of (mined, w') \<Rightarrow> (if mined then Ok () else Err e, w'))"

function send_loop ::
  "('a, 'p, 'h, 'w) provider \<Rightarrow> duration \<Rightarrow> ('a, 'p) tx_request \<Rightarrow> 'h list \<Rightarrow> 'h \<Rightarrow> schedule \<Rightarrow> 'w
     \<Rightarrow> (string + unit) \<times> 'w" where
  "send_loop C timeout tx sent pending s w =
     (case watch C pending timeout w of
        (watched, w) \<Rightarrow>
          (case schedule_next s (classify watched) of
             (Step_confirmed, s') \<Rightarrow> (Ok (), w)
           | (GiveUp, s') \<Rightarrow> sweep_or C sent (unconfirmed (issued s')) w
           | (Rewatch, s') \<Rightarrow>
               (case watched of
                  Mined _ \<Rightarrow> (Err ''rewatch requested without a transport error'', w)
                | _ \<Rightarrow>
                    if sent = [] then (Err ''no transaction hash recorded to re-watch'', w)
                    else send_loop C timeout tx sent (last sent) s' w)
           | (Replace f, s') \<Rightarrow>
               (let tx = set_fees f tx in
                case send_transaction C tx w of
                  (resent, w) \<Rightarrow>
                    (case rpc_context ''Timeout sending replacement'' ''Error sending replacement'' resent of
                       Err e \<Rightarrow> sweep_or C sent e w
                     | Ok h \<Rightarrow> send_loop C timeout tx (sent @ [h]) h s' w))))"
  by pat_completeness auto

termination send_loop
proof (relation "inv_image (less_than <*lex*> less_than) (\<lambda>(C, timeout, tx, sent, pending, s, w). schedule_left s)")
qed (auto simp del: schedule_next.simps intro: schedule_next_lefts dest: sym)

declare send_loop.simps [simp del]

lemma send_loop_step:
  assumes "watch C pending timeout w = (watched, w1)" and "schedule_next s (classify watched) = (st, s')"
  shows "send_loop C timeout tx sent pending s w =
     (case st of
        Step_confirmed \<Rightarrow> (Ok (), w1)
      | GiveUp \<Rightarrow> sweep_or C sent (unconfirmed (issued s')) w1
      | Rewatch \<Rightarrow>
          (case watched of
             Mined _ \<Rightarrow> (Err ''rewatch requested without a transport error'', w1)
           | _ \<Rightarrow>
               if sent = [] then (Err ''no transaction hash recorded to re-watch'', w1)
               else send_loop C timeout tx sent (last sent) s' w1)
      | Replace f \<Rightarrow>
          (case send_transaction C (set_fees f tx) w1 of
             (resent, w2) \<Rightarrow>
               (case rpc_context ''Timeout sending replacement'' ''Error sending replacement'' resent of
                  Err e \<Rightarrow> sweep_or C sent e w2
                | Ok h \<Rightarrow> send_loop C timeout (set_fees f tx) (sent @ [h]) h s' w2)))"
  by (subst send_loop.simps) (simp only: assms prod.case Let_def)

definition send_with_replacement ::
  "('a, 'p, 'h, 'w) provider \<Rightarrow> ('a, 'p) tx_request \<Rightarrow> fees \<Rightarrow> replacement_policy \<Rightarrow> 'w \<Rightarrow> (string + unit) \<times> 'w" where
  "send_with_replacement C tx initial_fees policy w =
     (case tx_from tx of
        None \<Rightarrow> (Err ''replacement requires `tx.from` to pin the nonce'', w)
      | Some from \<Rightarrow>
          (case pending_transaction_count C from w of
             (r, w) \<Rightarrow>
               (case rpc_context ''Timeout fetching nonce'' ''Error fetching nonce'' r of
                  Err e \<Rightarrow> (Err e, w)
                | Ok nonce \<Rightarrow>
                    (let tx = tx\<lparr>tx_nonce := Some nonce\<rparr> in
                     case send_transaction C tx w of
                       (r, w) \<Rightarrow>
                         (case rpc_context ''Timeout sending transaction'' ''Error sending transaction'' r of
                            Err e \<Rightarrow> (Err e, w)
                          | Ok h \<Rightarrow>
                              send_loop C (confirmation_timeout policy) tx [h] h
                                (schedule_new policy initial_fees) w)))))"

record ('a, 'p) submit_tx =
  action_tx :: "('a, 'p) tx_request"
  action_bid :: "gas_bid_info option"

definition mempool_execute ::
  "('a, 'p, 'h, 'w) provider \<Rightarrow> mempool_executor \<Rightarrow> ('a, 'p) submit_tx \<Rightarrow> 'w \<Rightarrow> (string + unit) \<times> 'w" where
  "mempool_execute C m action w =
     (if \<exists>bid \<in> set_option (action_bid action). bid_percentage bid > 100
      then (Err (over_bid (bid_percentage (the (action_bid action)))), w)
      else
        case estimate_gas C (action_tx action) w of
          (r, w) \<Rightarrow>
            (case rpc_context ''Timeout estimating gas usage'' ''Error estimating gas usage'' r of
               Err e \<Rightarrow> (Err e, w)
             | Ok gas_usage \<Rightarrow>
                 (case estimate_eip1559_fees C w of
                    (r, w) \<Rightarrow>
                      (case rpc_context ''Timeout estimating EIP-1559 fees'' ''Error estimating EIP-1559 fees'' r of
                         Err e \<Rightarrow> (Err e, w)
                       | Ok estimate \<Rightarrow>
                           (case price_1559 estimate gas_usage (priority_fee_bump_percent m) (action_bid action) of
                              Err e \<Rightarrow> (Err e, w)
                            | Ok f \<Rightarrow>
                                (let tx = set_fees f ((action_tx action)\<lparr>tx_gas_limit := Some (gas_limit_with_headroom gas_usage)\<rparr>)
                                 in case replacement m of
                                      None \<Rightarrow> send_and_forget C tx w
                                    | Some policy \<Rightarrow> send_with_replacement C tx f policy w))))))"

end
