(* ===== verification/Mempool_Properties.thy ===== *)
theory Mempool_Properties
  imports Mempool_Executor
begin

text \<open>
  The properties of pricing and of the mempool executor, over a provider that records the
  submissions and the watches; what the provider answers is arbitrary.
\<close>

section \<open>Recording a provider\<close>

datatype ('a, 'p, 'h) call = Sent "('a, 'p) tx_request" "'h rpc" | Watched 'h

definition recording :: "('a, 'p, 'h, 'w) provider \<Rightarrow> ('a, 'p, 'h, 'w \<times> ('a, 'p, 'h) call list) provider" where
  "recording C = \<lparr>
     estimate_gas = (\<lambda>tx (w, l). case estimate_gas C tx w of (r, w') \<Rightarrow> (r, (w', l))),
     estimate_eip1559_fees = (\<lambda>(w, l). case estimate_eip1559_fees C w of (r, w') \<Rightarrow> (r, (w', l))),
     pending_transaction_count = (\<lambda>a (w, l). case pending_transaction_count C a w of (r, w') \<Rightarrow> (r, (w', l))),
     send_transaction = (\<lambda>tx (w, l). case send_transaction C tx w of (r, w') \<Rightarrow> (r, (w', l @ [Sent tx r]))),
     watch = (\<lambda>h d (w, l). case watch C h d w of (r, w') \<Rightarrow> (r, (w', l @ [Watched h]))),
     transaction_receipt = (\<lambda>h (w, l). case transaction_receipt C h w of (r, w') \<Rightarrow> (r, (w', l)))\<rparr>"

definition sends :: "('a, 'p, 'h) call list \<Rightarrow> ('a, 'p) tx_request list" where
  "sends l = concat (map (\<lambda>c. case c of Sent tx r \<Rightarrow> [tx] | Watched h \<Rightarrow> []) l)"

definition hashes :: "('a, 'p, 'h) call list \<Rightarrow> 'h list" where
  "hashes l = concat (map (\<lambda>c. case c of Sent tx (Answer h) \<Rightarrow> [h] | _ \<Rightarrow> []) l)"

definition watches :: "('a, 'p, 'h) call list \<Rightarrow> nat" where
  "watches l = length (filter (\<lambda>c. case c of Sent tx r \<Rightarrow> False | Watched h \<Rightarrow> True) l)"

lemma log_simps [simp]:
  "sends [] = []" "sends (Sent tx r # l) = tx # sends l" "sends (Watched h # l) = sends l"
  "sends (l @ l2) = sends l @ sends l2"
  "hashes [] = []" "hashes (Sent tx (Answer h) # l) = h # hashes l" "hashes (Watched h # l) = hashes l"
  "hashes (Sent tx Timeout # l) = hashes l" "hashes (Sent tx (Failed e) # l) = hashes l"
  "hashes (l @ l2) = hashes l @ hashes l2"
  "watches [] = 0" "watches (Sent tx r # l) = watches l" "watches (Watched h # l) = Suc (watches l)"
  "watches (l @ l2) = watches l + watches l2"
  by (simp_all add: sends_def hashes_def watches_def)

lemma any_mined_recording:
  "any_mined (recording C) hs (w, l) = (case any_mined C hs w of (b, w') \<Rightarrow> (b, (w', l)))"
  by (induction hs arbitrary: w) (auto simp: recording_def split: prod.splits rpc.splits bool.splits)

definition escalated :: "fees \<Rightarrow> u64 \<Rightarrow> nat \<Rightarrow> fees" where
  "escalated f percent k = ((\<lambda>g. escalate g percent) ^^ k) f"

lemma escalated_simps [simp]:
  "escalated f p 0 = f" "escalated f p (Suc k) = escalate (escalated f p k) p"
  by (simp_all add: escalated_def)

lemma escalated_shift: "escalated (escalate f p) p k = escalated f p (Suc k)"
  by (induction k) simp_all

lemma set_fees_twice [simp]: "set_fees g (set_fees f tx) = set_fees g tx"
  by (simp add: set_fees_def)

section \<open>The loop\<close>

lemma sweep_recording:
  "sweep_or (recording C) hs e (w, l) = (case any_mined C hs w of (b, w') \<Rightarrow> (if b then Ok () else Err e, (w', l)))"
  by (simp add: sweep_or_def any_mined_recording split: prod.split)

lemma send_loop_cases:
  assumes "send_loop (recording C) timeout tx sent pending s (w, l) = (r, (w', l'))" and "sent \<noteq> []"
  obtains (Confirmed) "r = Ok ()" "l' = l @ [Watched pending]"
  | (GiveUp) w1 b where "any_mined C sent w1 = (b, w')" "r = (if b then Ok () else Err (unconfirmed (issued s)))"
      "l' = l @ [Watched pending]"
  | (Rewatch) w1 s' where "transport_failures s + 1 \<le> MAX_TRANSPORT_FAILURES"
      "s' = s\<lparr>transport_failures := transport_failures s + 1\<rparr>" "(schedule_left s', schedule_left s) \<in> less_than <*lex*> less_than"
      "send_loop (recording C) timeout tx sent (last sent) s' (w1, l @ [Watched pending]) = (r, (w', l'))"
  | (Rejected) rr e w1 b where "issued s < s_max_replacements s" "\<forall>h. rr \<noteq> Answer h" "any_mined C sent w1 = (b, w')"
      "r = (if b then Ok () else Err e)" "l' = (l @ [Watched pending]) @ [Sent (set_fees (escalate (s_fees s) (s_percent s)) tx) rr]"
  | (Replaced) f h w1 s' where "issued s < s_max_replacements s" "f = escalate (s_fees s) (s_percent s)"
      "s' = s\<lparr>transport_failures := 0, issued := issued s + 1, s_fees := f\<rparr>"
      "(schedule_left s', schedule_left s) \<in> less_than <*lex*> less_than"
      "send_loop (recording C) timeout (set_fees f tx) (sent @ [h]) h s'
         (w1, (l @ [Watched pending]) @ [Sent (set_fees f tx) (Answer h)]) = (r, (w', l'))"
proof -
  obtain wr w1 where wr: "watch C pending timeout w = (wr, w1)" by fastforce
  then have rec: "watch (recording C) pending timeout (w, l) = (wr, (w1, l @ [Watched pending]))"
    by (simp add: recording_def)
  obtain st s' where st: "schedule_next s (classify wr) = (st, s')" by fastforce
  note run = assms(1) [unfolded send_loop_step [OF rec st]]
  show thesis
  proof (cases st)
    case Step_confirmed
    with run Confirmed show thesis by simp
  next
    case GiveUp
    from next_give_up [OF st [unfolded GiveUp]] have i: "issued s' = issued s" by simp
    obtain b w2 where "any_mined C sent w1 = (b, w2)" by fastforce
    with run GiveUp i that(2) [of w1 b] show thesis by (simp add: sweep_recording)
  next
    case Rewatch
    note st' = st [unfolded Rewatch]
    from next_rewatch [OF st'] obtain e where "wr = Watch_error e" by (cases wr) auto
    with run Rewatch assms(2) that(3) [OF _ _ schedule_next_lefts(1) [OF st'], of w1] next_rewatch [OF st']
    show thesis by simp
  next
    case (Replace f)
    note st' = st [unfolded Replace]
    note n = next_replace [OF st']
    let ?tx = "set_fees f tx"
    obtain rr w2 where rr: "send_transaction C ?tx w1 = (rr, w2)" by fastforce
    then have rrec: "send_transaction (recording C) ?tx (w1, l @ [Watched pending])
        = (rr, (w2, (l @ [Watched pending]) @ [Sent ?tx rr]))"
      by (simp add: recording_def)
    show thesis
    proof (cases rr)
      case (Answer h)
      from run Replace rrec Answer have "send_loop (recording C) timeout ?tx (sent @ [h]) h s'
          (w2, (l @ [Watched pending]) @ [Sent ?tx (Answer h)]) = (r, (w', l'))"
        by simp
      with n show thesis by (intro that(5) [OF _ _ _ schedule_next_lefts(2) [OF st']]) simp_all
    qed (use run Replace rrec n that(4) [of rr] in \<open>auto simp: Let_def sweep_recording split: prod.splits\<close>)
  qed
qed

text \<open>What the loop promises, from a schedule with \<open>k\<close> replacements left.\<close>

lemma send_loop_log:
  assumes "send_loop (recording C) timeout tx sent pending s (w, l) = (r, (w', l'))"
    and "transport_failures s \<le> MAX_TRANSPORT_FAILURES" and "sent = hashes l" and "sent \<noteq> []"
  shows "\<exists>m \<le> unat (s_max_replacements s) - unat (issued s).
      sends l' = sends l @ map (\<lambda>k. set_fees (escalated (s_fees s) (s_percent s) (Suc k)) tx) [0..<m]"
    and "watches l' + unat (transport_failures s) \<le> watches l + 4 * (unat (s_max_replacements s) - unat (issued s)) + 4"
    and "r = Err e \<Longrightarrow> \<exists>w0. any_mined C (hashes l') w0 = (False, w')"
proof -
  define R where "R s = unat (s_max_replacements s) - unat (issued s)" for s :: schedule
  have "(\<exists>m \<le> R s. sends l' = sends l @ map (\<lambda>k. set_fees (escalated (s_fees s) (s_percent s) (Suc k)) tx) [0..<m]) \<and>
    watches l' + unat (transport_failures s) \<le> watches l + 4 * R s + 4 \<and>
    (r = Err e \<longrightarrow> (\<exists>w0. any_mined C (hashes l') w0 = (False, w')))"
    using assms
  proof (induction s arbitrary: tx sent pending w l rule: wf_induct [OF wf_inv_image [OF wf_lex_prod [OF wf_less_than wf_less_than], of schedule_left]])
    case (1 s)
    note IH = "1.IH" [rule_format, unfolded in_inv_image]
    from "1.prems"(2) have tf: "unat (transport_failures s) \<le> 3"
      by (simp add: MAX_TRANSPORT_FAILURES_def word_le_nat_alt)
    from "1.prems"(1,4) show ?case
    proof (cases rule: send_loop_cases)
      case Confirmed
      with tf show ?thesis by (intro conjI exI [of _ 0]) auto
    next
      case (GiveUp w1 b)
      with tf "1.prems"(3) show ?thesis by (intro conjI exI [of _ 0]) auto
    next
      case (Rewatch w1 s')
      from transport_Suc [OF Rewatch(1)] "1.prems"(2) Rewatch(2)
      have t: "unat (transport_failures s') = Suc (unat (transport_failures s))" by simp
      from IH [OF Rewatch(3,4)] Rewatch(1,2) "1.prems"(3,4) t tf show ?thesis by (auto simp: R_def)
    next
      case (Rejected rr e' w1 b)
      have "hashes l' = hashes l" using Rejected(2,5) by (cases rr) (auto simp: hashes_def)
      moreover have "0 < R s" using Rejected(1) by (simp add: R_def word_less_nat_alt)
      ultimately show ?thesis using Rejected tf "1.prems"(3)
        by (intro conjI exI [of _ 1]) (auto simp: Suc_le_eq)
    next
      case (Replaced f h w1 s')
      from Replaced(1,3) unat_u32_Suc [OF Replaced(1)] have R: "R s = Suc (R s')"
        by (auto simp: R_def word_less_nat_alt)
      from IH [OF Replaced(4,5)] Replaced(3) "1.prems"(3)
      obtain m where m: "m \<le> R s'" "sends l' = (sends l @ [set_fees f tx]) @
          map (\<lambda>k. set_fees (escalated f (s_percent s) (Suc k)) tx) [0..<m]"
        and w: "watches l' \<le> Suc (watches l) + 4 * R s' + 4"
        and e: "r = Err e \<longrightarrow> (\<exists>w0. any_mined C (hashes l') w0 = (False, w'))"
        by (auto simp: MAX_TRANSPORT_FAILURES_def)
      have "map (\<lambda>k. set_fees (escalated (s_fees s) (s_percent s) (Suc k)) tx) [0..<Suc m] =
          set_fees f tx # map (\<lambda>k. set_fees (escalated f (s_percent s) (Suc k)) tx) [0..<m]"
        using Replaced(2) by (simp add: upt_conv_Cons map_Suc_upt [symmetric] escalated_shift del: upt_Suc)
      with m R have "\<exists>m \<le> R s. sends l' = sends l @ map (\<lambda>k. set_fees (escalated (s_fees s) (s_percent s) (Suc k)) tx) [0..<m]"
        by (intro exI [of _ "Suc m"]) simp
      moreover have "watches l' + unat (transport_failures s) \<le> watches l + 4 * R s + 4" using w R tf by simp
      ultimately show ?thesis using e by blast
    qed
  qed
  then show "\<exists>m \<le> unat (s_max_replacements s) - unat (issued s).
      sends l' = sends l @ map (\<lambda>k. set_fees (escalated (s_fees s) (s_percent s) (Suc k)) tx) [0..<m]"
    and "watches l' + unat (transport_failures s) \<le> watches l + 4 * (unat (s_max_replacements s) - unat (issued s)) + 4"
    and "r = Err e \<Longrightarrow> \<exists>w0. any_mined C (hashes l') w0 = (False, w')"
    unfolding R_def by blast+
qed

lemma hashes_kept:
  assumes "send_loop (recording C) timeout tx sent pending s (w, l) = (r, (w', l'))"
    and "transport_failures s \<le> MAX_TRANSPORT_FAILURES" and "sent = hashes l" and "sent \<noteq> []"
  shows "hashes l' \<noteq> []"
  using assms
proof (induction s arbitrary: tx sent pending w l rule: wf_induct [OF wf_inv_image [OF wf_lex_prod [OF wf_less_than wf_less_than], of schedule_left]])
  case (1 s)
  note IH = "1.IH" [rule_format, unfolded in_inv_image]
  from "1.prems"(1,4) show ?case
  proof (cases rule: send_loop_cases)
    case (Rewatch w1 s')
    from IH [OF Rewatch(3,4)] Rewatch(1,2) "1.prems"(3,4) show ?thesis by simp
  next
    case (Replaced f h w1 s')
    from IH [OF Replaced(4,5)] Replaced(3) "1.prems"(3) show ?thesis by (simp add: MAX_TRANSPORT_FAILURES_def)
  qed (use "1.prems" in auto)
qed

lemma schedule_new_simps [simp]:
  "transport_failures (schedule_new policy f) = 0" "issued (schedule_new policy f) = 0" "s_fees (schedule_new policy f) = f"
  "s_max_replacements (schedule_new policy f) = max_replacements policy"
  "s_percent (schedule_new policy f) = percent_get (policy_percent policy)"
  by (simp_all add: schedule_new_def)

section \<open>Submission with replacement\<close>

text \<open>The transactions a submission may send: the pinned original and its escalated replacements.\<close>

definition resubmissions :: "('a, 'p) tx_request \<Rightarrow> fees \<Rightarrow> u64 \<Rightarrow> nat \<Rightarrow> ('a, 'p) tx_request list" where
  "resubmissions tx f percent m = tx # map (\<lambda>k. set_fees (escalated f percent (Suc k)) tx) [0..<m]"

lemma send_with_replacement_log:
  assumes "send_with_replacement (recording C) tx f policy (w, []) = (r, (w', l))"
  shows "(sends l = [] \<and> hashes l = [] \<and> watches l = 0 \<and> r \<noteq> Ok ()) \<or>
    (\<exists>nonce m. m \<le> unat (max_replacements policy) \<and>
       sends l = resubmissions (tx\<lparr>tx_nonce := Some nonce\<rparr>) f (percent_get (policy_percent policy)) m \<and>
       watches l \<le> 4 * (unat (max_replacements policy) + 1) \<and>
       (r = Ok () \<or> hashes l = [] \<or> (\<exists>w0. any_mined C (hashes l) w0 = (False, w'))))"
proof (cases "tx_from tx")
  case None
  with assms show ?thesis by (auto simp: send_with_replacement_def)
next
  case (Some a)
  obtain nr w1 where nr: "pending_transaction_count C a w = (nr, w1)" by fastforce
  show ?thesis
  proof (cases nr)
    case (Answer nonce)
    let ?tx = "tx\<lparr>tx_nonce := Some nonce\<rparr>" and ?s = "schedule_new policy f"
    obtain sr w2 where sr: "send_transaction C ?tx w1 = (sr, w2)" by fastforce
    have unsent: ?thesis if "sends l = resubmissions ?tx f (percent_get (policy_percent policy)) 0" "watches l = 0" "hashes l = []"
      using that by (intro disjI2 exI [of _ nonce] exI [of _ "0::nat"]) simp
    show ?thesis
    proof (cases sr)
      case (Answer h)
      with assms Some nr \<open>nr = rpc.Answer nonce\<close> sr have run: "send_loop (recording C) (confirmation_timeout policy) ?tx [h] h ?s
          (w2, [Sent ?tx (rpc.Answer h)]) = (r, (w', l))"
        by (simp add: send_with_replacement_def recording_def Let_def)
      have ok: "transport_failures ?s \<le> MAX_TRANSPORT_FAILURES" "[h] = hashes [Sent ?tx (rpc.Answer h)]" "[h] \<noteq> []"
        by simp_all
      note log = send_loop_log [OF run ok]
      from log(1) obtain m where "m \<le> unat (max_replacements policy)"
        "sends l = resubmissions ?tx f (percent_get (policy_percent policy)) m"
        by (auto simp: resubmissions_def)
      moreover have "watches l \<le> 4 * (unat (max_replacements policy) + 1)" using log(2) by simp
      moreover have "r = Ok () \<or> (\<exists>w0. any_mined C (hashes l) w0 = (False, w'))"
        using log(3) by (cases r) auto
      ultimately show ?thesis by blast
    qed (use assms Some nr sr Answer unsent in \<open>auto simp: send_with_replacement_def recording_def Let_def resubmissions_def\<close>)
  qed (use assms Some nr in \<open>auto simp: send_with_replacement_def recording_def\<close>)
qed

lemma any_mined_False:
  "any_mined C hs w = (False, w') \<Longrightarrow> h \<in> set hs \<Longrightarrow> \<exists>v. fst (transaction_receipt C h v) \<noteq> Answer True"
proof (induction hs arbitrary: w)
  case (Cons a hs)
  obtain r v where r: "transaction_receipt C a w = (r, v)" by fastforce
  with Cons.prems(1) have "any_mined C hs v = (False, w') \<and> r \<noteq> Answer True"
    by (auto split: rpc.splits bool.splits)
  with Cons r show ?case by (cases "h = a") (auto intro: exI [of _ w])
qed simp

lemma escalate_ok [simp]: "fees_ok (escalate f p)"
  by (simp add: escalate_def)

lemma price_1559_ok: "price_1559 est gas bump bid = Ok f \<Longrightarrow> fees_ok f"
  by (auto simp: price_1559_def Let_def split: option.splits if_splits)

definition priced :: "('a, 'p) tx_request \<Rightarrow> bool" where
  "priced tx \<longleftrightarrow> (\<exists>f. fees_ok f \<and> tx_max_fee tx = Some (max_fee_per_gas f) \<and>
     tx_max_priority_fee tx = Some (max_priority_fee_per_gas f))"

lemma priced_set_fees: "fees_ok f \<Longrightarrow> priced (set_fees f tx)"
  by (auto simp: priced_def set_fees_def)

lemma resubmissions_ok:
  assumes "fees_ok f"
  shows "\<forall>t \<in> set (resubmissions (set_fees f tx) f p m). priced t \<and> tx_nonce t = tx_nonce tx \<and>
    tx_gas_limit t = tx_gas_limit tx \<and> tx_payload t = tx_payload tx"
    and "length (resubmissions (set_fees f tx) f p m) = Suc m"
  using assms by (auto simp: resubmissions_def priced_set_fees) (simp_all add: set_fees_def)

lemma execute_log:
  assumes "mempool_execute (recording C) me action (w, []) = (r, (w', l))"
  shows "sends l = [] \<and> watches l = 0 \<and> hashes l = [] \<and> r \<noteq> Ok () \<or>
    (\<exists>gas f tx. fst (estimate_gas C (action_tx action) w) = Answer gas \<and> (\<exists>est. price_1559 est gas (priority_fee_bump_percent me) (action_bid action) = Ok f) \<and>
       tx = set_fees f ((action_tx action)\<lparr>tx_gas_limit := Some (gas_limit_with_headroom gas)\<rparr>) \<and>
       (case replacement me of
          None \<Rightarrow> sends l = [tx] \<and> watches l = 0 \<and> (r = Ok () \<or> hashes l = [])
        | Some policy \<Rightarrow> \<exists>v. send_with_replacement (recording C) tx f policy (v, []) = (r, (w', l))))"
proof (cases "\<exists>bid \<in> set_option (action_bid action). bid_percentage bid > 100")
  case True
  with assms show ?thesis by (auto simp: mempool_execute_def)
next
  case False
  obtain gr w1 where gr: "estimate_gas C (action_tx action) w = (gr, w1)" by fastforce
  obtain er w2 where er: "estimate_eip1559_fees C w1 = (er, w2)" by fastforce
  note run = assms [unfolded mempool_execute_def if_not_P [OF False]]
  consider gas est f where "gr = Answer gas" "er = Answer est"
      "price_1559 est gas (priority_fee_bump_percent me) (action_bid action) = Ok f"
    | "sends l = [] \<and> watches l = 0 \<and> hashes l = [] \<and> r \<noteq> Ok ()"
    using run gr er by (cases gr; cases er) (auto simp: recording_def split: sum.splits)
  then show ?thesis
  proof cases
    case 1
    let ?tx = "set_fees f ((action_tx action)\<lparr>tx_gas_limit := Some (gas_limit_with_headroom gas)\<rparr>)"
    have rec: "estimate_gas (recording C) (action_tx action) (w, []) = (Answer gas, (w1, []))"
      "estimate_eip1559_fees (recording C) (w1, []) = (Answer est, (w2, []))"
      using gr er 1 by (simp_all add: recording_def)
    have "(case replacement me of None \<Rightarrow> send_and_forget (recording C) ?tx (w2, [])
        | Some policy \<Rightarrow> send_with_replacement (recording C) ?tx f policy (w2, [])) = (r, (w', l))"
      using run 1(3) rec by (simp add: Let_def)
    with 1(3) gr \<open>gr = Answer gas\<close> show ?thesis
      by (intro disjI2 exI [of _ gas] exI [of _ f])
        (auto simp: send_and_forget_def recording_def hashes_def split: option.splits prod.splits rpc.splits)
  qed blast
qed

section \<open>The properties\<close>

text \<open>
  Property C23: one action never sends more than the original and \<open>max_replacements\<close> replacements;
  all of them carry the same payload, nonce and gas limit and a fee pair with the tip at most the
  cap; and the executor watches at most four times per submission (three transport failures each).
\<close>

theorem submissions_bounded:
  assumes "mempool_execute (recording C) me action (w, []) = (r, (w', l))"
  shows "length (sends l) \<le> 1 + (case replacement me of None \<Rightarrow> 0 | Some p \<Rightarrow> unat (max_replacements p)) \<and>
    watches l \<le> (case replacement me of None \<Rightarrow> 0 | Some p \<Rightarrow> 4 * (unat (max_replacements p) + 1)) \<and>
    (\<exists>nonce gas. \<forall>t \<in> set (sends l). priced t \<and> tx_nonce t = nonce \<and> tx_gas_limit t = gas \<and>
       tx_payload t = tx_payload (action_tx action))"
  using execute_log [OF assms]
proof (elim disjE exE conjE)
  fix gas f tx est
  assume priced: "price_1559 est gas (priority_fee_bump_percent me) (action_bid action) = Ok f" and tx: "tx = set_fees f ((action_tx action)\<lparr>tx_gas_limit := Some (gas_limit_with_headroom gas)\<rparr>)"
    and run: "case replacement me of None \<Rightarrow> sends l = [tx] \<and> watches l = 0 \<and> (r = Ok () \<or> hashes l = [])
      | Some policy \<Rightarrow> \<exists>v. send_with_replacement (recording C) tx f policy (v, []) = (r, (w', l))"
  note f = price_1559_ok [OF priced]
  have payload: "tx_payload tx = tx_payload (action_tx action)" by (simp add: tx set_fees_def)
  show ?thesis
  proof (cases "replacement me")
    case None
    with run payload f tx show ?thesis by (auto simp: priced_set_fees)
  next
    case (Some policy)
    with run obtain v where "send_with_replacement (recording C) tx f policy (v, []) = (r, (w', l))" by auto
    from send_with_replacement_log [OF this] consider "sends l = []" "watches l = 0"
      | nonce m where "m \<le> unat (max_replacements policy)" "watches l \<le> 4 * (unat (max_replacements policy) + 1)"
        "sends l = resubmissions (tx\<lparr>tx_nonce := Some nonce\<rparr>) f (percent_get (policy_percent policy)) m"
      by (elim disjE exE conjE) auto
    then show ?thesis
    proof cases
      case (2 nonce m)
      let ?t = "(action_tx action)\<lparr>tx_gas_limit := Some (gas_limit_with_headroom gas), tx_nonce := Some nonce\<rparr>"
      have "tx\<lparr>tx_nonce := Some nonce\<rparr> = set_fees f ?t" by (simp add: tx set_fees_def)
      with resubmissions_ok [OF f, of ?t "percent_get (policy_percent policy)" m] 2(3)
      have "\<forall>t \<in> set (sends l). priced t \<and> tx_nonce t = Some nonce \<and>
          tx_gas_limit t = Some (gas_limit_with_headroom gas) \<and> tx_payload t = tx_payload (action_tx action)"
        and "length (sends l) = Suc m" by simp_all
      with 2 Some show ?thesis by auto
    qed (simp add: Some)
  qed
qed auto

text \<open>A provider that always answers, whose watches fail three times before each timeout and whose
  receipts are missing; the world counts the watches.\<close>

definition demo_provider :: "(nat, string, nat, nat) provider" where
  "demo_provider = \<lparr>estimate_gas = (\<lambda>tx w. (Answer 21000, w)),
     estimate_eip1559_fees = (\<lambda>w. (Answer \<lparr>est_max_fee = 30, est_max_priority_fee = 2\<rparr>, w)),
     pending_transaction_count = (\<lambda>a w. (Answer 7, w)),
     send_transaction = (\<lambda>tx w. (Answer w, w)),
     watch = (\<lambda>h d w. (if w mod 4 = 3 then Watch_timeout else Watch_error ''gone'', Suc w)),
     transaction_receipt = (\<lambda>h w. (Answer False, w))\<rparr>"

definition demo_tx :: "(nat, string) tx_request" where
  "demo_tx = \<lparr>tx_from = Some 1, tx_nonce = None, tx_gas_limit = None, tx_max_fee = None,
     tx_max_priority_fee = None, tx_payload = ''liquidate''\<rparr>"

definition demo_replacement :: replacement_policy where
  "demo_replacement = \<lparr>confirmation_timeout = 10, max_replacements = 1, policy_percent = EscalationPercent 110\<rparr>"

definition demo_mempool :: mempool_executor where
  "demo_mempool = with_replacement demo_replacement mempool_new"

definition demo_action :: "(nat, string) submit_tx" where
  "demo_action = \<lparr>action_tx = demo_tx, action_bid = Some \<lparr>total_profit = 10 ^ 6, bid_percentage = 50\<rparr>\<rparr>"

lemma demo_watch:
  "watch (recording demo_provider) h d (w, l) = (if w mod 4 = 3 then Watch_timeout else Watch_error ''gone'', (Suc w, l @ [Watched h]))"
  "send_transaction (recording demo_provider) tx (w, l) = (Answer w, (w, l @ [Sent tx (Answer w)]))"
  "estimate_gas (recording demo_provider) tx (w, l) = (Answer 21000, (w, l))"
  "estimate_eip1559_fees (recording demo_provider) (w, l) = (Answer \<lparr>est_max_fee = 30, est_max_priority_fee = 2\<rparr>, (w, l))"
  "pending_transaction_count (recording demo_provider) a (w, l) = (Answer 7, (w, l))"
  by (simp_all add: recording_def demo_provider_def)

lemma demo_unmined: "any_mined demo_provider hs w = (False, w)"
  by (induction hs) (simp_all add: demo_provider_def)

lemma demo_rewatch:
  assumes "w mod 4 \<noteq> 3" "transport_failures s < 3" "sent \<noteq> []"
  shows "send_loop (recording demo_provider) d tx sent h s (w, l) =
    send_loop (recording demo_provider) d tx sent (last sent) (s\<lparr>transport_failures := transport_failures s + 1\<rparr>)
      (Suc w, l @ [Watched h])"
proof -
  have "\<not> 3 < transport_failures s + 1"
    using unat_u32_Suc [OF assms(2)] assms(2) by (simp add: word_less_nat_alt)
  with assms have n: "schedule_next s (classify (if w mod 4 = 3 then Watch_timeout else Watch_error ''gone'' :: nat watch_result))
      = (Rewatch, s\<lparr>transport_failures := transport_failures s + 1\<rparr>)"
    by (simp add: MAX_TRANSPORT_FAILURES_def)
  show ?thesis unfolding send_loop_step [OF demo_watch(1) n] using assms by simp
qed

lemma demo_replace:
  assumes "w mod 4 = 3" "issued s < s_max_replacements s"
  shows "send_loop (recording demo_provider) d tx sent h s (w, l) =
    (let f = escalate (s_fees s) (s_percent s); tx = set_fees f tx in
     send_loop (recording demo_provider) d tx (sent @ [Suc w]) (Suc w)
       (s\<lparr>transport_failures := 0, issued := issued s + 1, s_fees := f\<rparr>) (Suc w, l @ [Watched h, Sent tx (Answer (Suc w))]))"
proof -
  have n: "schedule_next s (classify (if w mod 4 = 3 then Watch_timeout else Watch_error ''gone'' :: nat watch_result))
      = (let f = escalate (s_fees s) (s_percent s) in
         (Replace f, s\<lparr>transport_failures := 0, issued := issued s + 1, s_fees := f\<rparr>))"
    using assms by (simp add: schedule_escalate_def Let_def)
  show ?thesis unfolding send_loop_step [OF demo_watch(1) n [unfolded Let_def]] using assms by (simp add: demo_watch(2) Let_def)
qed

lemma demo_give_up:
  assumes "w mod 4 = 3" "s_max_replacements s \<le> issued s"
  shows "send_loop (recording demo_provider) d tx sent h s (w, l) =
    (Err (unconfirmed (issued s)), (Suc w, l @ [Watched h]))"
proof -
  have n: "schedule_next s (classify (if w mod 4 = 3 then Watch_timeout else Watch_error ''gone'' :: nat watch_result))
      = (GiveUp, s\<lparr>transport_failures := 0\<rparr>)"
    using assms by (simp add: schedule_escalate_def)
  show ?thesis unfolding send_loop_step [OF demo_watch(1) n] by (simp add: sweep_recording demo_unmined)
qed

lemma demo_loop:
  "\<exists>l. send_loop (recording demo_provider) d tx [0] 0 (schedule_new demo_replacement f) (0, [Sent tx0 (Answer 0)])
     = (Err (unconfirmed 1), (8, l)) \<and> watches l = 8"
  by (simp add: demo_rewatch demo_replace demo_give_up schedule_new_def demo_replacement_def Let_def)

lemma demo_priced: "price_1559 \<lparr>est_max_fee = 30, est_max_priority_fee = 2\<rparr> 21000 100
    (Some \<lparr>total_profit = 10 ^ 6, bid_percentage = 50\<rparr>) = Ok \<lparr>max_fee_per_gas = 23, max_priority_fee_per_gas = 2\<rparr>"
  by (simp add: price_1559_def scale_percent_def checked_mul_def clamped_def)

lemma demo_execute:
  "\<exists>l. mempool_execute (recording demo_provider) demo_mempool demo_action (0, []) = (Err (unconfirmed 1), (8, l)) \<and>
     watches l = 8"
proof -
  let ?f = "\<lparr>max_fee_per_gas = 23, max_priority_fee_per_gas = 2\<rparr> :: fees"
  let ?tx = "set_fees ?f (demo_tx\<lparr>tx_gas_limit := Some (gas_limit_with_headroom 21000)\<rparr>)"
  have "mempool_execute (recording demo_provider) demo_mempool demo_action (0, []) =
      send_with_replacement (recording demo_provider) ?tx ?f demo_replacement (0, [])"
    by (simp add: mempool_execute_def demo_action_def demo_watch demo_mempool_def mempool_new_def with_replacement_def
        demo_priced [simplified] Let_def)
  also have "\<dots> = send_loop (recording demo_provider) 10 (?tx\<lparr>tx_nonce := Some 7\<rparr>) [0] 0 (schedule_new demo_replacement ?f)
      (0, [Sent (?tx\<lparr>tx_nonce := Some 7\<rparr>) (Answer 0)])"
    by (simp add: send_with_replacement_def demo_watch Let_def demo_tx_def set_fees_def) (simp add: demo_replacement_def)
  finally show ?thesis using demo_loop by metis
qed

lemma submissions_bounded_witness:
  "\<exists>l w. mempool_execute (recording demo_provider) demo_mempool demo_action (0, []) = (Err (unconfirmed 1), (w, l)) \<and>
     length (sends l) \<le> 2 \<and> watches l \<le> 8"
proof -
  obtain l where run: "mempool_execute (recording demo_provider) demo_mempool demo_action (0, []) = (Err (unconfirmed 1), (8, l))"
    using demo_execute by blast
  have "length (sends l) \<le> 2 \<and> watches l \<le> 8"
    using submissions_bounded [OF run] by (simp add: demo_mempool_def with_replacement_def demo_replacement_def)
  with run show ?thesis by blast
qed

text \<open>
  Property C24: a failure is never reported over a mined transaction: when an action with a replacement
  policy fails after something was sent, the last thing it did was a sweep over the receipts of
  every hash it had been given, and every lookup came back unmined.
\<close>

theorem failure_is_swept:
  assumes "mempool_execute (recording C) me action (w, []) = (Err e, (w', l))" and "hashes l \<noteq> []"
  shows "\<exists>w0. any_mined C (hashes l) w0 = (False, w') \<and>
    (\<forall>h \<in> set (hashes l). \<exists>v. fst (transaction_receipt C h v) \<noteq> Answer True)"
proof -
  from execute_log [OF assms(1)] assms(2) obtain tx f policy v where
    "send_with_replacement (recording C) tx f policy (v, []) = (Err e, (w', l))"
    by (auto split: option.splits)
  from send_with_replacement_log [OF this] assms(2) obtain w0 where "any_mined C (hashes l) w0 = (False, w')"
    by (elim disjE exE conjE) auto
  with any_mined_False [of C "hashes l" w0 w'] show ?thesis by blast
qed

lemma failure_is_swept_witness:
  "\<exists>l w w0. mempool_execute (recording demo_provider) demo_mempool demo_action (0, []) = (Err (unconfirmed 1), (w, l)) \<and>
     any_mined demo_provider (hashes l) w0 = (False, w)"
proof -
  obtain l where run: "mempool_execute (recording demo_provider) demo_mempool demo_action (0, []) = (Err (unconfirmed 1), (8, l))"
    and w: "watches l = 8"
    using demo_execute by blast
  have "hashes l \<noteq> []"
  proof
    assume h: "hashes l = []"
    from execute_log [OF run] w obtain tx f v where s:
      "send_with_replacement (recording demo_provider) tx f demo_replacement (v, []) = (Err (unconfirmed 1), (8, l))"
      by (auto simp: demo_mempool_def with_replacement_def)
    then show False
      using h w by (auto simp: send_with_replacement_def demo_watch Let_def split: option.splits dest!: hashes_kept)
  qed
  from failure_is_swept [OF run this] run show ?thesis by blast
qed

text \<open>The transactions of a priced action: the gas limit, and the cap of each submission.\<close>

lemma execute_sends:
  assumes "mempool_execute (recording C) me action (w, []) = (r, (w', l))" and "sends l \<noteq> []"
  obtains est gas f percent where "fst (estimate_gas C (action_tx action) w) = Answer gas"
    "price_1559 est gas (priority_fee_bump_percent me) (action_bid action) = Ok f"
    "percent = (case replacement me of None \<Rightarrow> 100 | Some p \<Rightarrow> percent_get (policy_percent p))"
    "\<And>k. k < length (sends l) \<Longrightarrow> tx_gas_limit (sends l ! k) = Some (gas_limit_with_headroom gas) \<and>
       tx_max_fee (sends l ! k) = Some (max_fee_per_gas (escalated f percent k))"
proof -
  from execute_log [OF assms(1)] assms(2) obtain gas f tx est where gas: "fst (estimate_gas C (action_tx action) w) = Answer gas" and
    priced: "price_1559 est gas (priority_fee_bump_percent me) (action_bid action) = Ok f" and
    tx: "tx = set_fees f ((action_tx action)\<lparr>tx_gas_limit := Some (gas_limit_with_headroom gas)\<rparr>)" and
    run: "case replacement me of None \<Rightarrow> sends l = [tx] \<and> watches l = 0 \<and> (r = Ok () \<or> hashes l = [])
      | Some policy \<Rightarrow> \<exists>v. send_with_replacement (recording C) tx f policy (v, []) = (r, (w', l))"
    by auto
  show thesis
  proof (cases "replacement me")
    case None
    with that [OF gas priced] run tx show thesis by (simp add: set_fees_def)
  next
    case (Some policy)
    with run obtain v where "send_with_replacement (recording C) tx f policy (v, []) = (r, (w', l))" by auto
    from send_with_replacement_log [OF this] assms(2) obtain nonce m where m: "m \<le> unat (max_replacements policy)"
      "sends l = resubmissions (tx\<lparr>tx_nonce := Some nonce\<rparr>) f (percent_get (policy_percent policy)) m" by blast
    have "tx_gas_limit (sends l ! k) = Some (gas_limit_with_headroom gas) \<and>
        tx_max_fee (sends l ! k) = Some (max_fee_per_gas (escalated f (percent_get (policy_percent policy)) k))"
      if "k < length (sends l)" for k
      using that by (cases k) (simp_all add: m(2) resubmissions_def tx set_fees_def)
    with that [OF gas priced] Some m show thesis by (simp add: resubmissions_def)
  qed
qed

text \<open>Escalations that do not overflow compound exactly, up to rounding down.\<close>

lemma escalated_cap:
  assumes "fees_ok f" and "\<And>i. i < k \<Longrightarrow> unat (max_fee_per_gas f) * unat percent ^ Suc i < 2 ^ 128 * 100 ^ i"
  shows "fees_ok (escalated f percent k) \<and>
    100 ^ k * unat (max_fee_per_gas (escalated f percent k)) \<le> unat (max_fee_per_gas f) * unat percent ^ k"
  using assms(2)
proof (induction k)
  case 0
  with assms(1) show ?case by simp
next
  case (Suc k)
  let ?cap = "unat (max_fee_per_gas (escalated f percent k))"
  from Suc have ok: "fees_ok (escalated f percent k)" and IH: "100 ^ k * ?cap \<le> unat (max_fee_per_gas f) * unat percent ^ k" by auto
  then have step: "100 ^ k * (?cap * unat percent) \<le> unat (max_fee_per_gas f) * unat percent ^ Suc k"
    using mult_le_mono1 [OF IH, of "unat percent"] by (simp add: ac_simps)
  also have "\<dots> < 100 ^ k * 2 ^ 128" using Suc.prems [of k] by (simp add: mult.commute)
  finally have "?cap * unat percent < 2 ^ 128" by (simp only: mult_less_cancel1)
  then have "unat (max_fee_per_gas (escalated f percent (Suc k))) = ?cap * unat percent div 100"
    by (simp add: escalate_fields [OF ok] unat_scale_percent)
  then have "100 * unat (max_fee_per_gas (escalated f percent (Suc k))) \<le> ?cap * unat percent" by simp
  then have "100 ^ k * (100 * unat (max_fee_per_gas (escalated f percent (Suc k)))) \<le> 100 ^ k * (?cap * unat percent)"
    by (rule mult_le_mono2)
  also note step
  finally show ?case by (simp only: escalated_simps escalate_ok power_Suc mult.assoc mult.left_commute [of 100] simp_thms)
qed

lemma headroom_at_most: "5 * unat (gas_limit_with_headroom gas) \<le> 6 * unat gas"
proof -
  have "unat (gas_limit_with_headroom gas) \<le> unat gas + unat gas div 5"
    by (simp add: gas_limit_with_headroom_def unat_sat_add unat_div)
  moreover have "5 * (unat gas div 5) \<le> unat gas" by (rule times_div_less_eq_dividend)
  ultimately show ?thesis by linarith
qed

text \<open>
  Property C25: what a gas bid can cost. A bid over 100 percent is refused before any call to the
  provider. When transactions are sent for an accepted bid, and the bid's share of the profit,
  multiplied by the escalation percentage once per replacement sent, fits 128 bits: the cap of the first
  submission times the gas the provider estimated is at most the share, and so at most the profit;
  the cap of the k-th replacement times that gas is at most the share times (percentage / 100) to the
  k-th power, which for a high bid is more than the profit; and the gas limit of all of them is the
  same, at most six fifths of the estimate.
\<close>

theorem bid_prices_submissions:
  assumes "mempool_execute (recording C) me action (w, []) = (r, (w', l))" and "action_bid action = Some b"
    and "percent = (case replacement me of None \<Rightarrow> 100 | Some p \<Rightarrow> unat (percent_get (policy_percent p)))"
    and "\<forall>k < length (sends l). unat (total_profit b) * unat (bid_percentage b) * percent ^ k < 2 ^ 128"
  shows "(bid_percentage b > 100 \<longrightarrow> r = Err (over_bid (bid_percentage b)) \<and> w' = w \<and> l = []) \<and>
    (sends l \<noteq> [] \<longrightarrow> (\<exists>gas limit. fst (estimate_gas C (action_tx action) w) = Answer gas \<and> 5 * unat limit \<le> 6 * unat gas \<and>
       (\<forall>k < length (sends l). \<exists>cap. tx_gas_limit (sends l ! k) = Some limit \<and> tx_max_fee (sends l ! k) = Some cap \<and>
          100 ^ Suc k * (unat gas * unat cap) \<le> unat (total_profit b) * unat (bid_percentage b) * percent ^ k \<and>
          (k = 0 \<longrightarrow> unat gas * unat cap \<le> unat (total_profit b)))))"
proof (intro conjI impI)
  show "r = Err (over_bid (bid_percentage b))" "w' = w" "l = []" if "bid_percentage b > 100"
    using assms(1,2) that by (simp_all add: mempool_execute_def)
  show "\<exists>gas limit. fst (estimate_gas C (action_tx action) w) = Answer gas \<and> 5 * unat limit \<le> 6 * unat gas \<and>
       (\<forall>k < length (sends l). \<exists>cap. tx_gas_limit (sends l ! k) = Some limit \<and> tx_max_fee (sends l ! k) = Some cap \<and>
          100 ^ Suc k * (unat gas * unat cap) \<le> unat (total_profit b) * unat (bid_percentage b) * percent ^ k \<and>
          (k = 0 \<longrightarrow> unat gas * unat cap \<le> unat (total_profit b)))" if sent: "sends l \<noteq> []"
  proof -
    let ?share = "unat (total_profit b) * unat (bid_percentage b)"
    obtain est gas f p where gas: "fst (estimate_gas C (action_tx action) w) = Answer gas" and bid: "price_1559 est gas (priority_fee_bump_percent me) (action_bid action) = Ok f" and
      p: "p = (case replacement me of None \<Rightarrow> 100 | Some p \<Rightarrow> percent_get (policy_percent p))" and
      txs: "\<And>k. k < length (sends l) \<Longrightarrow> tx_gas_limit (sends l ! k) = Some (gas_limit_with_headroom gas) \<and>
       tx_max_fee (sends l ! k) = Some (max_fee_per_gas (escalated f p k))"
      by (rule execute_sends [OF assms(1) sent]) blast
    note priced = bid [unfolded assms(2)]
    have percent: "percent = unat p" using p assms(3) by (simp split: option.splits)
    have fits: "?share * percent ^ k < 2 ^ 128" if "k < length (sends l)" for k using assms(4) that by blast
    have "unat (total_profit b) div unat gas * unat (bid_percentage b) \<le> ?share" by (rule mult_le_mono1) simp
    also have "?share < 2 ^ 128" using fits [of 0] sent by simp
    finally have cost: "100 * (unat gas * unat (max_fee_per_gas f)) \<le> ?share" "unat gas * unat (max_fee_per_gas f) \<le> unat (total_profit b)"
      using bid_cost [OF priced] by blast+
    have "unat gas \<noteq> 0" using priced by (auto simp: price_1559_def Let_def unat_eq_0 split: if_splits)
    then have cap: "unat (max_fee_per_gas f) \<le> ?share" using cost(1) by (cases "unat gas") auto
    have escalated: "100 ^ k * unat (max_fee_per_gas (escalated f p k)) \<le> unat (max_fee_per_gas f) * percent ^ k"
      if k: "k < length (sends l)" for k
    proof -
      have "unat (max_fee_per_gas f) * percent ^ Suc i < 2 ^ 128 * 100 ^ i" if "i < k" for i
      proof -
        have "unat (max_fee_per_gas f) * percent ^ Suc i \<le> ?share * percent ^ Suc i" using cap by (rule mult_le_mono1)
        also have "\<dots> < 2 ^ 128" using fits [of "Suc i"] that k by simp
        also have "(2 ^ 128 :: nat) \<le> 2 ^ 128 * 100 ^ i" by simp
        finally show ?thesis .
      qed
      with escalated_cap [OF price_1559_ok [OF priced], of k p] show ?thesis by (simp add: percent)
    qed
    have "100 ^ Suc k * (unat gas * unat (max_fee_per_gas (escalated f p k))) \<le> ?share * percent ^ k" if "k < length (sends l)" for k
    proof -
      have "100 * unat gas * (100 ^ k * unat (max_fee_per_gas (escalated f p k))) \<le> 100 * unat gas * (unat (max_fee_per_gas f) * percent ^ k)"
        by (rule mult_le_mono2) (rule escalated [OF that])
      also have "\<dots> \<le> ?share * percent ^ k" using mult_le_mono1 [OF cost(1), of "percent ^ k"] by (simp add: ac_simps)
      finally show ?thesis by (simp add: ac_simps)
    qed
    with gas txs cost(2) headroom_at_most [of gas] show ?thesis
      by (intro exI [of _ gas] exI [of _ "gas_limit_with_headroom gas"]) auto
  qed
qed

text \<open>A bid of the whole profit, one million at 21000 gas: priced at 47 and replaced once, at 51.\<close>

definition full_bid :: "(nat, string) submit_tx" where
  "full_bid = \<lparr>action_tx = demo_tx, action_bid = Some \<lparr>total_profit = 10 ^ 6, bid_percentage = 100\<rparr>\<rparr>"

lemma full_bid_priced: "price_1559 \<lparr>est_max_fee = 30, est_max_priority_fee = 2\<rparr> 21000 100
    (Some \<lparr>total_profit = 10 ^ 6, bid_percentage = 100\<rparr>) = Ok \<lparr>max_fee_per_gas = 47, max_priority_fee_per_gas = 2\<rparr>"
  by (simp add: price_1559_def scale_percent_def checked_mul_def clamped_def)

lemma full_bid_run:
  "\<exists>l. mempool_execute (recording demo_provider) demo_mempool full_bid (0, []) = (Err (unconfirmed 1), (8, l)) \<and>
     map tx_max_fee (sends l) = [Some 47, Some 51]"
proof -
  let ?f = "\<lparr>max_fee_per_gas = 47, max_priority_fee_per_gas = 2\<rparr> :: fees"
  let ?tx = "set_fees ?f (demo_tx\<lparr>tx_gas_limit := Some (gas_limit_with_headroom 21000)\<rparr>)"
  have "mempool_execute (recording demo_provider) demo_mempool full_bid (0, []) =
      send_with_replacement (recording demo_provider) ?tx ?f demo_replacement (0, [])"
    by (simp add: mempool_execute_def full_bid_def demo_watch demo_mempool_def mempool_new_def with_replacement_def
        full_bid_priced [simplified] Let_def)
  also have "\<dots> = send_loop (recording demo_provider) 10 (?tx\<lparr>tx_nonce := Some 7\<rparr>) [0] 0 (schedule_new demo_replacement ?f)
      (0, [Sent (?tx\<lparr>tx_nonce := Some 7\<rparr>) (Answer 0)])"
    by (simp add: send_with_replacement_def demo_watch Let_def demo_tx_def set_fees_def) (simp add: demo_replacement_def)
  finally show ?thesis
    by (simp add: demo_rewatch demo_replace demo_give_up schedule_new_def demo_replacement_def Let_def set_fees_def
        escalate_def scale_percent_def checked_mul_def clamped_def)
qed

lemma bid_prices_submissions_witness:
  "\<exists>l w. mempool_execute (recording demo_provider) demo_mempool full_bid (0, []) = (Err (unconfirmed 1), (w, l)) \<and>
     map tx_max_fee (sends l) = [Some 47, Some 51] \<and>
     (\<forall>k < 2. \<exists>cap. tx_max_fee (sends l ! k) = Some cap \<and> 100 ^ Suc k * (21000 * unat cap) \<le> 10 ^ 8 * 110 ^ k \<and>
        (k = 0 \<longrightarrow> 21000 * unat cap \<le> 10 ^ 6))"
proof -
  obtain l where run: "mempool_execute (recording demo_provider) demo_mempool full_bid (0, []) = (Err (unconfirmed 1), (8, l))"
    and caps: "map tx_max_fee (sends l) = [Some 47, Some 51]" using full_bid_run by (elim exE conjE)
  from caps have two: "length (sends l) = 2" by (metis length_map length_Cons list.size(3) numeral_2_eq_2)
  have bid: "action_bid full_bid = Some \<lparr>total_profit = 10 ^ 6, bid_percentage = 100\<rparr>" by (simp add: full_bid_def)
  have percent: "110 = (case replacement demo_mempool of None \<Rightarrow> 100 | Some p \<Rightarrow> unat (percent_get (policy_percent p)))"
    by (simp add: demo_mempool_def with_replacement_def demo_replacement_def)
  have fits: "\<forall>k < length (sends l). unat (total_profit \<lparr>total_profit = 10 ^ 6, bid_percentage = 100\<rparr>) *
      unat (bid_percentage \<lparr>total_profit = 10 ^ 6, bid_percentage = 100\<rparr>) * 110 ^ k < 2 ^ 128"
    by (auto simp: two less_2_cases_iff)
  have gas: "fst (estimate_gas demo_provider (action_tx full_bid) 0) = Answer 21000" by (simp add: demo_provider_def)
  have sent: "sends l \<noteq> []" using two by auto
  from bid_prices_submissions [OF run bid percent fits] sent gas
  have "\<forall>k < 2. \<exists>cap. tx_max_fee (sends l ! k) = Some cap \<and> 100 ^ Suc k * (21000 * unat cap) \<le> 10 ^ 8 * 110 ^ k \<and>
        (k = 0 \<longrightarrow> 21000 * unat cap \<le> 10 ^ 6)" unfolding two by auto
  with run caps show ?thesis by (intro exI [of _ l] exI [of _ "8 :: nat"] conjI)
qed

text \<open>
  Property C26: with a percentage that \<open>EscalationPercent\<close> accepts, an escalation keeps the pair valid
  and never lowers a field; each field rises by ten percent up to the rounding of one unit, or has
  reached the largest fee, and every field from 10 on rises strictly.
\<close>

theorem escalation_rises:
  assumes "escalation_percent_new percent = Ok p" and "fees_ok f" and "g = escalate f (percent_get p)"
  shows "fees_ok g \<and>
    (\<forall>(old, new) \<in> {(max_fee_per_gas f, max_fee_per_gas g), (max_priority_fee_per_gas f, max_priority_fee_per_gas g)}.
       old \<le> new \<and> (110 * unat old \<le> 100 * unat new + 99 \<or> new = max_val) \<and> (10 \<le> old \<and> old < max_val \<longrightarrow> old < new))"
proof -
  from assms(1) have "110 \<le> percent_get p"
    by (auto simp: escalation_percent_new_def MIN_PERCENT_def split: if_splits)
  note bump = scale_percent_bump [OF this]
  show ?thesis
    unfolding assms(3) escalate_fields [OF assms(2)] using bump by simp
qed

lemma escalation_rises_witness:
  "escalation_percent_new 112 = Ok (EscalationPercent 112) \<and>
     50 < max_fee_per_gas (escalate \<lparr>max_fee_per_gas = 50, max_priority_fee_per_gas = 9\<rparr> 112)"
proof -
  have p: "escalation_percent_new 112 = Ok (EscalationPercent 112)"
    by (simp add: escalation_percent_new_def MIN_PERCENT_def word_less_nat_alt)
  have ok: "fees_ok \<lparr>max_fee_per_gas = 50, max_priority_fee_per_gas = 9\<rparr>" by (simp add: fees_ok_def word_le_nat_alt)
  have "(10 :: u128) \<le> 50" "(50 :: u128) < max_val"
    by (simp_all add: word_le_nat_alt word_less_nat_alt unat_max_val)
  with escalation_rises [OF p ok refl] p show ?thesis by simp
qed

section \<open>What the comments promise and the code does not\<close>

text \<open>A fee below 10 is not raised at all by the minimal escalation.\<close>

lemma small_fee_stalls:
  "escalate \<lparr>max_fee_per_gas = 9, max_priority_fee_per_gas = 9\<rparr> 110 = \<lparr>max_fee_per_gas = 9, max_priority_fee_per_gas = 9\<rparr>"
  by (simp add: escalate_def clamped_def scale_percent_def checked_mul_def)

text \<open>Bidding the whole profit does not break even: the replacement's cap at the estimated gas costs more.\<close>

lemma full_bid_overspends:
  "\<exists>l w cap. mempool_execute (recording demo_provider) demo_mempool full_bid (0, []) = (Err (unconfirmed 1), (w, l)) \<and>
     tx_max_fee (last (sends l)) = Some cap \<and> estimate_gas demo_provider demo_tx 0 = (Answer 21000, 0) \<and>
     unat (total_profit (the (action_bid full_bid))) < 21000 * unat cap"
proof -
  obtain l where run: "mempool_execute (recording demo_provider) demo_mempool full_bid (0, []) = (Err (unconfirmed 1), (8, l))"
    and caps: "map tx_max_fee (sends l) = [Some 47, Some 51]" using full_bid_run by (elim exE conjE)
  from caps have "tx_max_fee (last (sends l)) = Some 51" by (cases "sends l" rule: rev_cases) auto
  with run show ?thesis
    by (intro exI [of _ l] exI [of _ 8] exI [of _ 51]) (simp add: demo_provider_def full_bid_def)
qed

text \<open>With one replacement allowed a stuck action can take eight confirmation watches, not two.\<close>

lemma watches_beyond_replacements:
  "\<exists>l w. mempool_execute (recording demo_provider) demo_mempool demo_action (0, []) = (Err (unconfirmed 1), (w, l)) \<and>
     max_replacements demo_replacement = 1 \<and> watches l = 8"
  using demo_execute by (auto simp: demo_replacement_def)

end
