(* ===== verification/Query.thy ===== *)
theory Query
  imports Event_Record Store
begin

text \<open>
  The SQL text of the persistence layer: the dialects (\<open>src/src/persistence/dialect.rs\<close>) and the
  statements composed over them (\<open>src/src/persistence/query.rs\<close>).
\<close>

section \<open>Dialects\<close>

text \<open>\<open>sqlx::Error\<close>: a database error carries a message and maybe an SQLSTATE.\<close>

datatype sqlx_error = Sqlx_database string "string option" | Sqlx_other string

record dialect =
  placeholder :: "nat \<Rightarrow> string"
  tiebreak :: string
  column_type :: "sql_type \<Rightarrow> string"
  progress_row_lock :: string
  is_undefined_table :: "sqlx_error \<Rightarrow> bool"
  is_undefined_column :: "sqlx_error \<Rightarrow> bool"
  is_duplicate_object :: "sqlx_error \<Rightarrow> bool"

fun message_contains :: "string \<Rightarrow> sqlx_error \<Rightarrow> bool" where
  "message_contains m (Sqlx_database msg code) = contains_str m msg"
| "message_contains m (Sqlx_other msg) = False"

fun code_in :: "string list \<Rightarrow> sqlx_error \<Rightarrow> bool" where
  "code_in cs (Sqlx_database msg code) = (case code of Some c \<Rightarrow> c \<in> set cs | None \<Rightarrow> False)"
| "code_in cs (Sqlx_other msg) = False"

text \<open>The trait's default methods.\<close>

definition dialect_defaults :: dialect where
  "dialect_defaults = \<lparr>placeholder = (\<lambda>n. []), tiebreak = [], column_type = sql_keyword, progress_row_lock = [],
     is_undefined_table = (\<lambda>e. False), is_undefined_column = (\<lambda>e. False), is_duplicate_object = (\<lambda>e. False)\<rparr>"

definition sqlite_dialect :: dialect where
  "sqlite_dialect = dialect_defaults\<lparr>
     placeholder := (\<lambda>n. ''?''), tiebreak := ''rowid'', column_type := sql_keyword,
     is_undefined_table := message_contains ''no such table'',
     is_undefined_column := message_contains ''no such column''\<rparr>"

fun pg_column_type :: "sql_type \<Rightarrow> string" where
  "pg_column_type SqlInteger = ''BIGINT''"
| "pg_column_type SqlReal = ''DOUBLE PRECISION''"
| "pg_column_type SqlText = ''TEXT''"
| "pg_column_type SqlBlob = ''BYTEA''"
| "pg_column_type SqlNumeric = ''TEXT''"

definition pg_dialect :: dialect where
  "pg_dialect = \<lparr>
     placeholder = (\<lambda>n. CHR ''$'' # dec_string n), tiebreak = ''ctid'', column_type = pg_column_type,
     progress_row_lock = '' FOR UPDATE'',
     is_undefined_table = code_in [''42P01''], is_undefined_column = code_in [''42703''],
     is_duplicate_object = code_in [''42P07'', ''42701'', ''23505'']\<rparr>"

section \<open>Statements\<close>

definition MIGRATION_SAVEPOINT_BEGIN :: string where
  "MIGRATION_SAVEPOINT_BEGIN = ''SAVEPOINT artemis_position_probe''"

definition MIGRATION_SAVEPOINT_RELEASE :: string where
  "MIGRATION_SAVEPOINT_RELEASE = ''RELEASE SAVEPOINT artemis_position_probe''"

definition MIGRATION_SAVEPOINT_ROLLBACK :: string where
  "MIGRATION_SAVEPOINT_ROLLBACK = ''ROLLBACK TO SAVEPOINT artemis_position_probe''"

definition insert_column_names :: "table_schema \<Rightarrow> string list" where
  "insert_column_names sch = BLOCK_NUMBER_COLUMN # map (\<lambda>c. quote_ident (col_name c)) (schema_columns sch)"

definition select_column_list :: "table_schema \<Rightarrow> string" where
  "select_column_list sch = join '', '' (map (\<lambda>c. quote_ident (col_name c)) (schema_columns sch))"

definition create_progress_table :: "dialect \<Rightarrow> string" where
  "create_progress_table D =
     ''CREATE TABLE IF NOT EXISTS '' @ PROGRESS_TABLE @ '' (table_name TEXT PRIMARY KEY, last_block ''
       @ column_type D SqlInteger @ '' NOT NULL, position TEXT NOT NULL)''"

definition add_position_column :: string where
  "add_position_column = ''ALTER TABLE '' @ PROGRESS_TABLE @ '' ADD COLUMN position TEXT''"

definition backfill_position_from_last_block :: string where
  "backfill_position_from_last_block =
     ''UPDATE '' @ PROGRESS_TABLE @ '' SET position = CAST(last_block AS TEXT) WHERE position IS NULL''"

definition probe_position_column :: string where
  "probe_position_column = ''SELECT position FROM '' @ PROGRESS_TABLE @ '' LIMIT 1''"

definition create_event_table :: "table_schema \<Rightarrow> dialect \<Rightarrow> string" where
  "create_event_table sch D =
     (let defs = (BLOCK_NUMBER_COLUMN @ '' '' @ column_type D SqlInteger @ '' NOT NULL'')
            # map (\<lambda>c. quote_ident (col_name c) @ '' '' @ column_type D (col_ty c)) (schema_columns sch)
      in ''CREATE TABLE IF NOT EXISTS '' @ quote_ident (schema_table sch) @ '' ('' @ join '', '' defs @ '')'')"

text \<open>The placeholders of one row's group, numbered on from the rows before it.\<close>

definition row_placeholders :: "dialect \<Rightarrow> nat \<Rightarrow> nat \<Rightarrow> string list" where
  "row_placeholders D width row = map (\<lambda>i. placeholder D (row * width + i)) [1..<Suc width]"

definition insert_statement :: "table_schema \<Rightarrow> dialect \<Rightarrow> nat \<Rightarrow> string" where
  "insert_statement sch D rows =
     (let names = insert_column_names sch;
          groups = join '', '' (map (\<lambda>row. ''('' @ join '', '' (row_placeholders D (length names) row) @ '')'') [0..<rows])
      in ''INSERT INTO '' @ quote_ident (schema_table sch) @ '' ('' @ join '', '' names @ '') VALUES '' @ groups)"

definition watermark_upsert :: "dialect \<Rightarrow> string" where
  "watermark_upsert D =
     ''INSERT INTO '' @ PROGRESS_TABLE @ '' (table_name, last_block, position) VALUES ('' @ placeholder D 1 @ '', ''
       @ placeholder D 2 @ '', '' @ placeholder D 3 @ '') ON CONFLICT (table_name) DO UPDATE SET ''
       @ ''last_block = excluded.last_block, position = excluded.position''"

definition locked_progress_select :: "dialect \<Rightarrow> string" where
  "locked_progress_select D =
     ''SELECT position FROM '' @ PROGRESS_TABLE @ '' WHERE table_name = '' @ placeholder D 1 @ progress_row_lock D"

definition stored_position_query :: "dialect \<Rightarrow> string" where
  "stored_position_query D =
     ''SELECT position FROM '' @ PROGRESS_TABLE @ '' WHERE table_name = '' @ placeholder D 1"

definition last_block_query :: "dialect \<Rightarrow> string" where
  "last_block_query D =
     ''SELECT last_block FROM '' @ PROGRESS_TABLE @ '' WHERE table_name = '' @ placeholder D 1"

definition replay_query :: "table_schema \<Rightarrow> dialect \<Rightarrow> string" where
  "replay_query sch D =
     ''SELECT '' @ select_column_list sch @ '' FROM '' @ quote_ident (schema_table sch) @ '' WHERE ''
       @ BLOCK_NUMBER_COLUMN @ '' <= '' @ placeholder D 1 @ '' ORDER BY '' @ BLOCK_NUMBER_COLUMN
       @ '' ASC, '' @ tiebreak D @ '' ASC''"

definition range_query :: "string \<Rightarrow> string option \<Rightarrow> dialect \<Rightarrow> string" where
  "range_query table sch D =
     (let block = quote_ident BLOCK_NUMBER_COLUMN;
          table_ref = (case sch of Some s \<Rightarrow> quote_ident s @ ''.'' @ quote_ident table | None \<Rightarrow> quote_ident table)
      in ''SELECT * FROM '' @ table_ref @ '' WHERE '' @ block @ '' BETWEEN '' @ placeholder D 1 @ '' AND ''
           @ placeholder D 2 @ '' ORDER BY '' @ block @ '' ASC, '' @ tiebreak D @ '' ASC LIMIT ''
           @ placeholder D 3 @ '' OFFSET '' @ placeholder D 4)"

definition check_row_shape :: "table_schema \<Rightarrow> row \<Rightarrow> store_error + unit" where
  "check_row_shape sch r =
     (if length r \<noteq> length (schema_columns sch)
      then Err (RowShape (schema_table sch) (length r) (length (schema_columns sch))) else Ok ())"

text \<open>The cells of a row, each by its column's index and type; the first failure ends the loop.\<close>

definition decode_row :: "('r \<Rightarrow> nat \<Rightarrow> sql_type \<Rightarrow> store_error + sql_value) \<Rightarrow> table_schema \<Rightarrow> 'r \<Rightarrow> store_error + row" where
  "decode_row dec sch r = collect_res (map (\<lambda>(idx, c). dec r idx (col_ty c)) (enumerate 0 (schema_columns sch)))"

definition collect_rows ::
  "'r list \<Rightarrow> table_schema \<Rightarrow> ('r \<Rightarrow> nat \<Rightarrow> sql_type \<Rightarrow> store_error + sql_value) \<Rightarrow> store_error + row list" where
  "collect_rows rows sch dec = collect_res (map (decode_row dec sch) rows)"

section \<open>The shape of the insert\<close>

definition BIND_PARAM_CAP :: nat where
  "BIND_PARAM_CAP = 999"

definition rows_per_chunk :: "nat \<Rightarrow> nat" where
  "rows_per_chunk params_per_row = max (BIND_PARAM_CAP div max params_per_row 1) 1"

lemma rows_per_chunk_pos [simp]: "0 < rows_per_chunk n"
  by (simp add: rows_per_chunk_def)

lemma rows_per_chunk_cap:
  assumes "m \<le> rows_per_chunk w" "0 < w"
  shows "m * w \<le> BIND_PARAM_CAP \<or> m \<le> 1"
proof (cases "w \<le> BIND_PARAM_CAP")
  case True
  have "1 \<le> BIND_PARAM_CAP div w" using True assms(2) by (simp add: Suc_le_eq div_greater_zero_iff)
  moreover have "max w 1 = w" using assms(2) by simp
  ultimately have "m \<le> BIND_PARAM_CAP div w" using assms(1) by (simp add: rows_per_chunk_def)
  then have "m * w \<le> BIND_PARAM_CAP div w * w" by (rule mult_le_mono1)
  also have "\<dots> \<le> BIND_PARAM_CAP" by (rule div_times_less_eq_dividend)
  finally show ?thesis by simp
next
  case False
  then have "BIND_PARAM_CAP div w = 0" by simp
  with assms show ?thesis by (simp add: rows_per_chunk_def)
qed

text \<open>Concatenated, the groups of an insert number their placeholders from one, without a hole.\<close>

lemma insert_placeholders:
  "concat (map (row_placeholders D width) [0..<rows]) = map (placeholder D) [1..<Suc (rows * width)]"
proof (induction rows)
  case (Suc rows)
  have "row_placeholders D width rows = map (placeholder D) (map (\<lambda>i. rows * width + i) [1..<Suc width])"
    by (simp add: row_placeholders_def)
  also have "map (\<lambda>i. rows * width + i) [1..<Suc width] = [Suc (rows * width)..<Suc (rows * width + width)]"
    by (rule nth_equalityI) (auto simp: nth_append simp del: upt_Suc)
  finally have "row_placeholders D width rows = map (placeholder D) [Suc (rows * width)..<Suc (rows * width + width)]" .
  moreover have "[1..<Suc (Suc rows * width)] = [1..<Suc (rows * width)] @ [Suc (rows * width)..<Suc (rows * width + width)]"
    using upt_add_eq_append [of 1 "Suc (rows * width)" width] by (simp add: add.commute del: upt_Suc)
  ultimately show ?case using Suc by (simp del: upt_Suc) (simp add: upt_Suc)
qed simp

text \<open>The table an insert or a creation names is the one of the schema, whatever characters it has.\<close>

lemma names_table:
  assumes "st = pre @ quote_ident t @ rest" and "hd rest \<noteq> dquote"
  shows "read_ident (drop (length pre) st) = Some (t, drop (length (pre @ quote_ident t)) st)"
  using assms by (simp add: read_ident_quote)

lemma insert_names_table:
  "read_ident (drop (length ''INSERT INTO '') (insert_statement sch D n)) =
     Some (schema_table sch, drop (length (''INSERT INTO '' @ quote_ident (schema_table sch))) (insert_statement sch D n))"
  by (rule names_table, simp only: insert_statement_def Let_def) (simp_all add: dquote_def)

lemma create_names_table:
  "read_ident (drop (length ''CREATE TABLE IF NOT EXISTS '') (create_event_table sch D)) =
     Some (schema_table sch, drop (length (''CREATE TABLE IF NOT EXISTS '' @ quote_ident (schema_table sch))) (create_event_table sch D))"
  by (rule names_table, simp only: create_event_table_def Let_def) (simp_all add: dquote_def)

lemma replay_names_table:
  "read_ident (drop (length (''SELECT '' @ select_column_list sch @ '' FROM '')) (replay_query sch D)) =
     Some (schema_table sch, drop (length (''SELECT '' @ select_column_list sch @ '' FROM '' @ quote_ident (schema_table sch)))
       (replay_query sch D))"
  by (rule names_table [of _ "''SELECT '' @ select_column_list sch @ '' FROM ''", simplified append_assoc],
      simp only: replay_query_def append_assoc) (simp_all add: dquote_def)

end
