(* ===== verification/Sql_Store.thy ===== *)
theory Sql_Store
  imports Query
begin

text \<open>
  The SQL store (\<open>src/src/persistence/sqlstore.rs\<close>): one write transaction per call, with the lazy
  migration of old archives, the chunked inserts and the watermark kept in Rust.

  The database (sqlx and the engine behind it) is a dictionary: \<open>begin\<close>, statements in a
  transaction, \<open>commit\<close>, and reads on the pool; dropping a transaction is not committing it. A
  statement is a value of \<open>stmt\<close>; \<open>stmt_text\<close> is the text the code sends for it.
\<close>

section \<open>The database\<close>

datatype stmt =
    Create_progress
  | Create_event table_schema
  | Savepoint_begin
  | Savepoint_release
  | Savepoint_rollback
  | Probe_position
  | Add_position
  | Backfill_position
  | Insert_rows table_schema nat
  | Locked_select
  | Watermark_upsert
  | Stored_position
  | Last_block
  | Replay_rows table_schema

fun stmt_text :: "dialect \<Rightarrow> stmt \<Rightarrow> string" where
  "stmt_text D Create_progress = create_progress_table D"
| "stmt_text D (Create_event sch) = create_event_table sch D"
| "stmt_text D Savepoint_begin = MIGRATION_SAVEPOINT_BEGIN"
| "stmt_text D Savepoint_release = MIGRATION_SAVEPOINT_RELEASE"
| "stmt_text D Savepoint_rollback = MIGRATION_SAVEPOINT_ROLLBACK"
| "stmt_text D Probe_position = probe_position_column"
| "stmt_text D Add_position = add_position_column"
| "stmt_text D Backfill_position = backfill_position_from_last_block"
| "stmt_text D (Insert_rows sch n) = insert_statement sch D n"
| "stmt_text D Locked_select = locked_progress_select D"
| "stmt_text D Watermark_upsert = watermark_upsert D"
| "stmt_text D Stored_position = stored_position_query D"
| "stmt_text D Last_block = last_block_query D"
| "stmt_text D (Replay_rows sch) = replay_query sch D"

text \<open>A fetched row is the list of its cells.\<close>

type_synonym db_row = "sql_value list"

record ('d, 't) database =
  db_begin :: "'d \<Rightarrow> (sqlx_error + 't) \<times> 'd"
  db_exec :: "stmt \<Rightarrow> sql_value list \<Rightarrow> 't \<Rightarrow> (sqlx_error + db_row list) \<times> 't"
  db_commit :: "'t \<Rightarrow> 'd \<Rightarrow> (sqlx_error + unit) \<times> 'd"
  db_read :: "stmt \<Rightarrow> sql_value list \<Rightarrow> 'd \<Rightarrow> sqlx_error + db_row list"

record 'd sql_store =
  pool :: 'd
  migration_checked :: bool

definition sql_store_new :: "'d \<Rightarrow> 'd sql_store" where
  "sql_store_new d = \<lparr>pool = d, migration_checked = False\<rparr>"

section \<open>Errors, keys and cells\<close>

fun sqlx_message :: "sqlx_error \<Rightarrow> string" where
  "sqlx_message (Sqlx_database m c) = m"
| "sqlx_message (Sqlx_other m) = m"

definition backend :: "sqlx_error \<Rightarrow> store_error" where
  "backend e = Backend (sqlx_message e)"

definition classify_ddl :: "dialect \<Rightarrow> sqlx_error \<Rightarrow> store_error" where
  "classify_ddl D e = (if is_duplicate_object D e then DdlRaceError (sqlx_message e) else backend e)"

definition sort_key_to_i64 :: "u64 \<Rightarrow> store_error + i64" where
  "sort_key_to_i64 key = (if int (unat key) \<le> i64_max then Ok (int (unat key)) else Err (KeyTooLarge key))"

definition wrong_cell :: store_error where
  "wrong_cell = Backend ''mismatched types''"

text \<open>\<open>try_get\<close> at a type: a cell of another type, or NULL where none is allowed, is an error.\<close>

fun get_opt_text :: "sql_value \<Rightarrow> store_error + string option" where
  "get_opt_text Null = Ok None"
| "get_opt_text (Text s) = Ok (Some s)"
| "get_opt_text _ = Err wrong_cell"

fun get_opt_i64 :: "sql_value \<Rightarrow> store_error + i64 option" where
  "get_opt_i64 Null = Ok None"
| "get_opt_i64 (Integer i) = Ok (Some i)"
| "get_opt_i64 _ = Err wrong_cell"

definition cell :: "db_row \<Rightarrow> nat \<Rightarrow> sql_value" where
  "cell r idx = (if idx < length r then r ! idx else Null)"

definition decode_value :: "db_row \<Rightarrow> nat \<Rightarrow> sql_type \<Rightarrow> store_error + sql_value" where
  "decode_value r idx ty =
     (case (ty, cell r idx) of
        (SqlInteger, Integer i) \<Rightarrow> Ok (Integer i)
      | (SqlReal, Real x) \<Rightarrow> Ok (Real x)
      | (SqlText, Text s) \<Rightarrow> Ok (Text s)
      | (SqlNumeric, Text s) \<Rightarrow> Ok (Text s)
      | (SqlBlob, Blob b) \<Rightarrow> Ok (Blob b)
      | _ \<Rightarrow> Err wrong_cell)"

section \<open>Steps of a transaction\<close>

type_synonym ('t, 'a) tx = "'t \<Rightarrow> (store_error + 'a) \<times> 't"

definition tx_return :: "'a \<Rightarrow> ('t, 'a) tx" where
  "tx_return a t = (Ok a, t)"

definition tx_lift :: "store_error + 'a \<Rightarrow> ('t, 'a) tx" where
  "tx_lift r t = (r, t)"

text \<open>The \<open>?\<close> between two steps.\<close>

definition tx_bind :: "('t, 'a) tx \<Rightarrow> ('a \<Rightarrow> ('t, 'b) tx) \<Rightarrow> ('t, 'b) tx" where
  "tx_bind f g t = (case f t of (Err e, t') \<Rightarrow> (Err e, t') | (Ok a, t') \<Rightarrow> g a t')"

definition tx_exec :: "('d, 't) database \<Rightarrow> (sqlx_error \<Rightarrow> store_error) \<Rightarrow> stmt \<Rightarrow> sql_value list \<Rightarrow> ('t, db_row list) tx" where
  "tx_exec DB fail st args t = (case db_exec DB st args t of (Err e, t') \<Rightarrow> (Err (fail e), t') | (Ok rows, t') \<Rightarrow> (Ok rows, t'))"

definition create_tables :: "dialect \<Rightarrow> ('d, 't) database \<Rightarrow> table_schema \<Rightarrow> ('t, unit) tx" where
  "create_tables D DB sch =
     tx_bind (tx_exec DB (classify_ddl D) Create_progress []) (\<lambda>_.
     tx_bind (tx_exec DB (classify_ddl D) (Create_event sch) []) (\<lambda>_.
     tx_return ()))"

definition migrate_if_needed :: "dialect \<Rightarrow> ('d, 't) database \<Rightarrow> bool \<Rightarrow> ('t, unit) tx" where
  "migrate_if_needed D DB checked =
     (if checked then tx_return ()
      else
        tx_bind (tx_exec DB backend Savepoint_begin []) (\<lambda>_ t.
          (case db_exec DB Probe_position [] t of
             (Ok _, t') \<Rightarrow> tx_bind (tx_exec DB backend Savepoint_release []) (\<lambda>_. tx_return ()) t'
           | (Err e, t') \<Rightarrow>
               if is_undefined_column D e then
                 tx_bind (tx_exec DB backend Savepoint_rollback []) (\<lambda>_.
                 tx_bind (tx_exec DB backend Savepoint_release []) (\<lambda>_.
                 tx_bind (tx_exec DB (classify_ddl D) Add_position []) (\<lambda>_.
                 tx_bind (tx_exec DB backend Backfill_position []) (\<lambda>_.
                 tx_return ())))) t'
               else (Err (backend e), t'))))"

text \<open>The rows of one chunk: each checked, then bound behind the sort key.\<close>

fun chunk_args :: "table_schema \<Rightarrow> i64 \<Rightarrow> row list \<Rightarrow> store_error + sql_value list" where
  "chunk_args sch key [] = Ok []"
| "chunk_args sch key (r # rs) =
     bind_res (check_row_shape sch r) (\<lambda>_.
     bind_res (chunk_args sch key rs) (\<lambda>args. Ok (Integer key # r @ args)))"

fun insert_chunks :: "('d, 't) database \<Rightarrow> table_schema \<Rightarrow> i64 \<Rightarrow> row list list \<Rightarrow> ('t, unit) tx" where
  "insert_chunks DB sch key [] = tx_return ()"
| "insert_chunks DB sch key (chunk # rest) =
     tx_bind (tx_lift (chunk_args sch key chunk)) (\<lambda>args.
     tx_bind (tx_exec DB backend (Insert_rows sch (length chunk)) args) (\<lambda>_.
     insert_chunks DB sch key rest))"

definition insert_rows :: "('d, 't) database \<Rightarrow> table_schema \<Rightarrow> i64 \<Rightarrow> row list \<Rightarrow> ('t, unit) tx" where
  "insert_rows DB sch key rows =
     (let params_per_row = 1 + length (schema_columns sch)
      in insert_chunks DB sch key (chunks (rows_per_chunk params_per_row) rows))"

definition map_err :: "('e \<Rightarrow> 'f) \<Rightarrow> 'e + 'a \<Rightarrow> 'f + 'a" where
  "map_err f r = (case r of Err e \<Rightarrow> Err (f e) | Ok a \<Rightarrow> Ok a)"

definition previous_position :: "'p position_ops \<Rightarrow> db_row list \<Rightarrow> store_error + 'p option" where
  "previous_position P fetched =
     (case fetched of
        [] \<Rightarrow> Ok None
      | r # _ \<Rightarrow>
          bind_res (get_opt_text (cell r 0)) (\<lambda>encoded.
            case encoded of
              None \<Rightarrow> Ok None
            | Some text \<Rightarrow> bind_res (map_err BadPosition (decode_position P text)) (\<lambda>p. Ok (Some p))))"

definition advance_watermark ::
  "'p position_ops \<Rightarrow> ('d, 't) database \<Rightarrow> table_schema \<Rightarrow> 'p \<Rightarrow> ('t, unit) tx" where
  "advance_watermark P DB sch position =
     tx_bind (tx_exec DB backend Locked_select [Text (schema_table sch)]) (\<lambda>fetched.
     tx_bind (tx_lift (previous_position P fetched)) (\<lambda>prev.
     let next = advance P prev position in
     tx_bind (tx_lift (sort_key_to_i64 (sort_key P next))) (\<lambda>next_key.
     tx_bind (tx_exec DB backend Watermark_upsert
       [Text (schema_table sch), Integer next_key, Text (encode_position P next)]) (\<lambda>_.
     tx_return ()))))"

section \<open>The store\<close>

definition write_steps ::
  "'p position_ops \<Rightarrow> dialect \<Rightarrow> ('d, 't) database \<Rightarrow> bool \<Rightarrow> table_schema \<Rightarrow> 'p \<Rightarrow> row list \<Rightarrow> ('t, unit) tx" where
  "write_steps P D DB checked sch position rows =
     tx_bind (create_tables D DB sch) (\<lambda>_.
     tx_bind (migrate_if_needed D DB checked) (\<lambda>_.
     tx_bind (tx_lift (sort_key_to_i64 (sort_key P position))) (\<lambda>key.
     tx_bind (insert_rows DB sch key rows) (\<lambda>_.
     advance_watermark P DB sch position))))"

definition write_once ::
  "'p position_ops \<Rightarrow> dialect \<Rightarrow> ('d, 't) database \<Rightarrow> table_schema \<Rightarrow> 'p \<Rightarrow> row list \<Rightarrow> 'd sql_store
     \<Rightarrow> (store_error + unit) \<times> 'd sql_store" where
  "write_once P D DB sch position rows st =
     (case db_begin DB (pool st) of
        (Err e, d) \<Rightarrow> (Err (backend e), st\<lparr>pool := d\<rparr>)
      | (Ok t, d) \<Rightarrow>
          (case write_steps P D DB (migration_checked st) sch position rows t of
             (Err e, t') \<Rightarrow> (Err e, st\<lparr>pool := d\<rparr>)
           | (Ok _, t') \<Rightarrow>
               (case db_commit DB t' d of
                  (Err e, d') \<Rightarrow> (Err (backend e), st\<lparr>pool := d'\<rparr>)
                | (Ok _, d') \<Rightarrow> (Ok (), st\<lparr>pool := d', migration_checked := True\<rparr>))))"

definition sql_write ::
  "'p position_ops \<Rightarrow> dialect \<Rightarrow> ('d, 't) database \<Rightarrow> table_schema \<Rightarrow> 'p \<Rightarrow> row list \<Rightarrow> 'd sql_store
     \<Rightarrow> (store_error + unit) \<times> 'd sql_store" where
  "sql_write P D DB sch position rows st =
     (case write_once P D DB sch position rows st of
        (Err (DdlRaceError m), st') \<Rightarrow> write_once P D DB sch position rows st'
      | result \<Rightarrow> result)"

definition resume_from_last_block ::
  "'p position_ops \<Rightarrow> dialect \<Rightarrow> ('d, 't) database \<Rightarrow> string \<Rightarrow> 'd \<Rightarrow> store_error + 'p option" where
  "resume_from_last_block P D DB table d =
     (case db_read DB Last_block [Text table] d of
        Err e \<Rightarrow> if is_undefined_table D e then Ok None else Err (backend e)
      | Ok [] \<Rightarrow> Ok None
      | Ok (r # _) \<Rightarrow>
          bind_res (get_opt_i64 (cell r 0)) (\<lambda>last_block.
            case last_block of
              Some b \<Rightarrow> bind_res (map_err BadPosition (decode_position P (i64_to_string b))) (\<lambda>p. Ok (Some p))
            | None \<Rightarrow> Err (CorruptProgress table)))"

definition sql_stored_position ::
  "'p position_ops \<Rightarrow> dialect \<Rightarrow> ('d, 't) database \<Rightarrow> string \<Rightarrow> 'd sql_store \<Rightarrow> store_error + 'p option" where
  "sql_stored_position P D DB table st =
     (case db_read DB Stored_position [Text table] (pool st) of
        Ok [] \<Rightarrow> Ok None
      | Ok (r # _) \<Rightarrow>
          bind_res (get_opt_text (cell r 0)) (\<lambda>encoded.
            case encoded of
              Some text \<Rightarrow> bind_res (map_err BadPosition (decode_position P text)) (\<lambda>p. Ok (Some p))
            | None \<Rightarrow> resume_from_last_block P D DB table (pool st))
      | Err e \<Rightarrow>
          if is_undefined_table D e then Ok None
          else if is_undefined_column D e then resume_from_last_block P D DB table (pool st)
          else Err (backend e))"

definition sql_replay ::
  "'p position_ops \<Rightarrow> dialect \<Rightarrow> ('d, 't) database \<Rightarrow> table_schema \<Rightarrow> 'p \<Rightarrow> 'd sql_store \<Rightarrow> store_error + row list" where
  "sql_replay P D DB sch up_to st =
     bind_res (sort_key_to_i64 (sort_key P up_to)) (\<lambda>key.
       (case db_read DB (Replay_rows sch) [Integer key] (pool st) of
          Err e \<Rightarrow> if is_undefined_table D e then Ok [] else Err (backend e)
        | Ok rows \<Rightarrow> collect_rows rows sch decode_value))"

definition sql_store :: "'p position_ops \<Rightarrow> dialect \<Rightarrow> ('d, 't) database \<Rightarrow> ('p, 'd sql_store) store_ops" where
  "sql_store P D DB = \<lparr>
     store_write = sql_write P D DB,
     stored_position = sql_stored_position P D DB,
     store_replay = sql_replay P D DB\<rparr>"

end
