(* ===== verification/Sql_Contract.thy ===== *)
theory Sql_Contract
  imports Sql_Store
begin

text \<open>
  What the SQL store relies on of a database, as a locale of documented SQL behaviour over an
  abstract archive, and the proof that the store over any such database keeps the \<open>Store\<close> contract.

  The archive abstracts an event table to the sort key and the payload cell of each row (the only
  cells replay reads back), and compares table names exactly. A transaction remembers its savepoint
  and whether a failed statement has left it unusable until a rollback to that savepoint.
\<close>

section \<open>Archives\<close>

record progress =
  has_position :: bool
  entries :: "string \<Rightarrow> (i64 option \<times> string option) option"

record archive =
  arc_progress :: "progress option"
  arc_tables :: "string \<Rightarrow> (i64 \<times> sql_value) list option"

record txn =
  tx_now :: archive
  tx_saved :: "archive option"
  tx_broken :: bool

definition empty_archive :: archive where
  "empty_archive = \<lparr>arc_progress = None, arc_tables = (\<lambda>t. None)\<rparr>"

fun opt_cell :: "('a \<Rightarrow> sql_value) \<Rightarrow> 'a option \<Rightarrow> sql_value" where
  "opt_cell f None = Null"
| "opt_cell f (Some a) = f a"

definition position_rows :: "progress \<Rightarrow> string \<Rightarrow> db_row list" where
  "position_rows pr t = (case entries pr t of None \<Rightarrow> [] | Some (lb, pos) \<Rightarrow> [[opt_cell Text pos]])"

definition last_block_rows :: "progress \<Rightarrow> string \<Rightarrow> db_row list" where
  "last_block_rows pr t = (case entries pr t of None \<Rightarrow> [] | Some (lb, pos) \<Rightarrow> [[opt_cell Integer lb]])"

definition created_progress :: "archive \<Rightarrow> archive" where
  "created_progress A = (case arc_progress A of
     None \<Rightarrow> A\<lparr>arc_progress := Some \<lparr>has_position = True, entries = (\<lambda>t. None)\<rparr>\<rparr> | Some _ \<Rightarrow> A)"

definition created_event :: "string \<Rightarrow> archive \<Rightarrow> archive" where
  "created_event t A = (if arc_tables A t = None \<and> t \<noteq> PROGRESS_TABLE
     then A\<lparr>arc_tables := (arc_tables A)(t \<mapsto> [])\<rparr> else A)"

definition with_position :: "progress \<Rightarrow> progress" where
  "with_position pr = pr\<lparr>has_position := True, entries := (\<lambda>t. map_option (\<lambda>(lb, pos). (lb, None)) (entries pr t))\<rparr>"

definition backfilled :: "progress \<Rightarrow> progress" where
  "backfilled pr = pr\<lparr>entries := (\<lambda>t. map_option
     (\<lambda>(lb, pos). (lb, case pos of None \<Rightarrow> map_option i64_to_string lb | Some e \<Rightarrow> Some e)) (entries pr t))\<rparr>"

definition group_row :: "table_schema \<Rightarrow> sql_value list \<Rightarrow> i64 \<times> sql_value" where
  "group_row sch g = ((case hd g of Integer k \<Rightarrow> k | _ \<Rightarrow> 0), Text (payload_text sch (tl g)))"

text \<open>What a successful statement returns and leaves. An insert of rows that do not fit may leave
  anything in its own table.\<close>

fun archive_step :: "stmt \<Rightarrow> sql_value list \<Rightarrow> archive \<Rightarrow> db_row list \<Rightarrow> archive \<Rightarrow> bool" where
  "archive_step Create_progress args A rows A' = (A' = created_progress A)"
| "archive_step (Create_event sch) args A rows A' = (A' = created_event (schema_table sch) A)"
| "archive_step Probe_position args A rows A' =
     (A' = A \<and> (\<exists>pr. arc_progress A = Some pr \<and> has_position pr))"
| "archive_step Add_position args A rows A' =
     (\<exists>pr. arc_progress A = Some pr \<and> \<not> has_position pr \<and> A' = A\<lparr>arc_progress := Some (with_position pr)\<rparr>)"
| "archive_step Backfill_position args A rows A' =
     (\<exists>pr. arc_progress A = Some pr \<and> has_position pr \<and> A' = A\<lparr>arc_progress := Some (backfilled pr)\<rparr>)"
| "archive_step (Insert_rows sch n) args A rows A' =
     (let groups = chunks (Suc (length (schema_columns sch))) args in
      \<exists>old new. arc_tables A (schema_table sch) = Some old \<and>
        A' = A\<lparr>arc_tables := (arc_tables A)(schema_table sch \<mapsto> old @ new)\<rparr> \<and>
        ((\<forall>g \<in> set groups. fits sch (tl g)) \<longrightarrow> new = map (group_row sch) groups))"
| "archive_step Locked_select args A rows A' =
     (A' = A \<and> (\<exists>pr t. arc_progress A = Some pr \<and> has_position pr \<and> args = [Text t] \<and> rows = position_rows pr t))"
| "archive_step Stored_position args A rows A' =
     (A' = A \<and> (\<exists>pr t. arc_progress A = Some pr \<and> has_position pr \<and> args = [Text t] \<and> rows = position_rows pr t))"
| "archive_step Last_block args A rows A' =
     (A' = A \<and> (\<exists>pr t. arc_progress A = Some pr \<and> args = [Text t] \<and> rows = last_block_rows pr t))"
| "archive_step Watermark_upsert args A rows A' =
     (\<exists>pr t k e. arc_progress A = Some pr \<and> has_position pr \<and> args = [Text t, Integer k, Text e] \<and>
        A' = A\<lparr>arc_progress := Some (pr\<lparr>entries := (entries pr)(t \<mapsto> (Some k, Some e))\<rparr>)\<rparr>)"
| "archive_step (Replay_rows sch) args A rows A' =
     (A' = A \<and> (sch = replay_schema (schema_table sch) \<longrightarrow>
        (\<exists>k old out. args = [Integer k] \<and> arc_tables A (schema_table sch) = Some old \<and>
           rows = map (\<lambda>kv. [snd kv]) out \<and> sorted (map fst out) \<and> mset out = mset (filter (\<lambda>kv. fst kv \<le> k) old))))"
| "archive_step _ args A rows A' = False"

fun sql_step :: "stmt \<Rightarrow> sql_value list \<Rightarrow> txn \<Rightarrow> db_row list \<Rightarrow> txn \<Rightarrow> bool" where
  "sql_step Savepoint_begin args T rows T' = (\<not> tx_broken T \<and> T' = T\<lparr>tx_saved := Some (tx_now T)\<rparr>)"
| "sql_step Savepoint_release args T rows T' = (\<not> tx_broken T \<and> T' = T\<lparr>tx_saved := None\<rparr>)"
| "sql_step Savepoint_rollback args T rows T' =
     (\<exists>A. tx_saved T = Some A \<and> T' = T\<lparr>tx_now := A, tx_broken := False\<rparr>)"
| "sql_step st args T rows T' = (\<not> tx_broken T \<and> (\<exists>A'. archive_step st args (tx_now T) rows A' \<and> T' = T\<lparr>tx_now := A'\<rparr>))"

section \<open>The laws of a database\<close>

locale sql_backend =
  fixes D :: dialect and DB :: "('d, 't) database" and view :: "'d \<Rightarrow> archive" and tview :: "'t \<Rightarrow> txn"
  assumes begin_ok: "db_begin DB d = (Ok t, d') \<Longrightarrow>
      view d' = view d \<and> tview t = \<lparr>tx_now = view d, tx_saved = None, tx_broken = False\<rparr>"
    and begin_err: "db_begin DB d = (Err e, d') \<Longrightarrow> view d' = view d"
    and exec_ok: "db_exec DB st args t = (Ok rows, t') \<Longrightarrow> \<not> tx_broken (tview t) \<or> st = Savepoint_rollback \<Longrightarrow>
      sql_step st args (tview t) rows (tview t')"
    and exec_err: "db_exec DB st args t = (Err e, t') \<Longrightarrow> tx_saved (tview t') = tx_saved (tview t)"
    and probe_err: "db_exec DB Probe_position args t = (Err e, t') \<Longrightarrow> is_undefined_column D e \<Longrightarrow> \<not> tx_broken (tview t) \<Longrightarrow>
      \<exists>pr. arc_progress (tx_now (tview t)) = Some pr \<and> \<not> has_position pr"
    and commit_ok: "db_commit DB t d = (Ok u, d') \<Longrightarrow> \<not> tx_broken (tview t) \<Longrightarrow> view d' = tx_now (tview t)"
    and commit_err: "db_commit DB t d = (Err e, d') \<Longrightarrow> view d' = view d"
    and read_ok: "db_read DB st args d = Ok rows \<Longrightarrow> archive_step st args (view d) rows (view d)"
    and read_missing_table: "db_read DB st args d = Err e \<Longrightarrow> is_undefined_table D e \<Longrightarrow>
      (case st of Replay_rows sch \<Rightarrow> arc_tables (view d) (schema_table sch) = None | _ \<Rightarrow> arc_progress (view d) = None)"
    and read_missing_column: "db_read DB Stored_position args d = Err e \<Longrightarrow> is_undefined_column D e \<Longrightarrow>
      \<exists>pr. arc_progress (view d) = Some pr \<and> \<not> has_position pr"

section \<open>What the store's contract observes\<close>

fun text_of :: "sql_value \<Rightarrow> string" where
  "text_of (Text j) = j"
| "text_of _ = []"

definition arc_contents :: "archive \<Rightarrow> string \<Rightarrow> stored_row list" where
  "arc_contents A t = (case arc_tables A t of None \<Rightarrow> [] | Some rows \<Rightarrow> map (\<lambda>(k, v). (k, text_of v)) rows)"

definition entry_text :: "progress \<Rightarrow> string \<Rightarrow> string option" where
  "entry_text pr t = (case entries pr t of None \<Rightarrow> None
     | Some (lb, pos) \<Rightarrow> if has_position pr then pos else map_option i64_to_string lb)"

definition decoded :: "'p position_ops \<Rightarrow> string option \<Rightarrow> 'p option" where
  "decoded P x = (case x of None \<Rightarrow> None | Some e \<Rightarrow> (case decode_position P e of Ok p \<Rightarrow> Some p | Err _ \<Rightarrow> None))"

definition arc_mark :: "'p position_ops \<Rightarrow> archive \<Rightarrow> string \<Rightarrow> 'p option" where
  "arc_mark P A t = (case arc_progress A of None \<Rightarrow> None | Some pr \<Rightarrow> decoded P (entry_text pr t))"

definition current :: "archive \<Rightarrow> bool" where
  "current A \<longleftrightarrow> (\<exists>pr. arc_progress A = Some pr \<and> has_position pr)"

text \<open>No progress row without a resume point: the position where the column exists, else the block.\<close>

definition archive_ok :: "archive \<Rightarrow> bool" where
  "archive_ok A \<longleftrightarrow> (\<forall>pr t. arc_progress A = Some pr \<longrightarrow> entries pr t \<noteq> None \<longrightarrow> entry_text pr t \<noteq> None)"

text \<open>The states of the store: a sound archive, of the current shape once a write has committed.\<close>

definition store_sound :: "('d \<Rightarrow> archive) \<Rightarrow> 'd sql_store \<Rightarrow> bool" where
  "store_sound view st \<longleftrightarrow> archive_ok (view (pool st)) \<and> (migration_checked st \<longrightarrow> current (view (pool st)))"

definition same_archive :: "'p position_ops \<Rightarrow> archive \<Rightarrow> archive \<Rightarrow> bool" where
  "same_archive P A A' \<longleftrightarrow> (\<forall>t. arc_contents A' t = arc_contents A t \<and> arc_mark P A' t = arc_mark P A t) \<and>
     archive_ok A' \<and> (current A \<longrightarrow> current A')"

lemma entry_text_upsert:
  "has_position pr \<Longrightarrow> entry_text (pr\<lparr>entries := (entries pr)(t \<mapsto> (b, Some e))\<rparr>) = (entry_text pr)(t \<mapsto> e)"
  by (auto simp: entry_text_def fun_eq_iff split: option.splits)

lemma same_archive_trans: "same_archive P A B \<Longrightarrow> same_archive P B C \<Longrightarrow> same_archive P A C"
  by (simp add: same_archive_def)

lemma same_archive_refl: "archive_ok A \<Longrightarrow> same_archive P A A"
  by (simp add: same_archive_def)

lemma created_progress_same: "archive_ok A \<Longrightarrow> same_archive P A (created_progress A) \<and> arc_progress (created_progress A) \<noteq> None"
  by (auto simp: same_archive_def created_progress_def arc_contents_def arc_mark_def archive_ok_def entry_text_def
      decoded_def current_def split: option.splits)

lemma created_event_same:
  "archive_ok A \<Longrightarrow> same_archive P A (created_event t A) \<and> arc_progress (created_event t A) = arc_progress A"
  by (auto simp: same_archive_def created_event_def arc_contents_def arc_mark_def archive_ok_def current_def)

lemma migrated_same:
  assumes "archive_ok A" "arc_progress A = Some pr" "\<not> has_position pr"
  shows "same_archive P A (A\<lparr>arc_progress := Some (backfilled (with_position pr))\<rparr>)
    \<and> current (A\<lparr>arc_progress := Some (backfilled (with_position pr))\<rparr>)"
proof -
  have "entry_text (backfilled (with_position pr)) t = entry_text pr t" for t
    using assms(3) by (auto simp: entry_text_def backfilled_def with_position_def split: option.splits)
  moreover have "entries (backfilled (with_position pr)) t \<noteq> None \<longleftrightarrow> entries pr t \<noteq> None" for t
    by (auto simp: backfilled_def with_position_def)
  moreover have "has_position (backfilled (with_position pr))"
    by (simp add: backfilled_def with_position_def)
  ultimately show ?thesis
    using assms by (auto simp: same_archive_def arc_contents_def arc_mark_def archive_ok_def current_def)
qed

section \<open>Reasoning about transactions\<close>

context sql_backend begin

definition holds :: "(txn \<Rightarrow> bool) \<Rightarrow> ('t, 'a) tx \<Rightarrow> ('a \<Rightarrow> txn \<Rightarrow> bool) \<Rightarrow> bool" where
  "holds pre f post \<longleftrightarrow> (\<forall>t a t'. pre (tview t) \<longrightarrow> f t = (Ok a, t') \<longrightarrow> post a (tview t'))"

lemma holds_return: "(\<And>T. pre T \<Longrightarrow> post a T) \<Longrightarrow> holds pre (tx_return a) post"
  by (simp add: holds_def tx_return_def)

lemma holds_lift: "(\<And>T a. pre T \<Longrightarrow> r = Ok a \<Longrightarrow> post a T) \<Longrightarrow> holds pre (tx_lift r) post"
  by (simp add: holds_def tx_lift_def)

lemma holds_bind:
  assumes "holds pre f mid" "\<And>a. holds (mid a) (g a) post"
  shows "holds pre (tx_bind f g) post"
  unfolding holds_def
proof (intro allI impI)
  fix t b t' assume pre: "pre (tview t)" and run: "tx_bind f g t = (Ok b, t')"
  then obtain a t1 where "f t = (Ok a, t1)" "g a t1 = (Ok b, t')"
    by (auto simp: tx_bind_def split: prod.splits sum.splits)
  with assms pre show "post b (tview t')" unfolding holds_def by blast
qed

lemma holds_exec:
  assumes "\<And>T. pre T \<Longrightarrow> \<not> tx_broken T \<or> st = Savepoint_rollback"
    and "\<And>T rows T'. pre T \<Longrightarrow> sql_step st args T rows T' \<Longrightarrow> post rows T'"
  shows "holds pre (tx_exec DB fail st args) post"
  unfolding holds_def
proof (intro allI impI)
  fix t rows t' assume pre: "pre (tview t)" and "tx_exec DB fail st args t = (Ok rows, t')"
  then have "db_exec DB st args t = (Ok rows, t')" by (auto simp: tx_exec_def split: prod.splits sum.splits)
  from exec_ok [OF this assms(1) [OF pre]] assms(2) [OF pre] show "post rows (tview t')" by blast
qed

lemma holds_weaken: "holds pre f post \<Longrightarrow> (\<And>T. pre' T \<Longrightarrow> pre T) \<Longrightarrow> (\<And>a T. post a T \<Longrightarrow> post' a T) \<Longrightarrow> holds pre' f post'"
  unfolding holds_def by blast

text \<open>A usable transaction whose archive looks to the store like \<open>A\<close>.\<close>

definition like :: "'p position_ops \<Rightarrow> archive \<Rightarrow> txn \<Rightarrow> bool" where
  "like P A T \<longleftrightarrow> \<not> tx_broken T \<and> same_archive P A (tx_now T)"

lemma like_ok: "like P A T \<Longrightarrow> archive_ok (tx_now T)"
  by (simp add: like_def same_archive_def)

lemma create_tables_like:
  "holds (like P A) (create_tables D DB sch) (\<lambda>_ T. like P A T \<and> arc_progress (tx_now T) \<noteq> None)"
  unfolding create_tables_def
proof (rule holds_bind [where mid = "\<lambda>_ T. like P A T \<and> arc_progress (tx_now T) \<noteq> None"])
  show "holds (like P A) (tx_exec DB (classify_ddl D) Create_progress []) (\<lambda>_ T. like P A T \<and> arc_progress (tx_now T) \<noteq> None)"
  proof (rule holds_exec)
    fix T rows T' assume T: "like P A T" and "sql_step Create_progress [] T rows T'"
    then have "T' = T\<lparr>tx_now := created_progress (tx_now T)\<rparr>" by simp
    with created_progress_same [OF like_ok [OF T], of P] T show "like P A T' \<and> arc_progress (tx_now T') \<noteq> None"
      by (auto simp: like_def intro: same_archive_trans)
  qed (simp add: like_def)
  show "holds (\<lambda>T. like P A T \<and> arc_progress (tx_now T) \<noteq> None)
      (tx_bind (tx_exec DB (classify_ddl D) (Create_event sch) []) (\<lambda>_. tx_return ()))
      (\<lambda>_ T. like P A T \<and> arc_progress (tx_now T) \<noteq> None)"
  proof (rule holds_bind [OF holds_exec holds_return])
    fix T rows T' assume T: "like P A T \<and> arc_progress (tx_now T) \<noteq> None" and "sql_step (Create_event sch) [] T rows T'"
    then have "T' = T\<lparr>tx_now := created_event (schema_table sch) (tx_now T)\<rparr>" by simp
    with created_event_same [of "tx_now T" P "schema_table sch"] T like_ok [of P A T]
    show "like P A T' \<and> arc_progress (tx_now T') \<noteq> None"
      by (auto simp: like_def intro: same_archive_trans)
  qed (simp_all add: like_def)
qed


text \<open>The migration: whatever the archive's shape was, afterwards it has encoded positions and the same
  resume points. The probe's error leaves the transaction as it was at the savepoint.\<close>

lemma release_like:
  assumes "\<And>T. pre T \<Longrightarrow> like P A T \<and> Q (tx_now T)"
  shows "holds pre (tx_bind (tx_exec DB backend Savepoint_release []) (\<lambda>_. tx_return ())) (\<lambda>_ T. like P A T \<and> Q (tx_now T))"
  by (rule holds_bind [where mid = "\<lambda>_ T. like P A T \<and> Q (tx_now T)", OF holds_exec holds_return])
    (auto simp: like_def dest!: assms)

lemma add_column_like:
  "holds (\<lambda>T. like P A T \<and> (\<exists>pr. arc_progress (tx_now T) = Some pr \<and> \<not> has_position pr))
     (tx_bind (tx_exec DB (classify_ddl D) Add_position []) (\<lambda>_.
      tx_bind (tx_exec DB backend Backfill_position []) (\<lambda>_. tx_return ())))
     (\<lambda>_ T. like P A T \<and> current (tx_now T))"
proof (rule holds_bind [where mid = "\<lambda>_ T. \<not> tx_broken T \<and> (\<exists>B pr. same_archive P A B \<and> arc_progress B = Some pr \<and>
    \<not> has_position pr \<and> tx_now T = B\<lparr>arc_progress := Some (with_position pr)\<rparr>)", OF holds_exec])
  fix T rows T'
  assume "like P A T \<and> (\<exists>pr. arc_progress (tx_now T) = Some pr \<and> \<not> has_position pr)"
    and "sql_step Add_position [] T rows T'"
  then show "\<not> tx_broken T' \<and> (\<exists>B pr. same_archive P A B \<and> arc_progress B = Some pr \<and> \<not> has_position pr \<and>
      tx_now T' = B\<lparr>arc_progress := Some (with_position pr)\<rparr>)"
    by (auto simp: like_def)
next
  show "holds (\<lambda>T. \<not> tx_broken T \<and> (\<exists>B pr. same_archive P A B \<and> arc_progress B = Some pr \<and> \<not> has_position pr \<and>
      tx_now T = B\<lparr>arc_progress := Some (with_position pr)\<rparr>))
     (tx_bind (tx_exec DB backend Backfill_position []) (\<lambda>_. tx_return ())) (\<lambda>_ T. like P A T \<and> current (tx_now T))"
  proof (rule holds_bind [OF holds_exec holds_return])
    fix T rows T'
    assume "\<not> tx_broken T \<and> (\<exists>B pr. same_archive P A B \<and> arc_progress B = Some pr \<and> \<not> has_position pr \<and>
      tx_now T = B\<lparr>arc_progress := Some (with_position pr)\<rparr>)" and "sql_step Backfill_position [] T rows T'"
    then obtain B pr where B: "same_archive P A B" "arc_progress B = Some pr" "\<not> has_position pr"
      and T': "\<not> tx_broken T'" "tx_now T' = B\<lparr>arc_progress := Some (backfilled (with_position pr))\<rparr>"
      by auto
    from B(1) have "archive_ok B" by (simp add: same_archive_def)
    from migrated_same [OF this B(2,3), of P] T' B(1) show "like P A T' \<and> current (tx_now T')"
      by (auto simp: like_def intro: same_archive_trans)
  qed simp_all
qed (simp add: like_def)

text \<open>After a failed probe: back to the savepoint, then the column.\<close>

lemma after_probe_error:
  assumes "same_archive P A B" "arc_progress B = Some pr" "\<not> has_position pr"
  shows "holds (\<lambda>T. tx_saved T = Some B)
     (tx_bind (tx_exec DB backend Savepoint_rollback []) (\<lambda>_.
      tx_bind (tx_exec DB backend Savepoint_release []) (\<lambda>_.
      tx_bind (tx_exec DB (classify_ddl D) Add_position []) (\<lambda>_.
      tx_bind (tx_exec DB backend Backfill_position []) (\<lambda>_. tx_return ())))))
     (\<lambda>_ T. like P A T \<and> current (tx_now T))"
proof (rule holds_bind [where mid = "\<lambda>_ T. \<not> tx_broken T \<and> tx_now T = B", OF holds_exec])
  show "holds (\<lambda>T. \<not> tx_broken T \<and> tx_now T = B)
     (tx_bind (tx_exec DB backend Savepoint_release []) (\<lambda>_.
      tx_bind (tx_exec DB (classify_ddl D) Add_position []) (\<lambda>_.
      tx_bind (tx_exec DB backend Backfill_position []) (\<lambda>_. tx_return ()))))
     (\<lambda>_ T. like P A T \<and> current (tx_now T))"
    by (rule holds_bind [OF holds_exec add_column_like]) (use assms in \<open>auto simp: like_def\<close>)
qed auto

lemma migrate_like:
  "holds (\<lambda>T. like P A T \<and> arc_progress (tx_now T) \<noteq> None \<and> (checked \<longrightarrow> current (tx_now T)))
     (migrate_if_needed D DB checked) (\<lambda>_ T. like P A T \<and> current (tx_now T))"
proof (cases checked)
  case True
  then show ?thesis unfolding migrate_if_needed_def by (simp, intro holds_return) simp
next
  case False
  let ?probe = "\<lambda>t. case db_exec DB Probe_position [] t of
      (Ok _, t') \<Rightarrow> tx_bind (tx_exec DB backend Savepoint_release []) (\<lambda>_. tx_return ()) t'
    | (Err e, t') \<Rightarrow> if is_undefined_column D e then
        tx_bind (tx_exec DB backend Savepoint_rollback []) (\<lambda>_.
        tx_bind (tx_exec DB backend Savepoint_release []) (\<lambda>_.
        tx_bind (tx_exec DB (classify_ddl D) Add_position []) (\<lambda>_.
        tx_bind (tx_exec DB backend Backfill_position []) (\<lambda>_. tx_return ())))) t'
      else (Err (backend e), t')"
  have "holds (\<lambda>T. like P A T \<and> tx_saved T = Some (tx_now T)) ?probe (\<lambda>_ T. like P A T \<and> current (tx_now T))"
    unfolding holds_def
  proof (intro allI impI)
    fix t u t'
    assume T: "like P A (tview t) \<and> tx_saved (tview t) = Some (tx_now (tview t))" and run: "?probe t = (Ok u, t')"
    obtain r t1 where x: "db_exec DB Probe_position [] t = (r, t1)" by fastforce
    show "like P A (tview t') \<and> current (tx_now (tview t'))"
    proof (cases r)
      case (Inr rows)
      from exec_ok [OF x [unfolded Inr]] T have "like P A (tview t1) \<and> current (tx_now (tview t1))"
        by (auto simp: like_def current_def)
      moreover from run x Inr have "tx_bind (tx_exec DB backend Savepoint_release []) (\<lambda>_. tx_return ()) t1 = (Ok u, t')"
        by simp
      ultimately show ?thesis
        using release_like [where pre = "\<lambda>T. like P A T \<and> current (tx_now T)" and Q = current] unfolding holds_def by blast
    next
      case (Inl e)
      from run x Inl have und: "is_undefined_column D e" by (auto split: if_splits)
      from T have whole: "\<not> tx_broken (tview t)" and same: "same_archive P A (tx_now (tview t))" by (simp_all add: like_def)
      from probe_err [OF x [unfolded Inl] und whole] obtain pr
        where pr: "arc_progress (tx_now (tview t)) = Some pr" "\<not> has_position pr" by blast
      have saved: "tx_saved (tview t1) = Some (tx_now (tview t))"
        using exec_err [OF x [unfolded Inl]] T by simp
      from run x Inl und have "tx_bind (tx_exec DB backend Savepoint_rollback []) (\<lambda>_.
        tx_bind (tx_exec DB backend Savepoint_release []) (\<lambda>_.
        tx_bind (tx_exec DB (classify_ddl D) Add_position []) (\<lambda>_.
        tx_bind (tx_exec DB backend Backfill_position []) (\<lambda>_. tx_return ())))) t1 = (Ok u, t')" by simp
      with after_probe_error [OF same pr] saved show ?thesis unfolding holds_def by blast
    qed
  qed
  then have "holds (\<lambda>T. like P A T \<and> arc_progress (tx_now T) \<noteq> None \<and> (checked \<longrightarrow> current (tx_now T)))
      (tx_bind (tx_exec DB backend Savepoint_begin []) (\<lambda>_. ?probe)) (\<lambda>_ T. like P A T \<and> current (tx_now T))"
    by (rule holds_bind [OF holds_exec, rotated 2]) (auto simp: like_def)
  with False show ?thesis by (simp add: migrate_if_needed_def)
qed

text \<open>
  While rows go in: \<open>A\<close> with the cells of the rows so far appended to the schema's table, nothing
  else changed. With a resume point the same holds and the table's watermark has moved.
\<close>

definition grown :: "'p position_ops \<Rightarrow> table_schema \<Rightarrow> i64 \<Rightarrow> archive \<Rightarrow> row list \<Rightarrow> txn \<Rightarrow> bool" where
  "grown P sch k A rs T \<longleftrightarrow> \<not> tx_broken T \<and> archive_ok (tx_now T) \<and> current (tx_now T) \<and>
     arc_mark P (tx_now T) = arc_mark P A \<and>
     (\<forall>t. t \<noteq> schema_table sch \<longrightarrow> arc_contents (tx_now T) t = arc_contents A t) \<and>
     ((\<forall>r \<in> set rs. fits sch r) \<longrightarrow> arc_contents (tx_now T) (schema_table sch) =
        arc_contents A (schema_table sch) @ map (\<lambda>r. (k, payload_text sch r)) rs)"

lemma insert_grows:
  assumes args: "chunk_args sch k chunk = Ok args" and "chunk \<noteq> []"
  shows "holds (grown P sch k A rs) (tx_exec DB backend (Insert_rows sch (length chunk)) args)
     (\<lambda>_. grown P sch k A (rs @ chunk))"
proof (rule holds_exec)
  fix T out T' assume T: "grown P sch k A rs T" and step: "sql_step (Insert_rows sch (length chunk)) args T out T'"
  let ?n = "length (schema_columns sch)"
  let ?t = "schema_table sch"
  have flat: "args = concat (map (\<lambda>r. Integer k # r) chunk) \<and> (\<forall>r \<in> set chunk. length r = ?n)"
    using args by (induction sch k chunk arbitrary: args rule: chunk_args.induct)
      (auto simp: bind_res_Ok_iff check_row_shape_def split: if_splits)
  then have groups: "chunks (Suc ?n) args = map (\<lambda>r. Integer k # r) chunk"
    by (simp add: chunks_concat)
  from step obtain old new where old: "arc_tables (tx_now T) ?t = Some old"
    and T': "T' = T\<lparr>tx_now := (tx_now T)\<lparr>arc_tables := (arc_tables (tx_now T))(?t \<mapsto> old @ new)\<rparr>\<rparr>"
    and new: "(\<forall>g \<in> set (chunks (Suc ?n) args). fits sch (tl g)) \<longrightarrow> new = map (group_row sch) (chunks (Suc ?n) args)"
    by (auto simp: Let_def)
  have "(\<forall>r \<in> set chunk. fits sch r) \<longrightarrow> map (\<lambda>(k, v). (k, text_of v)) new = map (\<lambda>r. (k, payload_text sch r)) chunk"
    using new by (simp add: groups group_row_def)
  with T old show "grown P sch k A (rs @ chunk) T'"
    by (auto simp: grown_def T' arc_contents_def archive_ok_def current_def arc_mark_def fun_eq_iff)
qed (simp add: grown_def)

lemma insert_chunks_grow:
  "\<forall>c \<in> set cs. c \<noteq> [] \<Longrightarrow> holds (grown P sch k A rs) (insert_chunks DB sch k cs) (\<lambda>_. grown P sch k A (rs @ concat cs))"
proof (induction cs arbitrary: rs)
  case Nil
  then show ?case by (simp, intro holds_return)
next
  case (Cons c cs)
  show ?case unfolding insert_chunks.simps
  proof (rule holds_bind [where mid = "\<lambda>args T. chunk_args sch k c = Ok args \<and> grown P sch k A rs T", OF holds_lift])
    fix args
    show "holds (\<lambda>T. chunk_args sch k c = Ok args \<and> grown P sch k A rs T)
      (tx_bind (tx_exec DB backend (Insert_rows sch (length c)) args) (\<lambda>_. insert_chunks DB sch k cs))
      (\<lambda>_. grown P sch k A (rs @ concat (c # cs)))"
    proof (cases "chunk_args sch k c = Ok args")
      case True
      with holds_bind [OF insert_grows [OF True] Cons.IH] Cons.prems show ?thesis by simp
    qed (simp add: holds_def)
  qed simp
qed

lemma insert_rows_grow:
  "holds (\<lambda>T. like P A T \<and> current (tx_now T)) (insert_rows DB sch k rows) (\<lambda>_. grown P sch k A rows)"
proof -
  have "holds (grown P sch k A []) (insert_rows DB sch k rows) (\<lambda>_. grown P sch k A rows)"
    using insert_chunks_grow [of "chunks (rows_per_chunk (1 + length (schema_columns sch))) rows" P sch k A "[]"]
    by (auto simp: insert_rows_def concat_chunks dest: chunks_bound)
  then show ?thesis
    by (rule holds_weaken) (auto simp: grown_def like_def same_archive_def fun_eq_iff)
qed

definition moved :: "'p position_ops \<Rightarrow> table_schema \<Rightarrow> 'p \<Rightarrow> archive \<Rightarrow> row list \<Rightarrow> txn \<Rightarrow> bool" where
  "moved P sch p A rs T \<longleftrightarrow> \<not> tx_broken T \<and> archive_ok (tx_now T) \<and> current (tx_now T) \<and>
     arc_mark P (tx_now T) = (arc_mark P A)(schema_table sch \<mapsto> advance P (arc_mark P A (schema_table sch)) p) \<and>
     (\<forall>t. t \<noteq> schema_table sch \<longrightarrow> arc_contents (tx_now T) t = arc_contents A t) \<and>
     ((\<forall>r \<in> set rs. fits sch r) \<longrightarrow> arc_contents (tx_now T) (schema_table sch) =
        arc_contents A (schema_table sch) @ stored_rows P sch p rs)"

lemma previous_position_mark:
  "arc_progress B = Some pr \<Longrightarrow> has_position pr \<Longrightarrow> previous_position P (position_rows pr t) = Ok prev \<Longrightarrow> prev = arc_mark P B t"
  by (auto simp: previous_position_def position_rows_def arc_mark_def entry_text_def decoded_def cell_def bind_res_Ok_iff
      map_err_def split: option.splits sum.splits)

lemma advance_watermark_moves:
  assumes codec: "\<And>q. decode_position P (encode_position P q) = Ok q"
    and key: "k = int (unat (sort_key P p))"
  shows "holds (grown P sch k A rs) (advance_watermark P DB sch p) (\<lambda>_. moved P sch p A rs)"
  unfolding advance_watermark_def
proof (rule holds_bind [where mid = "\<lambda>rows T. grown P sch k A rs T \<and>
    (\<exists>pr. arc_progress (tx_now T) = Some pr \<and> has_position pr \<and> rows = position_rows pr (schema_table sch))", OF holds_exec])
  fix rows
  let ?t = "schema_table sch"
  show "holds (\<lambda>T. grown P sch k A rs T \<and> (\<exists>pr. arc_progress (tx_now T) = Some pr \<and> has_position pr \<and> rows = position_rows pr ?t))
     (tx_bind (tx_lift (previous_position P rows)) (\<lambda>prev.
        let next = advance P prev p in
        tx_bind (tx_lift (sort_key_to_i64 (sort_key P next))) (\<lambda>next_key.
        tx_bind (tx_exec DB backend Watermark_upsert [Text ?t, Integer next_key, Text (encode_position P next)])
          (\<lambda>_. tx_return ()))))
     (\<lambda>_. moved P sch p A rs)"
  proof (rule holds_bind [where mid = "\<lambda>prev T. grown P sch k A rs T \<and> prev = arc_mark P A ?t", OF holds_lift])
    fix T prev
    assume "grown P sch k A rs T \<and> (\<exists>pr. arc_progress (tx_now T) = Some pr \<and> has_position pr \<and> rows = position_rows pr ?t)"
      and "previous_position P rows = Ok prev"
    then show "grown P sch k A rs T \<and> prev = arc_mark P A ?t"
      using previous_position_mark [of "tx_now T" _ P ?t prev] by (auto simp: grown_def)
  next
    fix prev
    let ?next = "advance P prev p"
    show "holds (\<lambda>T. grown P sch k A rs T \<and> prev = arc_mark P A ?t)
      (let next = ?next in
        tx_bind (tx_lift (sort_key_to_i64 (sort_key P next))) (\<lambda>next_key.
        tx_bind (tx_exec DB backend Watermark_upsert [Text ?t, Integer next_key, Text (encode_position P next)])
          (\<lambda>_. tx_return ())))
      (\<lambda>_. moved P sch p A rs)"
      unfolding Let_def
    proof (intro holds_bind [where mid = "\<lambda>_ T. grown P sch k A rs T \<and> prev = arc_mark P A ?t", OF holds_lift]
        holds_bind [OF holds_exec holds_return])
      fix T a out T' assume T: "grown P sch k A rs T \<and> prev = arc_mark P A ?t"
        and "sql_step Watermark_upsert [Text ?t, Integer a, Text (encode_position P ?next)] T out T'"
      then obtain pr where pr: "arc_progress (tx_now T) = Some pr" "has_position pr"
        and T': "T' = T\<lparr>tx_now := (tx_now T)\<lparr>arc_progress := Some (pr\<lparr>entries := (entries pr)(?t \<mapsto>
             (Some a, Some (encode_position P ?next)))\<rparr>)\<rparr>\<rparr>"
        by auto
      have "arc_mark P (tx_now T') = (arc_mark P (tx_now T))(?t \<mapsto> ?next)"
        using pr by (auto simp: T' arc_mark_def entry_text_upsert decoded_def codec fun_eq_iff)
      moreover have "archive_ok (tx_now T')" using T pr
        by (auto simp: T' grown_def archive_ok_def entry_text_upsert)
      moreover have "current (tx_now T')" "\<not> tx_broken T'" "arc_contents (tx_now T') = arc_contents (tx_now T)"
        using T pr by (auto simp: T' grown_def current_def arc_contents_def fun_eq_iff)
      ultimately show "moved P sch p A rs T'"
        using T by (simp add: moved_def grown_def stored_rows_def key)
    qed (auto simp: grown_def)
  qed
qed (auto simp: grown_def)

text \<open>A write whose every step succeeds.\<close>

lemma write_steps_move:
  assumes codec: "\<And>q. decode_position P (encode_position P q) = Ok q"
  shows "holds (\<lambda>T. like P A T \<and> (checked \<longrightarrow> current A)) (write_steps P D DB checked sch p rows) (\<lambda>_. moved P sch p A rows)"
  unfolding write_steps_def
proof (rule holds_bind [where mid = "\<lambda>_ T. (checked \<longrightarrow> current A) \<and> like P A T \<and> arc_progress (tx_now T) \<noteq> None"])
  show "holds (\<lambda>T. like P A T \<and> (checked \<longrightarrow> current A)) (create_tables D DB sch)
      (\<lambda>_ T. (checked \<longrightarrow> current A) \<and> like P A T \<and> arc_progress (tx_now T) \<noteq> None)"
    using create_tables_like [of P A sch] unfolding holds_def by blast
  have mig: "holds (\<lambda>T. (checked \<longrightarrow> current A) \<and> like P A T \<and> arc_progress (tx_now T) \<noteq> None)
      (migrate_if_needed D DB checked) (\<lambda>_ T. like P A T \<and> current (tx_now T))"
    by (rule holds_weaken [OF migrate_like]) (auto simp: like_def same_archive_def)
  have ins: "holds (\<lambda>T. like P A T \<and> current (tx_now T))
      (tx_bind (tx_lift (sort_key_to_i64 (sort_key P p))) (\<lambda>key.
       tx_bind (insert_rows DB sch key rows) (\<lambda>_. advance_watermark P DB sch p))) (\<lambda>_. moved P sch p A rows)"
  proof (rule holds_bind [where mid = "\<lambda>key T. key = int (unat (sort_key P p)) \<and> like P A T \<and> current (tx_now T)", OF holds_lift])
    fix key
    show "holds (\<lambda>T. key = int (unat (sort_key P p)) \<and> like P A T \<and> current (tx_now T))
        (tx_bind (insert_rows DB sch key rows) (\<lambda>_. advance_watermark P DB sch p)) (\<lambda>_. moved P sch p A rows)"
    proof (cases "key = int (unat (sort_key P p))")
      case True
      with holds_bind [OF insert_rows_grow advance_watermark_moves [OF codec True]] show ?thesis by simp
    qed (simp add: holds_def)
  qed (auto simp: sort_key_to_i64_def split: if_splits)
  show "holds (\<lambda>T. (checked \<longrightarrow> current A) \<and> like P A T \<and> arc_progress (tx_now T) \<noteq> None)
      (tx_bind (migrate_if_needed D DB checked) (\<lambda>_.
       tx_bind (tx_lift (sort_key_to_i64 (sort_key P p))) (\<lambda>key.
       tx_bind (insert_rows DB sch key rows) (\<lambda>_. advance_watermark P DB sch p)))) (\<lambda>_. moved P sch p A rows)"
    by (rule holds_bind [OF mig ins])
qed

abbreviation sound :: "'d sql_store \<Rightarrow> bool" where
  "sound \<equiv> store_sound view"

lemma write_once_ok:
  assumes "\<And>q. decode_position P (encode_position P q) = Ok q" "sound st"
    and "write_once P D DB sch p rows st = (Ok u, st')"
  shows "moved P sch p (view (pool st)) rows \<lparr>tx_now = view (pool st'), tx_saved = None, tx_broken = False\<rparr>"
proof -
  let ?A = "view (pool st)"
  from assms(3) obtain t d t' d' where b: "db_begin DB (pool st) = (Ok t, d)"
    and run: "write_steps P D DB (migration_checked st) sch p rows t = (Ok (), t')"
    and c: "db_commit DB t' d = (Ok (), d')" and st': "st' = st\<lparr>pool := d', migration_checked := True\<rparr>"
    by (auto simp: write_once_def split: prod.splits sum.splits)
  from begin_ok [OF b] assms(2) have "like P ?A (tview t) \<and> (migration_checked st \<longrightarrow> current ?A)"
    by (simp add: like_def store_sound_def same_archive_refl)
  with write_steps_move [OF assms(1), of ?A "migration_checked st" sch p rows] run have "moved P sch p ?A rows (tview t')"
    unfolding holds_def by blast
  moreover from this have "view d' = tx_now (tview t')" using commit_ok [OF c] by (simp add: moved_def)
  ultimately show ?thesis by (simp add: moved_def st')
qed

lemma write_once_err:
  "write_once P D DB sch p rows st = (Err e, st') \<Longrightarrow>
     view (pool st') = view (pool st) \<and> migration_checked st' = migration_checked st"
  by (auto simp: write_once_def dest!: begin_ok begin_err commit_err split: prod.splits sum.splits)

lemma write_once_sound:
  assumes "\<And>q. decode_position P (encode_position P q) = Ok q" "sound st"
  shows "sound (snd (write_once P D DB sch p rows st))"
proof -
  obtain r st' where w: "write_once P D DB sch p rows st = (r, st')" by fastforce
  show ?thesis
  proof (cases r)
    case (Inl e)
    with write_once_err [of P sch p rows st e st'] w assms(2) show ?thesis by (simp add: store_sound_def)
  next
    case (Inr u)
    with write_once_ok [OF assms, of sch p rows u st'] w show ?thesis by (simp add: store_sound_def moved_def)
  qed
qed

end

section \<open>The store keeps the contract\<close>

text \<open>A SQL store for a position whose text round-trips.\<close>

locale sql_archive = sql_backend D DB view tview + position_codec P
  for D :: dialect and DB :: "('d, 't) database" and view tview and P :: "'p position_ops"
begin

lemma sql_write_cases:
  assumes "sound st"
  obtains st0 where "sound st0" "view (pool st0) = view (pool st)" "migration_checked st0 = migration_checked st"
    "sql_write P D DB sch p rows st = write_once P D DB sch p rows st0"
proof -
  obtain r st1 where w: "write_once P D DB sch p rows st = (r, st1)" by fastforce
  show thesis
  proof (cases "\<exists>m. r = Err (DdlRaceError m)")
    case True
    with w have "sql_write P D DB sch p rows st = write_once P D DB sch p rows st1" by (auto simp: sql_write_def)
    with that [of st1] write_once_err [of P sch p rows st _ st1] w True assms show thesis by (auto simp: store_sound_def)
  next
    case False
    with w have "sql_write P D DB sch p rows st = write_once P D DB sch p rows st"
      by (auto simp: sql_write_def split: sum.splits store_error.splits)
    with that [of st] assms show thesis by simp
  qed
qed

lemma sql_write_ok:
  assumes "sound st" "sql_write P D DB sch p rows st = (Ok u, st')"
  shows "moved P sch p (view (pool st)) rows \<lparr>tx_now = view (pool st'), tx_saved = None, tx_broken = False\<rparr>"
proof -
  obtain st0 where st0: "sound st0" "view (pool st0) = view (pool st)"
    "sql_write P D DB sch p rows st = write_once P D DB sch p rows st0" by (rule sql_write_cases [OF assms(1)])
  from st0(3) assms(2) have "write_once P D DB sch p rows st0 = (Ok u, st')" by simp
  from write_once_ok [OF round_trip st0(1) this] st0(2) show ?thesis by simp
qed

lemma sql_write_err:
  assumes "sound st" "sql_write P D DB sch p rows st = (Err e, st')"
  shows "view (pool st') = view (pool st) \<and> migration_checked st' = migration_checked st"
proof -
  obtain st0 where st0: "view (pool st0) = view (pool st)" "migration_checked st0 = migration_checked st"
    "sql_write P D DB sch p rows st = write_once P D DB sch p rows st0" by (rule sql_write_cases [OF assms(1)])
  from st0(3) assms(2) have "write_once P D DB sch p rows st0 = (Err e, st')" by simp
  from write_once_err [OF this] st0(1,2) show ?thesis by simp
qed

lemma sql_write_sound: "sound st \<Longrightarrow> sound (snd (sql_write P D DB sch p rows st))"
  by (rule sql_write_cases [of st sch p rows]) (auto intro: write_once_sound round_trip)

text \<open>A read that finds the position column absent falls back to the block it was made of.\<close>

lemma last_block_mark:
  assumes "resume_from_last_block P D DB t d = Ok w"
    and "\<And>pr. arc_progress (view d) = Some pr \<Longrightarrow> \<not> has_position pr"
  shows "w = arc_mark P (view d) t"
proof (cases "db_read DB Last_block [Text t] d")
  case (Inl e)
  with assms(1) have "is_undefined_table D e" "w = None" by (auto simp: resume_from_last_block_def split: if_splits)
  with read_missing_table [OF Inl] show ?thesis by (simp add: arc_mark_def)
next
  case (Inr rows)
  from read_ok [OF Inr] obtain pr where pr: "arc_progress (view d) = Some pr" and rows: "rows = last_block_rows pr t"
    by auto
  from assms(1) assms(2) [OF pr] show ?thesis
    by (auto simp: resume_from_last_block_def Inr rows last_block_rows_def cell_def arc_mark_def pr entry_text_def decoded_def
        map_err_def bind_res_Ok_iff split: option.splits sum.splits)
qed

lemma stored_position_mark:
  assumes "sound st" "sql_stored_position P D DB t st = Ok w"
  shows "w = arc_mark P (view (pool st)) t"
proof (cases "db_read DB Stored_position [Text t] (pool st)")
  case (Inl e)
  show ?thesis
  proof (cases "is_undefined_table D e")
    case True
    with assms(2) Inl read_missing_table [OF Inl] show ?thesis by (simp add: sql_stored_position_def arc_mark_def)
  next
    case False
    with assms(2) Inl have "is_undefined_column D e" "resume_from_last_block P D DB t (pool st) = Ok w"
      by (auto simp: sql_stored_position_def split: if_splits)
    with read_missing_column [OF Inl] show ?thesis by (auto intro: last_block_mark)
  qed
next
  case (Inr rows)
  from read_ok [OF Inr] obtain pr where pr: "arc_progress (view (pool st)) = Some pr" "has_position pr"
    and rows: "rows = position_rows pr t" by auto
  have "entries pr t \<noteq> None \<Longrightarrow> entry_text pr t \<noteq> None"
    using assms(1) pr by (auto simp: store_sound_def archive_ok_def)
  with assms(2) pr show ?thesis
    by (auto simp: sql_stored_position_def Inr rows position_rows_def cell_def arc_mark_def entry_text_def decoded_def
        map_err_def bind_res_Ok_iff split: option.splits sum.splits)
qed

lemma decode_payload:
  "decode_row decode_value (replay_schema t) r = Ok row \<Longrightarrow> row = [Text (text_of (cell r 0))]"
  by (auto simp: decode_row_def replay_schema_def schema_col_def schema_new_def column_new_def decode_value_def
      split: sql_value.splits sum.splits)

lemma replay_payloads:
  assumes "sql_replay P D DB (replay_schema t) up_to st = Ok rs"
  shows "\<exists>out. rs = map (\<lambda>kj. [Text (snd kj)]) out \<and> sorted (map fst out) \<and>
    mset out = mset (filter (\<lambda>kj. fst kj \<le> int (unat (sort_key P up_to))) (arc_contents (view (pool st)) t))"
proof -
  let ?k = "int (unat (sort_key P up_to))"
  have key: "sort_key_to_i64 (sort_key P up_to) = Ok ?k"
    using assms by (auto simp: sql_replay_def bind_res_Ok_iff sort_key_to_i64_def split: if_splits)
  have table: "schema_table (replay_schema t) = t"
    by (simp add: replay_schema_def schema_col_def schema_new_def)
  show ?thesis
  proof (cases "db_read DB (Replay_rows (replay_schema t)) [Integer ?k] (pool st)")
    case (Inl e)
    with assms key have "rs = []" "is_undefined_table D e" by (auto simp: sql_replay_def split: if_splits)
    with read_missing_table [OF Inl] have "arc_tables (view (pool st)) t = None" by (simp add: table)
    with \<open>rs = []\<close> show ?thesis by (intro exI [of _ "[]"]) (simp add: arc_contents_def)
  next
    case (Inr rows)
    from read_ok [OF Inr] obtain old out where old: "arc_tables (view (pool st)) t = Some old"
      and rows: "rows = map (\<lambda>kv. [snd kv]) out" and ord: "sorted (map fst out)"
      and out: "mset out = mset (filter (\<lambda>kv. fst kv \<le> ?k) old)"
      by (auto simp: table)
    let ?out = "map (\<lambda>(k, v). (k, text_of v)) out"
    from assms key Inr have "map (decode_row decode_value (replay_schema t)) rows = map Ok rs"
      by (simp add: sql_replay_def collect_rows_def collect_res_Ok_iff)
    then have "rs = map (\<lambda>r. [Text (text_of (cell r 0))]) rows"
      by (induction rows arbitrary: rs) (auto simp: Cons_eq_map_conv dest!: decode_payload)
    then have "rs = map (\<lambda>kj. [Text (snd kj)]) ?out" by (auto simp: rows cell_def)
    moreover have "sorted (map fst ?out)" using ord by (simp add: comp_def case_prod_beta)
    moreover have "mset ?out = mset (filter (\<lambda>kj. fst kj \<le> ?k) (arc_contents (view (pool st)) t))"
      using arg_cong [OF out, of "image_mset (\<lambda>(k, v). (k, text_of v))"]
      by (simp add: arc_contents_def old filter_map comp_def case_prod_beta)
    ultimately show ?thesis by blast
  qed
qed

sublocale store_contract P "sql_store P D DB" "\<lambda>st. arc_contents (view (pool st))" "\<lambda>st. arc_mark P (view (pool st))" sound
proof unfold_locales
  fix sch p rows and st st' :: "'d sql_store" and t e
  show "sound (snd (store_write (sql_store P D DB) sch p rows st))" if "sound st"
    using sql_write_sound [OF that] by (simp add: sql_store_def)
  assume st: "sound st"
  {
    assume "store_write (sql_store P D DB) sch p rows st = (Ok (), st')"
    then have "moved P sch p (view (pool st)) rows \<lparr>tx_now = view (pool st'), tx_saved = None, tx_broken = False\<rparr>"
      using sql_write_ok [OF st] by (simp add: sql_store_def)
    note m = this [unfolded moved_def, simplified]
    show "arc_contents (view (pool st')) t =
        arc_contents (view (pool st)) t @ (if t = schema_table sch then stored_rows P sch p rows else [])"
      if "\<forall>r \<in> set rows. fits sch r" using m that by simp
    show "arc_mark P (view (pool st')) t =
        (if t = schema_table sch then Some (advance P (arc_mark P (view (pool st)) t) p) else arc_mark P (view (pool st)) t)"
      using m by simp
  }
  show "arc_contents (view (pool st')) t = arc_contents (view (pool st)) t \<and> arc_mark P (view (pool st')) t = arc_mark P (view (pool st)) t"
    if "store_write (sql_store P D DB) sch p rows st = (Err e, st')"
    using sql_write_err [OF st] that by (simp add: sql_store_def)
  show "w = arc_mark P (view (pool st)) t" if "stored_position (sql_store P D DB) t st = Ok w" for w
    using stored_position_mark [OF st] that by (simp add: sql_store_def)
  show "\<exists>out. rs = map (\<lambda>kj. [Text (snd kj)]) out \<and> sorted (map fst out) \<and>
      mset out = mset (filter (\<lambda>kj. fst kj \<le> int (unat (sort_key P p))) (arc_contents (view (pool st)) t))"
    if "store_replay (sql_store P D DB) (replay_schema t) p st = Ok rs" for rs
    using replay_payloads that by (simp add: sql_store_def)
qed

lemmas sql_store_contract = store_contract_axioms

end

end
