(* ===== verification/Sql_Memory.thy ===== *)
theory Sql_Memory
  imports Sql_Contract
begin

text \<open>
  A database in memory that keeps the laws of \<open>sql_backend\<close> under either dialect: an archive on
  disk, transactions that work on a copy of it, and a schedule of faults by attempt. It is what the
  store's theorems are applied to.
\<close>

section \<open>The database\<close>

datatype mem_call = At_begin | At_statement stmt | At_commit

datatype mem_fault = Io_failure string | Duplicate_object

record mem_disk =
  disk :: archive
  attempts :: nat

record mem_txn = txn +
  attempt :: nat

fun fault_error :: "mem_fault \<Rightarrow> sqlx_error" where
  "fault_error (Io_failure m) = Sqlx_other m"
| "fault_error Duplicate_object = Sqlx_database ''duplicate'' (Some ''42P07'')"

definition no_table :: sqlx_error where
  "no_table = Sqlx_database ''no such table'' (Some ''42P01'')"

definition no_column :: sqlx_error where
  "no_column = Sqlx_database ''no such column'' (Some ''42703'')"

definition aborted :: sqlx_error where
  "aborted = Sqlx_database ''transaction is aborted'' (Some ''25P02'')"

fun with_progress :: "archive \<Rightarrow> (progress \<Rightarrow> sqlx_error + 'a) \<Rightarrow> sqlx_error + 'a" where
  "with_progress A f = (case arc_progress A of None \<Rightarrow> Err no_table | Some pr \<Rightarrow> f pr)"

fun mem_apply :: "stmt \<Rightarrow> sql_value list \<Rightarrow> archive \<Rightarrow> sqlx_error + (db_row list \<times> archive)" where
  "mem_apply Create_progress args A = Ok ([], created_progress A)"
| "mem_apply (Create_event sch) args A = Ok ([], created_event (schema_table sch) A)"
| "mem_apply Probe_position args A = with_progress A (\<lambda>pr. if has_position pr then Ok ([], A) else Err no_column)"
| "mem_apply Add_position args A = with_progress A (\<lambda>pr.
     if has_position pr then Err aborted else Ok ([], A\<lparr>arc_progress := Some (with_position pr)\<rparr>))"
| "mem_apply Backfill_position args A = with_progress A (\<lambda>pr.
     if has_position pr then Ok ([], A\<lparr>arc_progress := Some (backfilled pr)\<rparr>) else Err no_column)"
| "mem_apply (Insert_rows sch n) args A = (case arc_tables A (schema_table sch) of
     None \<Rightarrow> Err no_table
   | Some old \<Rightarrow> Ok ([], A\<lparr>arc_tables := (arc_tables A)(schema_table sch \<mapsto>
       old @ map (group_row sch) (chunks (Suc (length (schema_columns sch))) args))\<rparr>))"
| "mem_apply Locked_select [Text t] A = with_progress A (\<lambda>pr.
     if has_position pr then Ok (position_rows pr t, A) else Err no_column)"
| "mem_apply Stored_position [Text t] A = with_progress A (\<lambda>pr.
     if has_position pr then Ok (position_rows pr t, A) else Err no_column)"
| "mem_apply Last_block [Text t] A = with_progress A (\<lambda>pr. Ok (last_block_rows pr t, A))"
| "mem_apply Watermark_upsert [Text t, Integer k, Text e] A = with_progress A (\<lambda>pr.
     if has_position pr then Ok ([], A\<lparr>arc_progress := Some (pr\<lparr>entries := (entries pr)(t \<mapsto> (Some k, Some e))\<rparr>)\<rparr>)
     else Err no_column)"
| "mem_apply (Replay_rows sch) [Integer k] A = (case arc_tables A (schema_table sch) of
     None \<Rightarrow> Err no_table
   | Some old \<Rightarrow> Ok (map (\<lambda>kv. [snd kv]) (List.sort_key fst (filter (\<lambda>kv. fst kv \<le> k) old)), A))"
| "mem_apply _ args A = Err aborted"

fun is_read :: "stmt \<Rightarrow> bool" where
  "is_read Stored_position = True"
| "is_read Last_block = True"
| "is_read (Replay_rows sch) = True"
| "is_read _ = False"

fun mem_step :: "stmt \<Rightarrow> sql_value list \<Rightarrow> mem_txn \<Rightarrow> (sqlx_error + db_row list) \<times> mem_txn" where
  "mem_step Savepoint_begin args T = (Ok [], T\<lparr>tx_saved := Some (tx_now T)\<rparr>)"
| "mem_step Savepoint_release args T = (Ok [], T\<lparr>tx_saved := None\<rparr>)"
| "mem_step Savepoint_rollback args T = (case tx_saved T of
     None \<Rightarrow> (Err aborted, T\<lparr>tx_broken := True\<rparr>)
   | Some A \<Rightarrow> (Ok [], T\<lparr>tx_now := A, tx_broken := False\<rparr>))"
| "mem_step st args T = (case mem_apply st args (tx_now T) of
     Err e \<Rightarrow> (Err e, T\<lparr>tx_broken := True\<rparr>)
   | Ok (rows, A) \<Rightarrow> (Ok rows, T\<lparr>tx_now := A\<rparr>))"

definition mem_exec ::
  "(nat \<Rightarrow> mem_call \<Rightarrow> mem_fault option) \<Rightarrow> stmt \<Rightarrow> sql_value list \<Rightarrow> mem_txn \<Rightarrow> (sqlx_error + db_row list) \<times> mem_txn" where
  "mem_exec faults st args T =
     (if tx_broken T \<and> st \<noteq> Savepoint_rollback then (Err aborted, T)
      else case faults (attempt T) (At_statement st) of
        Some f \<Rightarrow> (Err (fault_error f), T\<lparr>tx_broken := True\<rparr>)
      | None \<Rightarrow> mem_step st args T)"

definition mem_db :: "(nat \<Rightarrow> mem_call \<Rightarrow> mem_fault option) \<Rightarrow> (mem_disk, mem_txn) database" where
  "mem_db faults = \<lparr>
     db_begin = (\<lambda>d. let d' = d\<lparr>attempts := Suc (attempts d)\<rparr> in
       (case faults (attempts d) At_begin of
          Some f \<Rightarrow> (Err (fault_error f), d')
        | None \<Rightarrow> (Ok \<lparr>tx_now = disk d, tx_saved = None, tx_broken = False, attempt = attempts d\<rparr>, d'))),
     db_exec = mem_exec faults,
     db_commit = (\<lambda>T d. if tx_broken T then (Err aborted, d) else
       (case faults (attempt T) At_commit of
          Some f \<Rightarrow> (Err (fault_error f), d)
        | None \<Rightarrow> (Ok (), d\<lparr>disk := tx_now T\<rparr>))),
     db_read = (\<lambda>st args d. case faults (attempts d) (At_statement st) of
       Some f \<Rightarrow> Err (fault_error f)
     | None \<Rightarrow> if \<not> is_read st then Err aborted
         else (case mem_apply st args (disk d) of Err e \<Rightarrow> Err e | Ok (rows, A) \<Rightarrow> Ok rows))\<rparr>"

section \<open>It keeps the laws\<close>

lemma mem_errors [simp]:
  "is_undefined_table sqlite_dialect no_table" "\<not> is_undefined_column sqlite_dialect no_table"
  "is_undefined_column sqlite_dialect no_column" "\<not> is_undefined_table sqlite_dialect no_column"
  "is_undefined_table pg_dialect no_table" "\<not> is_undefined_column pg_dialect no_table"
  "is_undefined_column pg_dialect no_column" "\<not> is_undefined_table pg_dialect no_column"
  "\<not> is_undefined_table sqlite_dialect aborted" "\<not> is_undefined_column sqlite_dialect aborted"
  "\<not> is_undefined_table pg_dialect aborted" "\<not> is_undefined_column pg_dialect aborted"
  by (simp_all add: no_table_def no_column_def aborted_def sqlite_dialect_def dialect_defaults_def pg_dialect_def)

lemma mem_fault_errors [simp]:
  "\<not> is_undefined_table sqlite_dialect (fault_error f)" "\<not> is_undefined_column sqlite_dialect (fault_error f)"
  "\<not> is_undefined_table pg_dialect (fault_error f)" "\<not> is_undefined_column pg_dialect (fault_error f)"
  by (cases f; simp add: sqlite_dialect_def dialect_defaults_def pg_dialect_def)+

text \<open>A dialect under which this database's errors read as intended.\<close>

definition reads_memory :: "dialect \<Rightarrow> bool" where
  "reads_memory D \<longleftrightarrow> is_undefined_table D no_table \<and> \<not> is_undefined_column D no_table \<and>
     is_undefined_column D no_column \<and> \<not> is_undefined_table D no_column \<and>
     \<not> is_undefined_table D aborted \<and> \<not> is_undefined_column D aborted \<and>
     (\<forall>f. \<not> is_undefined_table D (fault_error f) \<and> \<not> is_undefined_column D (fault_error f))"

lemma dialects_read_memory [simp]: "reads_memory sqlite_dialect" "reads_memory pg_dialect"
  by (simp_all add: reads_memory_def)

lemma mem_apply_step: "mem_apply st args A = Ok (rows, A') \<Longrightarrow> archive_step st args A rows A'"
proof (induction st args A rule: mem_apply.induct)
  case (11 sch k A)
  then obtain old where "arc_tables A (schema_table sch) = Some old" and "A' = A"
    and "rows = map (\<lambda>kv. [snd kv]) (List.sort_key fst (filter (\<lambda>kv. fst kv \<le> k) old))"
    by (auto split: option.splits)
  then show ?case
    unfolding archive_step.simps
    by (intro conjI impI exI [of _ k] exI [of _ old] exI [of _ "List.sort_key fst (filter (\<lambda>kv. fst kv \<le> k) old)"])
      simp_all
qed (auto simp: Let_def split: option.splits if_splits)

lemma mem_apply_reads: "is_read st \<Longrightarrow> mem_apply st args A = Ok (rows, A') \<Longrightarrow> A' = A"
  by (induction st args A rule: mem_apply.induct) (auto split: option.splits if_splits)

lemma mem_apply_missing_table:
  "is_read st \<Longrightarrow> mem_apply st args A = Err e \<Longrightarrow> is_undefined_table D e \<Longrightarrow> reads_memory D \<Longrightarrow>
     (case st of Replay_rows sch \<Rightarrow> arc_tables A (schema_table sch) = None | _ \<Rightarrow> arc_progress A = None)"
  by (induction st args A rule: mem_apply.induct) (auto simp: reads_memory_def split: option.splits if_splits)

lemma mem_apply_missing_column:
  "st \<in> {Stored_position, Probe_position} \<Longrightarrow> mem_apply st args A = Err e \<Longrightarrow> is_undefined_column D e \<Longrightarrow> reads_memory D \<Longrightarrow>
     \<exists>pr. arc_progress A = Some pr \<and> \<not> has_position pr"
  by (induction st args A rule: mem_apply.induct) (auto simp: reads_memory_def split: option.splits if_splits)

abbreviation plain :: "stmt \<Rightarrow> bool" where
  "plain st \<equiv> st \<notin> {Savepoint_begin, Savepoint_release, Savepoint_rollback}"

lemma sql_step_plain:
  "plain st \<Longrightarrow> sql_step st args T rows T' =
     (\<not> tx_broken T \<and> (\<exists>A'. archive_step st args (tx_now T) rows A' \<and> T' = T\<lparr>tx_now := A'\<rparr>))"
  by (cases st) (simp_all del: archive_step.simps)

lemma mem_step_plain:
  "plain st \<Longrightarrow> mem_step st args T = (case mem_apply st args (tx_now T) of
     Err e \<Rightarrow> (Err e, T\<lparr>tx_broken := True\<rparr>) | Ok (rows, A) \<Rightarrow> (Ok rows, T\<lparr>tx_now := A\<rparr>))"
  by (cases st) (simp_all del: mem_apply.simps)

lemma mem_step_ok:
  assumes "mem_step st args T = (Ok rows, T')" "\<not> tx_broken T \<or> st = Savepoint_rollback"
  shows "sql_step st args (txn.truncate T) rows (txn.truncate T')"
proof (cases "plain st")
  case True
  with assms obtain A where "mem_apply st args (tx_now T) = Ok (rows, A)" "T' = T\<lparr>tx_now := A\<rparr>" "\<not> tx_broken T"
    by (auto simp: mem_step_plain split: sum.splits)
  with mem_apply_step [of st args "tx_now T" rows A] True show ?thesis
    by (simp add: sql_step_plain txn.truncate_def)
next
  case False
  with assms show ?thesis by (auto simp: txn.truncate_def split: option.splits)
qed

lemma mem_step_err:
  assumes "mem_step st args T = (Err e, T')"
  shows "tx_saved T' = tx_saved T"
proof (cases "plain st")
  case True
  with assms show ?thesis by (auto simp: mem_step_plain split: sum.splits)
next
  case False
  with assms show ?thesis by (auto split: option.splits)
qed

lemma mem_backend: "reads_memory D \<Longrightarrow> sql_backend D (mem_db faults) disk txn.truncate"
proof (unfold_locales, goal_cases)
  case (3 st args t rows t')
  then show ?case by (auto simp: mem_db_def mem_exec_def txn.truncate_def intro: mem_step_ok [unfolded txn.truncate_def] split: if_splits option.splits)
next
  case (4 st args t e t')
  then show ?case by (auto simp: mem_db_def mem_exec_def txn.truncate_def dest: mem_step_err split: if_splits option.splits)
next
  case (5 args t e t')
  then show ?case
    using mem_apply_missing_column [of Probe_position args "tx_now t" e D]
    by (auto simp: mem_db_def mem_exec_def txn.truncate_def reads_memory_def split: if_splits option.splits sum.splits)
next
  case (8 st args d rows)
  then show ?case
    by (auto simp: mem_db_def split: if_splits option.splits sum.splits dest: mem_apply_step mem_apply_reads)
next
  case (9 st args d e)
  then show ?case using mem_apply_missing_table [of st args "disk d" e D]
    by (auto simp: mem_db_def reads_memory_def split: if_splits option.splits sum.splits)
next
  case (10 args d e)
  then show ?case using mem_apply_missing_column [of Stored_position args "disk d" e D]
    by (auto simp: mem_db_def reads_memory_def split: if_splits option.splits sum.splits)
qed (auto simp: mem_db_def Let_def txn.truncate_def split: if_splits option.splits)

interpretation mem_sqlite: sql_archive sqlite_dialect "mem_db faults" disk txn.truncate block_position_ops for faults
  by (intro sql_archive.intro mem_backend block.position_codec_axioms) simp

interpretation mem_pg: sql_archive pg_dialect "mem_db faults" disk txn.truncate block_position_ops for faults
  by (intro sql_archive.intro mem_backend block.position_codec_axioms) simp

end
