(* ===== verification/Sql_Properties.thy ===== *)
theory Sql_Properties
  imports Sql_Memory Fixtures "HOL-Library.Sublist"
begin

text \<open>The properties of the SQL store, each at a concrete input too.\<close>

section \<open>One transaction per write\<close>

text \<open>
  Property C27: over any database that keeps its documented laws a write is atomic and keeps the
  contract of the trait, whichever step fails (the DDL race and its retry, the migration probe, a
  chunk of the insert, the commit): after a success the rows that fit are appended at the sort key
  and the table's resume point is the advance of the previous one, nothing of any other table
  changes, also when the write migrated an old archive; after an error nothing has changed.
\<close>

theorem write_is_atomic:
  assumes "sql_archive D DB view tview P" and "store_sound view st"
    and "sql_write P D DB sch p rows st = (r, st')"
  shows "store_sound view st' \<and>
    (case r of
       Ok _ \<Rightarrow> current (view (pool st')) \<and>
         arc_mark P (view (pool st')) = (arc_mark P (view (pool st)))
           (schema_table sch \<mapsto> advance P (arc_mark P (view (pool st)) (schema_table sch)) p) \<and>
         (\<forall>t. t \<noteq> schema_table sch \<longrightarrow> arc_contents (view (pool st')) t = arc_contents (view (pool st)) t) \<and>
         ((\<forall>row \<in> set rows. fits sch row) \<longrightarrow> arc_contents (view (pool st')) (schema_table sch) =
            arc_contents (view (pool st)) (schema_table sch) @ stored_rows P sch p rows)
     | Err _ \<Rightarrow> view (pool st') = view (pool st))"
proof -
  note ops = sql_archive.sql_write_sound [OF assms(1,2), of sch p rows]
    sql_archive.sql_write_ok [OF assms(1,2), of sch p rows _ st']
    sql_archive.sql_write_err [OF assms(1,2), of sch p rows _ st']
  from ops(1) assms(3) have "store_sound view st'" by simp
  with ops(2,3) assms(3) show ?thesis
    by (cases r) (simp_all add: sql_backend.moved_def [OF sql_archive.axioms(1) [OF assms(1)]])
qed

lemma mem_db_simps [simp]:
  "db_exec (mem_db F) = mem_exec F"
  "db_begin (mem_db F) d = (case F (attempts d) At_begin of
     Some f \<Rightarrow> (Err (fault_error f), d\<lparr>attempts := Suc (attempts d)\<rparr>)
   | None \<Rightarrow> (Ok \<lparr>tx_now = disk d, tx_saved = None, tx_broken = False, attempt = attempts d\<rparr>, d\<lparr>attempts := Suc (attempts d)\<rparr>))"
  "db_commit (mem_db F) T d = (if tx_broken T then (Err aborted, d) else
     (case F (attempt T) At_commit of Some f \<Rightarrow> (Err (fault_error f), d) | None \<Rightarrow> (Ok (), d\<lparr>disk := tx_now T\<rparr>)))"
  by (simp_all add: mem_db_def Let_def split: option.splits)

text \<open>An archive of the two-column shape at block 7, in a database whose first transaction loses a DDL race.\<close>

definition demo_legacy :: mem_disk where
  "demo_legacy = \<lparr>
     disk = \<lparr>arc_progress = Some \<lparr>has_position = False, entries = [''ev'' \<mapsto> (Some 7, None), ''other'' \<mapsto> (Some 3, None)]\<rparr>,
       arc_tables = [''ev'' \<mapsto> [(7, Text ''ja'')]]\<rparr>,
     attempts = 0\<rparr>"

fun demo_race :: "nat \<Rightarrow> mem_call \<Rightarrow> mem_fault option" where
  "demo_race n c = (if n = 0 \<and> c = At_statement Add_position then Some Duplicate_object else None)"

definition demo_schema :: table_schema where
  "demo_schema = \<lparr>schema_table = ''ev'', schema_columns = [column_new ''id'' SqlText, column_new PAYLOAD_COLUMN SqlText]\<rparr>"

lemma demo_legacy_sound: "store_sound disk (sql_store_new demo_legacy)"
  by (auto simp: store_sound_def sql_store_new_def archive_ok_def demo_legacy_def entry_text_def)

text \<open>Evaluating a write.\<close>

lemma is_duplicate_pg: "is_duplicate_object pg_dialect (Sqlx_database ''duplicate'' (Some ''42P07''))"
  by (simp add: pg_dialect_def)

lemmas sql_simps = write_once_def write_steps_def create_tables_def migrate_if_needed_def insert_rows_def
  advance_watermark_def tx_bind_def tx_return_def tx_lift_def tx_exec_def mem_exec_def sql_store_new_def
  sort_key_to_i64_def i64_max_def classify_ddl_def backend_def created_progress_def created_event_def
  demo_legacy_def demo_schema_def demo_row_def is_duplicate_pg with_position_def backfilled_def Let_def
  chunks_step rows_per_chunk_def BIND_PARAM_CAP_def check_row_shape_def position_rows_def previous_position_def cell_def
  map_err_def group_row_def payload_text_def payload_cell_def PAYLOAD_COLUMN_def PROGRESS_TABLE_def

lemma block_decode_encode: "block_decode (block_encode p) = Ok p"
  using block.round_trip [of p] by simp

lemma block_decode_last_block:
  "0 \<le> b \<Longrightarrow> b < 2 ^ 64 \<Longrightarrow> block_decode (i64_to_string b) = Ok (BlockPosition (of_nat (nat b)))"
  by (simp add: block_decode_def i64_to_string_def parse_u64_dec_string nat_less_iff)

lemma race_first: "write_once block_position_ops pg_dialect (mem_db demo_race) demo_schema (BlockPosition 8) [demo_row ''b'']
    (sql_store_new demo_legacy) = (Err (DdlRaceError ''duplicate''), (sql_store_new demo_legacy)\<lparr>pool := demo_legacy\<lparr>attempts := 1\<rparr>\<rparr>)"
  by (simp add: sql_simps)

definition demo_migrated :: progress where
  "demo_migrated = backfilled (with_position
     \<lparr>has_position = False, entries = [''ev'' \<mapsto> (Some 7, None), ''other'' \<mapsto> (Some 3, None)]\<rparr>)"

definition demo_after :: "mem_disk sql_store" where
  "demo_after = \<lparr>
     pool = \<lparr>
       disk = \<lparr>
         arc_progress = Some (demo_migrated\<lparr>entries := (entries demo_migrated)
           (''ev'' \<mapsto> (Some 8, Some (block_encode (BlockPosition 8))))\<rparr>),
         arc_tables = [''ev'' \<mapsto> [(7, Text ''ja''), (8, Text ''jb'')]]\<rparr>,
       attempts = 2\<rparr>,
     migration_checked = True\<rparr>"

lemma race_write: "sql_write block_position_ops pg_dialect (mem_db demo_race) demo_schema (BlockPosition 8) [demo_row ''b'']
    (sql_store_new demo_legacy) = (Ok (), demo_after)"
proof -
  have "write_once block_position_ops pg_dialect (mem_db demo_race) demo_schema (BlockPosition 8) [demo_row ''b'']
      ((sql_store_new demo_legacy)\<lparr>pool := demo_legacy\<lparr>attempts := 1\<rparr>\<rparr>) = (Ok (), demo_after)"
    by (simp add: sql_simps block_decode_encode block_decode_last_block demo_after_def demo_migrated_def)
  then show ?thesis by (simp add: sql_write_def race_first)
qed

lemma write_is_atomic_witness:
  "\<exists>st'. sql_write block_position_ops pg_dialect (mem_db demo_race) demo_schema (BlockPosition 8) [demo_row ''b'']
        (sql_store_new demo_legacy) = (Ok (), st') \<and>
     arc_mark block_position_ops (disk (pool st')) ''ev'' = Some (BlockPosition 8) \<and>
     arc_mark block_position_ops (disk (pool st')) ''other'' = Some (BlockPosition 3) \<and>
     arc_contents (disk (pool st')) ''ev'' = [(7, ''ja''), (8, ''jb'')]"
proof -
  obtain st' where run: "sql_write block_position_ops pg_dialect (mem_db demo_race) demo_schema (BlockPosition 8)
      [demo_row ''b''] (sql_store_new demo_legacy) = (Ok (), st')" using race_write by blast
  have old: "arc_mark block_position_ops (disk demo_legacy) ''ev'' = Some (BlockPosition 7)"
    "arc_mark block_position_ops (disk demo_legacy) ''other'' = Some (BlockPosition 3)"
    "arc_contents (disk demo_legacy) ''ev'' = [(7, ''ja'')]"
    by (simp_all add: arc_mark_def demo_legacy_def entry_text_def decoded_def block_decode_last_block arc_contents_def)
  have fit: "fits demo_schema (demo_row ''b'')" and row: "payload_text demo_schema (demo_row ''b'') = ''jb''"
    by (simp_all add: fits_def demo_schema_def demo_row_def payload_cell_def payload_text_def PAYLOAD_COLUMN_def)
  have pool: "pool (sql_store_new demo_legacy) = demo_legacy" by (simp add: sql_store_new_def)
  have table: "schema_table demo_schema = ''ev''" by (simp add: demo_schema_def)
  from write_is_atomic [OF mem_pg.sql_archive_axioms demo_legacy_sound run] old fit row
  have "arc_mark block_position_ops (disk (pool st')) ''ev'' = Some (BlockPosition 8)"
    "arc_mark block_position_ops (disk (pool st')) ''other'' = Some (BlockPosition 3)"
    "arc_contents (disk (pool st')) ''ev'' = [(7, ''ja''), (8, ''jb'')]"
    by (simp_all add: pool table stored_rows_def)
  with run show ?thesis by blast
qed

section \<open>Restarts\<close>

text \<open>The writes of a list, one after the other, some of which may fail.\<close>

definition run_writes :: "('p, 's) store_ops \<Rightarrow> 'p write_log \<Rightarrow> 's \<Rightarrow> 's \<times> 'p write_log" where
  "run_writes S ws s = fold (\<lambda>(sch, p, rows) sl. snd (store_write (logging S) sch p rows sl)) ws (s, [])"

definition fitting :: "'p write_log \<Rightarrow> bool" where
  "fitting ws \<longleftrightarrow> (\<forall>(sch, p, rows) \<in> set ws. \<forall>r \<in> set rows. fits sch r)"

lemma run_writes_log:
  "subseq (snd (fold (\<lambda>(sch, p, rows) sl. snd (store_write (logging S) sch p rows sl)) ws sl)) (snd sl @ ws)"
proof (induction ws arbitrary: sl)
  case (Cons w ws)
  obtain sch p rows where w: "w = (sch, p, rows)" by (cases w)
  let ?sl = "snd (store_write (logging S) sch p rows sl)"
  have "subseq (snd ?sl @ ws) (snd sl @ w # ws)"
    by (auto simp: w logging_write split: prod.splits sum.splits intro!: list_emb_append_mono list_emb_Cons)
  with Cons.IH [of ?sl] show ?case by (simp add: w)
qed simp

text \<open>Over a store that keeps the contract.\<close>

context store_contract begin

lemma run_writes_agree:
  assumes "fitting ws" and "agrees s0 sl"
  shows "agrees s0 (fold (\<lambda>(sch, p, rows) sl. snd (store_write (logging S) sch p rows sl)) ws sl)"
  using assms
proof (induction ws arbitrary: sl)
  case (Cons w ws)
  obtain sch p rows where w: "w = (sch, p, rows)" by (cases w)
  with Cons.prems have "fitting ws" "\<forall>r \<in> set rows. fits sch r" by (simp_all add: fitting_def)
  with Cons.IH [OF _ agrees_write [OF Cons.prems(2)]] show ?case by (simp add: w)
qed simp

end

text \<open>
  Property C28: what a run of writes leaves survives a restart: a new store over the same database
  resumes at the advance, from where the archive stood, over exactly the positions whose write
  succeeded, and replays, in key order, exactly the payloads that were there or were written by a
  successful write, up to the position asked for.
\<close>

theorem restart_resumes:
  assumes "sql_archive D DB view tview P" and "store_sound view st0" and "fitting ws"
    and "run_writes (sql_store P D DB) ws st0 = (st, log)"
  shows "subseq log ws \<and>
    (sql_stored_position P D DB t (sql_store_new (pool st)) = Ok w \<longrightarrow>
       w = advance_all P (arc_mark P (view (pool st0)) t) (log_positions t log)) \<and>
    (sql_replay P D DB (replay_schema t) up_to (sql_store_new (pool st)) = Ok rs \<longrightarrow>
       (\<exists>out. rs = map (\<lambda>kj. [Text (snd kj)]) out \<and> sorted (map fst out) \<and>
          mset out = mset (filter (\<lambda>kj. fst kj \<le> int (unat (sort_key P up_to)))
            (arc_contents (view (pool st0)) t @ log_rows P t log))))"
proof -
  note contract = sql_archive.sql_store_contract [OF assms(1)]
  from store_contract.run_writes_agree [OF contract assms(3) store_contract.agrees_start [OF contract assms(2)]] assms(4)
  have agrees: "store_contract.agrees P (\<lambda>st. arc_contents (view (pool st))) (\<lambda>st. arc_mark P (view (pool st)))
      (store_sound view) st0 (st, log)" by (simp add: run_writes_def)
  note at_end = agrees [unfolded store_contract.agrees_def [OF contract], simplified]
  from at_end have fresh: "store_sound view (sql_store_new (pool st))"
    by (simp add: store_sound_def sql_store_new_def)
  have pool: "pool (sql_store_new (pool st)) = pool st" by (simp add: sql_store_new_def)
  have "subseq log ws" using run_writes_log [of "sql_store P D DB" ws "(st0, [])"] assms(4) by (simp add: run_writes_def)
  with at_end sql_archive.stored_position_mark [OF assms(1) fresh, of t w]
    sql_archive.replay_payloads [OF assms(1), of t up_to "sql_store_new (pool st)" rs]
  show ?thesis unfolding pool by simp
qed

text \<open>The write above, then one at a key past \<open>i64::MAX\<close>, then a restart.\<close>

definition demo_writes :: "block_position write_log" where
  "demo_writes = [(demo_schema, BlockPosition 8, [demo_row ''b'']), (demo_schema, BlockPosition 9223372036854775808, [demo_row ''c''])]"

lemma too_large_write: "sql_write block_position_ops pg_dialect (mem_db demo_race) demo_schema (BlockPosition 9223372036854775808) [demo_row ''c'']
    demo_after = (Err (KeyTooLarge 9223372036854775808), demo_after\<lparr>pool := (pool demo_after)\<lparr>attempts := 3\<rparr>\<rparr>)"
  by (simp add: sql_write_def sql_simps demo_after_def demo_migrated_def)

lemma restart_run: "run_writes (sql_store block_position_ops pg_dialect (mem_db demo_race)) demo_writes (sql_store_new demo_legacy) =
    (demo_after\<lparr>pool := (pool demo_after)\<lparr>attempts := 3\<rparr>\<rparr>, [(demo_schema, BlockPosition 8, [demo_row ''b''])])"
  by (simp add: run_writes_def demo_writes_def logging_write sql_store_def race_write too_large_write)

lemma demo_rows_fit: "fits demo_schema (demo_row s)"
  by (simp add: fits_def demo_schema_def demo_row_def payload_cell_def PAYLOAD_COLUMN_def)

lemma restart_resumes_witness:
  "case run_writes (sql_store block_position_ops pg_dialect (mem_db demo_race)) demo_writes (sql_store_new demo_legacy) of (st, log) \<Rightarrow>
     sql_stored_position block_position_ops pg_dialect (mem_db demo_race) ''ev'' (sql_store_new (pool st)) = Ok (Some (BlockPosition 8)) \<and>
     advance_all block_position_ops (arc_mark block_position_ops (disk demo_legacy) ''ev'') (log_positions ''ev'' log) = Some (BlockPosition 8)"
proof -
  let ?fresh = "sql_store_new ((pool demo_after)\<lparr>attempts := 3\<rparr>)"
  have fitting: "fitting demo_writes" by (simp add: fitting_def demo_writes_def demo_rows_fit)
  have read: "sql_stored_position block_position_ops pg_dialect (mem_db demo_race) ''ev'' ?fresh = Ok (Some (BlockPosition 8))"
    by (simp add: sql_stored_position_def sql_store_new_def mem_db_def demo_after_def demo_migrated_def backfilled_def
        with_position_def position_rows_def cell_def map_err_def block_decode_encode)
  have pool: "pool (sql_store_new demo_legacy) = demo_legacy" by (simp add: sql_store_new_def)
  have "Some (BlockPosition 8) = advance_all block_position_ops (arc_mark block_position_ops (disk demo_legacy) ''ev'')
      (log_positions ''ev'' [(demo_schema, BlockPosition 8, [demo_row ''b''])])"
    using restart_resumes [OF mem_pg.sql_archive_axioms demo_legacy_sound fitting restart_run,
        where t = "''ev''" and w = "Some (BlockPosition 8)"] read by (simp add: pool)
  with read show ?thesis by (simp add: restart_run)
qed

section \<open>The inserts\<close>

text \<open>A database that also keeps the statements of a transaction with what was bound to them.\<close>

definition traced :: "('d, 't) database \<Rightarrow> ('d, 't \<times> (stmt \<times> sql_value list) list) database" where
  "traced DB = \<lparr>
     db_begin = (\<lambda>d. case db_begin DB d of (Err e, d') \<Rightarrow> (Err e, d') | (Ok t, d') \<Rightarrow> (Ok (t, []), d')),
     db_exec = (\<lambda>st args (t, sent_so_far). case db_exec DB st args t of (r, t') \<Rightarrow> (r, (t', sent_so_far @ [(st, args)]))),
     db_commit = (\<lambda>(t, sent_so_far) d. db_commit DB t d),
     db_read = db_read DB\<rparr>"

lemma traced_exec:
  "tx_exec (traced DB) fail st args (t, log) = (let (r, t') = tx_exec DB fail st args t in (r, (t', log @ [(st, args)])))"
  by (simp add: tx_exec_def traced_def split: prod.splits sum.splits)

text \<open>An insert of one chunk: its statement, and what is bound.\<close>

definition insert_of :: "table_schema \<Rightarrow> i64 \<Rightarrow> row list \<Rightarrow> stmt \<times> sql_value list \<Rightarrow> bool" where
  "insert_of sch k chunk sa \<longleftrightarrow> sa = (Insert_rows sch (length chunk), concat (map (\<lambda>r. Integer k # r) chunk)) \<and>
     (\<forall>r \<in> set chunk. length r = length (schema_columns sch))"

lemma length_flat: "\<forall>r \<in> set c. length r = n \<Longrightarrow> length (concat (map (\<lambda>r. x # r) c)) = length c * (1 + n)"
  by (induction c) auto

lemma concat_map_concat: "concat (map (\<lambda>c. concat (map f c)) cs) = concat (map f (concat cs))"
  by (induction cs) auto

lemma chunk_args_Ok:
  "chunk_args sch k chunk = Ok args \<Longrightarrow> insert_of sch k chunk (Insert_rows sch (length chunk), args)"
  unfolding insert_of_def
  by (induction sch k chunk arbitrary: args rule: chunk_args.induct)
    (auto simp: bind_res_Ok_iff check_row_shape_def split: if_splits)

lemma insert_chunks_sent:
  "insert_chunks (traced DB) sch k cs (t, log) = (r, (t', log')) \<Longrightarrow>
     \<exists>n inserts. n \<le> length cs \<and> log' = log @ inserts \<and> list_all2 (insert_of sch k) (take n cs) inserts \<and> (is_ok r \<longrightarrow> n = length cs)"
proof (induction cs arbitrary: t log)
  case Nil
  then show ?case by (auto simp: tx_return_def)
next
  case (Cons c cs)
  show ?case
  proof (cases "chunk_args sch k c")
    case (Inl e)
    with Cons.prems have "log' = log" "\<not> is_ok r" by (auto simp: tx_bind_def tx_lift_def)
    then show ?thesis by (intro exI [of _ 0]) simp
  next
    case (Inr args)
    obtain x t1 where x: "tx_exec DB backend (Insert_rows sch (length c)) args t = (x, t1)" by fastforce
    have one: "insert_of sch k c (Insert_rows sch (length c), args)" by (rule chunk_args_Ok [OF Inr])
    let ?log = "log @ [(Insert_rows sch (length c), args)]"
    show ?thesis
    proof (cases x)
      case (Inl e)
      with Cons.prems Inr x have "log' = ?log" "\<not> is_ok r" by (auto simp: tx_bind_def tx_lift_def traced_exec)
      with one show ?thesis by (intro exI [of _ 1] exI [of _ "[(Insert_rows sch (length c), args)]"]) simp
    next
      case (Inr rows)
      with Cons.prems \<open>chunk_args sch k c = Ok args\<close> x
      have "insert_chunks (traced DB) sch k cs (t1, ?log) = (r, (t', log'))"
        by (simp add: tx_bind_def tx_lift_def traced_exec)
      from Cons.IH [OF this] obtain n inserts where "n \<le> length cs" "log' = ?log @ inserts"
        "list_all2 (insert_of sch k) (take n cs) inserts" "is_ok r \<longrightarrow> n = length cs" by blast
      with one show ?thesis
        by (intro exI [of _ "Suc n"] exI [of _ "(Insert_rows sch (length c), args) # inserts"]) simp
    qed
  qed
qed

text \<open>
  Property C31: the multi-row inserts of one write: every statement sent is an insert of some rows
  whose placeholders, in the order of the text, are numbered from one up to the number of values
  bound, and which binds at most 999 values unless a single row has more; when the inserts succeed
  the statements together bind every row exactly once, in order, each behind the sort key.
\<close>

theorem inserts_bind_every_row:
  assumes "insert_rows (traced DB) sch k rows (t, []) = (r, (t', log))"
  shows "list_all (\<lambda>(st, args). \<exists>n. st = Insert_rows sch n \<and>
       concat (map (row_placeholders D (length (insert_column_names sch))) [0..<n]) = map (placeholder D) [1..<Suc (length args)] \<and>
       (length args \<le> 999 \<or> n = 1)) log \<and>
     (is_ok r \<longrightarrow> concat (map snd log) = concat (map (\<lambda>row. Integer k # row) rows))"
proof -
  let ?w = "1 + length (schema_columns sch)"
  let ?cs = "chunks (rows_per_chunk ?w) rows"
  have "insert_chunks (traced DB) sch k ?cs (t, []) = (r, (t', log))"
    using assms by (simp add: insert_rows_def)
  from insert_chunks_sent [OF this] obtain n where all: "list_all2 (insert_of sch k) (take n ?cs) log"
    and full: "is_ok r \<longrightarrow> n = length ?cs" by auto
  have width: "length (insert_column_names sch) = ?w" by (simp add: insert_column_names_def)
  have each: "\<exists>n. st = Insert_rows sch n \<and>
       concat (map (row_placeholders D (length (insert_column_names sch))) [0..<n]) = map (placeholder D) [1..<Suc (length args)] \<and>
       (length args \<le> 999 \<or> n = 1)" if sa: "(st, args) \<in> set log" for st args
  proof -
    from sa obtain i where i: "i < length log" "log ! i = (st, args)" by (auto simp: in_set_conv_nth)
    from list_all2_nthD2 [OF all i(1)] i(2) have ins: "insert_of sch k (take n ?cs ! i) (st, args)" by simp
    have "i < length (take n ?cs)" using list_all2_lengthD [OF all] i(1) by simp
    then have "take n ?cs ! i \<in> set ?cs" by (rule in_set_takeD [OF nth_mem])
    with ins obtain c where c: "c \<in> set ?cs" and ins: "insert_of sch k c (st, args)" by blast
    from ins have len: "length args = length c * ?w"
      using length_flat [of c "length (schema_columns sch)" "Integer k"] by (auto simp: insert_of_def)
    from chunks_bound [OF c] rows_per_chunk_cap [of "length c" ?w]
    have "length args \<le> 999 \<or> length c = 1" by (auto simp: len BIND_PARAM_CAP_def le_Suc_eq)
    moreover from ins have "st = Insert_rows sch (length c)" by (simp add: insert_of_def)
    ultimately show ?thesis by (intro exI [of _ "length c"]) (simp add: insert_placeholders width len del: upt_Suc)
  qed
  have "concat (map snd log) = concat (map (\<lambda>row. Integer k # row) rows)" if "is_ok r"
  proof -
    from all full that have "list_all2 (insert_of sch k) ?cs log" by simp
    then have "map snd log = map (\<lambda>c. concat (map (\<lambda>r. Integer k # r) c)) ?cs"
      by (induction rule: list_all2_induct) (auto simp: insert_of_def)
    then have "concat (map snd log) = concat (map (\<lambda>r. Integer k # r) (concat ?cs))"
      by (simp add: concat_map_concat)
    then show ?thesis by (simp add: concat_chunks)
  qed
  with each show ?thesis unfolding list_all_iff by blast
qed

text \<open>A sound database, and a transaction over the old archive.\<close>

abbreviation no_faults :: "nat \<Rightarrow> mem_call \<Rightarrow> mem_fault option" where
  "no_faults \<equiv> \<lambda>n c. None"

definition demo_txn :: mem_txn where
  "demo_txn = \<lparr>tx_now = disk demo_legacy, tx_saved = None, tx_broken = False, attempt = 0\<rparr>"

lemma inserts_bind_every_row_witness:
  "case insert_rows (traced (mem_db no_faults)) demo_schema 8 [demo_row ''b'', demo_row ''c''] (demo_txn, []) of (r, t', log) \<Rightarrow>
     is_ok r \<and> concat (map snd log) = [Integer 8, Text ''b'', Text ''jb'', Integer 8, Text ''c'', Text ''jc'']"
proof -
  obtain r t' log where run: "insert_rows (traced (mem_db no_faults)) demo_schema 8 [demo_row ''b'', demo_row ''c'']
      (demo_txn, []) = (r, (t', log))" by (metis surj_pair)
  have "is_ok (fst (insert_rows (traced (mem_db no_faults)) demo_schema 8 [demo_row ''b'', demo_row ''c''] (demo_txn, [])))"
    by (simp add: sql_simps traced_def demo_txn_def)
  with run have "is_ok r" by simp
  with inserts_bind_every_row [OF run, of pg_dialect] run show ?thesis by (simp add: demo_row_def)
qed

section \<open>Reading the resume point\<close>

text \<open>
  The resume point of a table's progress row as text: the position where the column exists and is not
  NULL, else the block, if that is not NULL.
\<close>

definition resume_text :: "progress \<Rightarrow> string \<Rightarrow> string option" where
  "resume_text pr t = (case entries pr t of
     None \<Rightarrow> None
   | Some (last_block, pos) \<Rightarrow>
       (case (if has_position pr then pos else None) of Some x \<Rightarrow> Some x | None \<Rightarrow> map_option i64_to_string last_block))"

text \<open>The resume point a progress row stands for, or the error of a row that stands for none.\<close>

definition row_resumes :: "'p position_ops \<Rightarrow> progress \<Rightarrow> string \<Rightarrow> store_error + 'p" where
  "row_resumes P pr t = (case resume_text pr t of
     None \<Rightarrow> Err (CorruptProgress t) | Some x \<Rightarrow> map_err BadPosition (decode_position P x))"

lemma row_resumes_position:
  "has_position pr \<Longrightarrow> entries pr t = Some (b, Some x) \<Longrightarrow> row_resumes P pr t = map_err BadPosition (decode_position P x)"
  by (simp add: row_resumes_def resume_text_def)

lemma row_resumes_block:
  "\<not> has_position pr \<or> pos = None \<Longrightarrow> entries pr t = Some (b, pos) \<Longrightarrow> row_resumes P pr t =
     (case b of None \<Rightarrow> Err (CorruptProgress t) | Some k \<Rightarrow> map_err BadPosition (decode_position P (i64_to_string k)))"
  by (cases b) (auto simp: row_resumes_def resume_text_def)

text \<open>The answers of a store to the question where to resume, by the row of the table.\<close>

definition resumes_from ::
  "'p position_ops \<Rightarrow> dialect \<Rightarrow> ('d, 't) database \<Rightarrow> archive \<Rightarrow> string \<Rightarrow> 'd \<Rightarrow> store_error + 'p option \<Rightarrow> bool" where
  "resumes_from P D DB A t d answer \<longleftrightarrow>
     (case answer of
        Ok None \<Rightarrow> \<forall>pr. arc_progress A = Some pr \<longrightarrow> entries pr t = None
      | Ok (Some p) \<Rightarrow> \<exists>pr. arc_progress A = Some pr \<and> entries pr t \<noteq> None \<and> row_resumes P pr t = Ok p
      | Err e \<Rightarrow>
          (\<exists>pr. arc_progress A = Some pr \<and> entries pr t \<noteq> None \<and> row_resumes P pr t = Err e) \<or>
          (\<exists>q x. q \<in> {Stored_position, Last_block} \<and> db_read DB q [Text t] d = Err x \<and> \<not> is_undefined_table D x \<and> e = backend x))"

context sql_backend begin

lemma last_block_resumes:
  assumes "\<And>pr b pos. arc_progress (view d) = Some pr \<Longrightarrow> entries pr t = Some (b, pos) \<Longrightarrow> \<not> has_position pr \<or> pos = None"
  shows "resumes_from P D DB (view d) t d (resume_from_last_block P D DB t d)"
proof (cases "db_read DB Last_block [Text t] d")
  case (Inl e)
  then show ?thesis using read_missing_table [OF Inl]
    by (auto simp: resumes_from_def resume_from_last_block_def)
next
  case (Inr rows)
  from read_ok [OF Inr] obtain pr where pr: "arc_progress (view d) = Some pr" and rows: "rows = last_block_rows pr t" by auto
  show ?thesis
  proof (cases "entries pr t")
    case None
    with Inr pr rows show ?thesis by (simp add: resumes_from_def resume_from_last_block_def last_block_rows_def)
  next
    case (Some row)
    then obtain b pos where row: "entries pr t = Some (b, pos)" by (cases row) auto
    from row_resumes_block [where P = P, OF assms [OF pr row] row] pr row show ?thesis
      by (cases b; cases "decode_position P (i64_to_string (the b))")
        (simp_all add: resumes_from_def resume_from_last_block_def Inr rows last_block_rows_def cell_def map_err_def)
  qed
qed

lemma stored_position_resumes:
  "resumes_from P D DB (view (pool st)) t (pool st) (sql_stored_position P D DB t st)"
proof (cases "db_read DB Stored_position [Text t] (pool st)")
  case (Inl e)
  consider "is_undefined_table D e" | "\<not> is_undefined_table D e" "is_undefined_column D e"
    | "\<not> is_undefined_table D e" "\<not> is_undefined_column D e" by blast
  then show ?thesis
  proof cases
    case 1
    with read_missing_table [OF Inl] show ?thesis by (simp add: resumes_from_def sql_stored_position_def Inl)
  next
    case 2
    have "resumes_from P D DB (view (pool st)) t (pool st) (resume_from_last_block P D DB t (pool st))"
      by (rule last_block_resumes) (use read_missing_column [OF Inl 2(2)] in auto)
    with 2 show ?thesis by (simp add: sql_stored_position_def Inl)
  next
    case 3
    with Inl show ?thesis by (auto simp: resumes_from_def sql_stored_position_def)
  qed
next
  case (Inr rows)
  from read_ok [OF Inr] obtain pr where pr: "arc_progress (view (pool st)) = Some pr" "has_position pr"
    and rows: "rows = position_rows pr t" by auto
  consider "entries pr t = None" | b where "entries pr t = Some (b, None)" | b x where "entries pr t = Some (b, Some x)"
    by (metis option.exhaust surj_pair)
  then show ?thesis
  proof cases
    case 1
    with pr rows Inr show ?thesis by (simp add: resumes_from_def sql_stored_position_def position_rows_def)
  next
    case 2
    have "resumes_from P D DB (view (pool st)) t (pool st) (resume_from_last_block P D DB t (pool st))"
      by (rule last_block_resumes) (use pr 2 in auto)
    with 2 rows Inr show ?thesis by (simp add: sql_stored_position_def position_rows_def cell_def)
  next
    case 3
    from row_resumes_position [where P = P, OF pr(2) 3] pr 3 show ?thesis
      by (cases "decode_position P x")
        (simp_all add: resumes_from_def sql_stored_position_def Inr rows position_rows_def cell_def map_err_def)
  qed
qed

end

text \<open>
  Property C32: a store never resumes from a wrong place, above all not from the start by mistake. It
  reports that nothing is stored for a table only when there is no progress row for it at all; it
  reports a position only when there is such a row and the position is the one the row's text decodes
  to, which is the position column where it exists and is not NULL, else the block where that is not
  NULL; and it fails only with the error of the row, that is a corrupt one for a row with neither, or
  of a text that does not decode, or with the error of a query that failed. So a row without a usable
  resume point is always an error, never a position and never "nothing stored".
\<close>

theorem no_silent_genesis:
  assumes "sql_backend D DB view tview"
  shows "case sql_stored_position P D DB t st of
      Ok None \<Rightarrow> \<forall>pr. arc_progress (view (pool st)) = Some pr \<longrightarrow> entries pr t = None
    | Ok (Some p) \<Rightarrow> \<exists>pr. arc_progress (view (pool st)) = Some pr \<and> entries pr t \<noteq> None \<and> row_resumes P pr t = Ok p
    | Err e \<Rightarrow>
        (\<exists>pr. arc_progress (view (pool st)) = Some pr \<and> entries pr t \<noteq> None \<and> row_resumes P pr t = Err e) \<or>
        (\<exists>q x. q \<in> {Stored_position, Last_block} \<and> db_read DB q [Text t] (pool st) = Err x \<and> \<not> is_undefined_table D x \<and>
           e = backend x)"
  using sql_backend.stored_position_resumes [OF assms] unfolding resumes_from_def .

text \<open>A row that an old binary left with neither a position nor a block.\<close>

definition demo_corrupt :: mem_disk where
  "demo_corrupt = \<lparr>
     disk = \<lparr>arc_progress = Some \<lparr>has_position = True, entries = [''ev'' \<mapsto> (None, None), ''old'' \<mapsto> (Some 10, None)]\<rparr>,
       arc_tables = [''ev'' \<mapsto> []]\<rparr>,
     attempts = 0\<rparr>"

lemma no_silent_genesis_witness:
  "sql_stored_position block_position_ops pg_dialect (mem_db no_faults) ''new'' (sql_store_new demo_corrupt) = Ok None \<and>
   sql_stored_position block_position_ops pg_dialect (mem_db no_faults) ''old'' (sql_store_new demo_corrupt) = Ok (Some (BlockPosition 10)) \<and>
   sql_stored_position block_position_ops pg_dialect (mem_db no_faults) ''ev'' (sql_store_new demo_corrupt) = Err (CorruptProgress ''ev'')"
proof -
  note reads = sql_stored_position_def sql_store_new_def mem_db_def demo_corrupt_def resume_from_last_block_def
    last_block_rows_def position_rows_def cell_def map_err_def block_decode_last_block
  have none: "sql_stored_position block_position_ops pg_dialect (mem_db no_faults) ''new'' (sql_store_new demo_corrupt) = Ok None"
    and some: "sql_stored_position block_position_ops pg_dialect (mem_db no_faults) ''old'' (sql_store_new demo_corrupt) = Ok (Some (BlockPosition 10))"
    by (simp_all add: reads)
  have sound: "\<nexists>q x. q \<in> {Stored_position, Last_block} \<and>
      db_read (mem_db no_faults) q [Text ''ev''] (pool (sql_store_new demo_corrupt)) = Err x"
    by (auto simp: mem_db_def sql_store_new_def demo_corrupt_def)
  have row: "row_resumes block_position_ops pr ''ev'' = Err (CorruptProgress ''ev'')"
    if "arc_progress (disk (pool (sql_store_new demo_corrupt))) = Some pr" for pr :: progress
    using that by (auto simp: sql_store_new_def demo_corrupt_def row_resumes_def resume_text_def)
  have entry: "\<exists>pr. arc_progress (disk (pool (sql_store_new demo_corrupt))) = Some pr \<and> entries pr ''ev'' \<noteq> None"
    by (simp add: sql_store_new_def demo_corrupt_def)
  let ?r = "sql_stored_position block_position_ops pg_dialect (mem_db no_faults) ''ev'' (sql_store_new demo_corrupt)"
  from no_silent_genesis [OF mem_pg.sql_backend_axioms [of no_faults], where P = block_position_ops and t = "''ev''" and st = "sql_store_new demo_corrupt"] sound row entry
  have "?r = Err (CorruptProgress ''ev'')"
    by (cases ?r rule: sum.exhaust [case_names Err Ok]) (auto split: option.splits)
  with none some show ?thesis by blast
qed

definition demo_null_cell :: mem_disk where
  "demo_null_cell = \<lparr>
     disk = \<lparr>arc_progress = Some \<lparr>has_position = True, entries = [''ev'' \<mapsto> (Some 10, None)]\<rparr>, arc_tables = [''ev'' \<mapsto> []]\<rparr>,
     attempts = 0\<rparr>"

text \<open>
  Where the writer's comment says a NULL position cannot occur and the reader's says
  it can (an old binary wrote after the migration), the two disagree on what such a row means: the
  reader resumes from its block, here 10, but a write at an earlier position, here 5, finds no
  previous watermark, succeeds, and leaves 5 as the resume point.
\<close>

lemma null_cell_rewinds:
  "sql_stored_position block_position_ops sqlite_dialect (mem_db no_faults) ''ev'' (sql_store_new demo_null_cell)
     = Ok (Some (BlockPosition 10)) \<and>
   (case sql_write block_position_ops sqlite_dialect (mem_db no_faults) demo_schema (BlockPosition 5) [demo_row ''b'']
           (sql_store_new demo_null_cell) of (r, st') \<Rightarrow>
      r = Ok () \<and> sql_stored_position block_position_ops sqlite_dialect (mem_db no_faults) ''ev'' st' = Ok (Some (BlockPosition 5)))"
  by (simp add: sql_stored_position_def sql_write_def sql_simps demo_null_cell_def block_decode_encode
      resume_from_last_block_def last_block_rows_def block_decode_last_block mem_db_def)

end
