(* ===== verification/Strategy_Ext.thy ===== *)
theory Strategy_Ext
  imports Engine Executors_Ext
begin

text \<open>
  The strategy combinators (\<open>src/src/strategy_ext.rs\<close> and \<open>src/src/strategy_ext/\<close>).

  A boxed strategy acts on a world that holds its state. Its action stream is lazy: each poll may
  change the world, and yields an action with the rest of the stream or ends it; streams are
  finite. A combinator that owns state of its own wraps the world.
\<close>

section \<open>Action streams\<close>

datatype ('a, 'w) actions = Actions (poll: "'w \<Rightarrow> ('a \<times> ('a, 'w) actions) option \<times> 'w")

record ('e, 'a, 'w) strategy =
  sync :: "'w \<Rightarrow> (anyhow + unit) \<times> 'w"
  process :: "'e \<Rightarrow> 'w \<Rightarrow> (anyhow + ('a, 'w) actions) \<times> 'w"

definition no_actions :: "('a, 'w) actions" where
  "no_actions = Actions (\<lambda>w. (None, w))"

text \<open>\<open>StreamExt::map\<close> and \<open>StreamExt::filter\<close>: one poll of the filter polls until an action passes.\<close>

primrec map_actions :: "('a \<Rightarrow> 'b) \<Rightarrow> ('a, 'w) actions \<Rightarrow> ('b, 'w) actions" where
  "map_actions f (Actions p) =
     Actions (\<lambda>w. map_prod (map_option (map_prod f id)) id (map_prod (map_option (map_prod id (map_actions f))) id (p w)))"

primrec filtered :: "('a \<Rightarrow> bool) \<Rightarrow> ('a, 'w) actions \<Rightarrow> ('a, 'w) actions" where
  "filtered pred (Actions p) = Actions (\<lambda>w.
     case map_prod (map_option (map_prod id (filtered pred))) id (p w) of
       (None, w') \<Rightarrow> (None, w')
     | (Some (a, rest), w') \<Rightarrow> if pred a then (Some (a, rest), w') else poll rest w')"

text \<open>A stream drawn to its end.\<close>

primrec drain_all :: "('a, 'w) actions \<Rightarrow> 'w \<Rightarrow> 'a list \<times> 'w" where
  "drain_all (Actions p) = (\<lambda>w.
     case map_prod (map_option (map_prod id drain_all)) id (p w) of
       (None, w') \<Rightarrow> ([], w')
     | (Some (a, rest), w') \<Rightarrow> (case rest w' of (as, w'') \<Rightarrow> (a # as, w'')))"

lemma actions_induct [case_names Actions]:
  assumes "\<And>p. (\<And>w a rest w'. p w = (Some (a, rest), w') \<Longrightarrow> Q rest) \<Longrightarrow> Q (Actions p)"
  shows "Q s"
proof (induction s)
  case (Actions p)
  show ?case
  proof (rule assms)
    fix w a rest w' assume "p w = (Some (a, rest), w')"
    from rangeI [of p w] this show "Q rest" by (intro Actions [of "p w" "Some (a, rest)" "(a, rest)"]) auto
  qed
qed

lemma drain_no_actions [simp]: "drain_all no_actions w = ([], w)"
  by (simp add: no_actions_def)

lemma poll_Actions: "poll (Actions p) = p"
  by simp

lemma drain_poll:
  "drain_all s w = (case poll s w of (None, w') \<Rightarrow> ([], w')
     | (Some (a, rest), w') \<Rightarrow> (a # fst (drain_all rest w'), snd (drain_all rest w')))"
  by (cases s) (auto split: prod.splits option.splits)

lemma drain_map_actions:
  "drain_all (map_actions f s) w = (map f (fst (drain_all s w)), snd (drain_all s w))"
proof (induction s arbitrary: w rule: actions_induct)
  case (Actions p)
  obtain x w' where x: "p w = (x, w')" by (cases "p w")
  show ?case
  proof (cases x)
    case (Some ar)
    obtain a rest where ar: "ar = (a, rest)" by (cases ar)
    have "drain_all (map_actions f rest) w' = (map f (fst (drain_all rest w')), snd (drain_all rest w'))"
      by (rule Actions [of w]) (simp add: x Some ar)
    then show ?thesis by (simp add: x Some ar split: prod.split)
  qed (simp add: x)
qed

lemma drain_filtered:
  "drain_all (filtered pred s) w = (filter pred (fst (drain_all s w)), snd (drain_all s w))"
proof (induction s arbitrary: w rule: actions_induct)
  case (Actions p)
  obtain x w' where x: "p w = (x, w')" by (cases "p w")
  show ?case
  proof (cases x)
    case (Some ar)
    obtain a rest where ar: "ar = (a, rest)" by (cases ar)
    have ih: "drain_all (filtered pred rest) w' = (filter pred (fst (drain_all rest w')), snd (drain_all rest w'))"
      by (rule Actions [of w]) (simp add: x Some ar)
    show ?thesis
    proof (cases "pred a")
      case True
      with ih show ?thesis by (simp add: x Some ar split: prod.split)
    next
      case False
      then have "drain_all (filtered pred (Actions p)) w = drain_all (filtered pred rest) w'"
        by (simp add: drain_poll [of "filtered pred rest"] x Some ar split: prod.split option.split)
      with ih False show ?thesis by (simp add: x Some ar split: prod.split)
    qed
  qed (simp add: x)
qed

section \<open>The stateless combinators\<close>

definition filter_map_event :: "('e2 \<Rightarrow> 'e option) \<Rightarrow> ('e, 'a, 'w) strategy \<Rightarrow> ('e2, 'a, 'w) strategy" where
  "filter_map_event f S = \<lparr>
     sync = sync S,
     process = (\<lambda>e w. case f e of Some e' \<Rightarrow> process S e' w | None \<Rightarrow> (Ok no_actions, w))\<rparr>"

definition map_action :: "('a \<Rightarrow> 'b) \<Rightarrow> ('e, 'a, 'w) strategy \<Rightarrow> ('e, 'b, 'w) strategy" where
  "map_action f S = \<lparr>
     sync = sync S,
     process = (\<lambda>e w. case process S e w of
         (Err x, w') \<Rightarrow> (Err x, w')
       | (Ok stream, w') \<Rightarrow> (Ok (map_actions f stream), w'))\<rparr>"

definition filter_actions :: "('a \<Rightarrow> bool) \<Rightarrow> ('e, 'a, 'w) strategy \<Rightarrow> ('e, 'a, 'w) strategy" where
  "filter_actions predicate S = \<lparr>
     sync = sync S,
     process = (\<lambda>e w. case process S e w of
         (Err x, w') \<Rightarrow> (Err x, w')
       | (Ok stream, w') \<Rightarrow> (Ok (filtered predicate stream), w'))\<rparr>"

section \<open>The cooldown\<close>

record 'w cooled =
  last_fired :: "instant option"
  inner_world :: 'w

definition cooldown_new :: "'w \<Rightarrow> 'w cooled" where
  "cooldown_new w = \<lparr>last_fired = None, inner_world = w\<rparr>"

text \<open>The two streams: every action suppressed, or every action stamped as it passes.\<close>

primrec suppressed :: "('a, 'w) actions \<Rightarrow> ('a, 'w cooled) actions" where
  "suppressed (Actions p) = Actions (\<lambda>c.
     case map_prod (map_option (map_prod id suppressed)) id (p (inner_world c)) of
       (None, w') \<Rightarrow> (None, c\<lparr>inner_world := w'\<rparr>)
     | (Some (a, rest), w') \<Rightarrow> poll rest (c\<lparr>inner_world := w'\<rparr>))"

primrec stamped :: "'w clock \<Rightarrow> ('a, 'w) actions \<Rightarrow> ('a, 'w cooled) actions" where
  "stamped T (Actions p) = Actions (\<lambda>c.
     case map_prod (map_option (map_prod id (stamped T))) id (p (inner_world c)) of
       (None, w') \<Rightarrow> (None, c\<lparr>inner_world := w'\<rparr>)
     | (Some (a, rest), w') \<Rightarrow> (Some (a, rest), c\<lparr>inner_world := w', last_fired := Some (now T w')\<rparr>))"

definition cooling :: "'w clock \<Rightarrow> duration \<Rightarrow> 'w cooled \<Rightarrow> bool" where
  "cooling T duration c = (case last_fired c of None \<Rightarrow> False | Some fired \<Rightarrow> now T (inner_world c) - fired < duration)"

definition cooldown :: "'w clock \<Rightarrow> duration \<Rightarrow> ('e, 'a, 'w) strategy \<Rightarrow> ('e, 'a, 'w cooled) strategy" where
  "cooldown T duration S = \<lparr>
     sync = (\<lambda>c. case sync S (inner_world c) of (r, w') \<Rightarrow> (r, c\<lparr>inner_world := w'\<rparr>)),
     process = (\<lambda>e c.
       let is_cooling = cooling T duration c in
       (case process S e (inner_world c) of
          (Err x, w') \<Rightarrow> (Err x, c\<lparr>inner_world := w'\<rparr>)
        | (Ok stream, w') \<Rightarrow>
            (Ok (if is_cooling then suppressed stream else stamped T stream), c\<lparr>inner_world := w'\<rparr>)))\<rparr>"

lemma poll_suppressed:
  "poll (suppressed s) c = (None, c\<lparr>inner_world := snd (drain_all s (inner_world c))\<rparr>)"
proof (induction s arbitrary: c rule: actions_induct)
  case (Actions p)
  obtain x w' where x: "p (inner_world c) = (x, w')" by (cases "p (inner_world c)")
  show ?case
  proof (cases x)
    case (Some ar)
    obtain a rest where ar: "ar = (a, rest)" by (cases ar)
    have "poll (suppressed rest) (c\<lparr>inner_world := w'\<rparr>) =
        (None, c\<lparr>inner_world := w'\<rparr>\<lparr>inner_world := snd (drain_all rest (inner_world (c\<lparr>inner_world := w'\<rparr>)))\<rparr>)"
      by (rule Actions [of "inner_world c"]) (simp add: x Some ar)
    then show ?thesis by (simp add: x Some ar split: prod.split)
  qed (simp add: x)
qed

section \<open>A strategy under the engine\<close>

text \<open>
  A turn: what happens until the next event arrives, the event, and how many of its actions are
  drawn before the task is cancelled; each drawn action is sent, which may take time too. A turn
  gives the instant of the call and, for each action, the instant it was drawn at.
\<close>

record ('e, 'w) turn =
  meanwhile :: "'w \<Rightarrow> 'w"
  arrival :: 'e
  draws :: nat

fun draw :: "'w clock \<Rightarrow> ('a \<Rightarrow> 'w \<Rightarrow> 'w) \<Rightarrow> nat \<Rightarrow> ('a, 'w cooled) actions \<Rightarrow> 'w cooled \<Rightarrow> ('a \<times> instant) list \<times> 'w cooled" where
  "draw T send 0 s c = ([], c)"
| "draw T send (Suc n) s c =
     (case poll s c of
        (None, c') \<Rightarrow> ([], c')
      | (Some (a, rest), c') \<Rightarrow>
          (case draw T send n rest (c'\<lparr>inner_world := send a (inner_world c')\<rparr>) of
             (drawn, c'') \<Rightarrow> ((a, now T (inner_world c')) # drawn, c'')))"

definition take_turn ::
  "'w clock \<Rightarrow> ('a \<Rightarrow> 'w \<Rightarrow> 'w) \<Rightarrow> ('e, 'a, 'w cooled) strategy \<Rightarrow> ('e, 'w) turn \<Rightarrow> 'w cooled
     \<Rightarrow> (instant \<times> ('a \<times> instant) list) \<times> 'w cooled" where
  "take_turn T send S t c =
     (let c = c\<lparr>inner_world := meanwhile t (inner_world c)\<rparr>; called = now T (inner_world c) in
      (case process S (arrival t) c of
         (Err x, c') \<Rightarrow> ((called, []), c')
       | (Ok stream, c') \<Rightarrow> (case draw T send (draws t) stream c' of (drawn, c'') \<Rightarrow> ((called, drawn), c''))))"

fun take_turns ::
  "'w clock \<Rightarrow> ('a \<Rightarrow> 'w \<Rightarrow> 'w) \<Rightarrow> ('e, 'a, 'w cooled) strategy \<Rightarrow> ('e, 'w) turn list \<Rightarrow> 'w cooled
     \<Rightarrow> (instant \<times> ('a \<times> instant) list) list" where
  "take_turns T send S [] c = []"
| "take_turns T send S (t # ts) c = (case take_turn T send S t c of (b, c') \<Rightarrow> b # take_turns T send S ts c')"

lemma draw_suppressed:
  "0 < n \<Longrightarrow> draw T send n (suppressed s) c = ([], c\<lparr>inner_world := snd (drain_all s (inner_world c))\<rparr>)"
  by (cases n) (simp_all add: poll_suppressed)

lemma draw_suppressed_quiet:
  "fst (draw T send n (suppressed s) c) = [] \<and> last_fired (snd (draw T send n (suppressed s) c)) = last_fired c"
  by (cases n) (simp_all add: poll_suppressed)

text \<open>What passes is stamped: the cell ends at the last draw.\<close>

lemma draw_stamped:
  "draw T send n (stamped T s) c = (drawn, c') \<Longrightarrow>
     last_fired c' = (if drawn = [] then last_fired c else Some (snd (last drawn)))"
proof (induction n arbitrary: s c drawn)
  case (Suc n)
  obtain p where s: "s = Actions p" by (cases s)
  obtain x w' where x: "p (inner_world c) = (x, w')" by (cases "p (inner_world c)")
  show ?case
  proof (cases x)
    case None
    with Suc.prems show ?thesis by (auto simp: s x)
  next
    case (Some ar)
    obtain a rest where ar: "ar = (a, rest)" by (cases ar)
    obtain more where run: "draw T send n (stamped T rest) (c\<lparr>last_fired := Some (now T w'), inner_world := send a w'\<rparr>) = (more, c')"
      and drawn: "drawn = (a, now T w') # more"
      using Suc.prems by (auto simp: s x Some ar split: prod.splits)
    from Suc.IH [OF run] drawn show ?thesis by simp
  qed
qed simp

text \<open>Batches that hold actions, each called at least the cooldown after the last action before it.\<close>

fun apart :: "duration \<Rightarrow> instant option \<Rightarrow> (instant \<times> ('a \<times> instant) list) list \<Rightarrow> bool" where
  "apart d fired [] = True"
| "apart d fired ((called, drawn) # rest) =
     (if drawn = [] then apart d fired rest
      else (case fired of None \<Rightarrow> True | Some t \<Rightarrow> t + d \<le> called \<or> d = 0) \<and> apart d (Some (snd (last drawn))) rest)"

lemma take_turn_cooled:
  assumes "take_turn T send (cooldown T d S) t c = ((called, drawn), c')"
  shows "last_fired c' = (if drawn = [] then last_fired c else Some (snd (last drawn))) \<and>
    (drawn \<noteq> [] \<longrightarrow> (case last_fired c of None \<Rightarrow> True | Some f \<Rightarrow> f + d \<le> called \<or> d = 0))"
proof -
  let ?c = "c\<lparr>inner_world := meanwhile t (inner_world c)\<rparr>"
  have called: "called = now T (inner_world ?c)"
    using assms by (auto simp: take_turn_def Let_def split: prod.splits sum.splits)
  obtain r w' where r: "process S (arrival t) (inner_world ?c) = (r, w')" by fastforce
  show ?thesis
  proof (cases r)
    case (Inl x)
    with assms r show ?thesis by (auto simp: take_turn_def cooldown_def Let_def)
  next
    case (Inr stream)
    show ?thesis
    proof (cases "cooling T d ?c")
      case True
      with assms r Inr have "draw T send (draws t) (suppressed stream) (?c\<lparr>inner_world := w'\<rparr>) = (drawn, c')"
        by (auto simp: take_turn_def cooldown_def Let_def split: prod.splits)
      with draw_suppressed_quiet [of T send "draws t" stream "?c\<lparr>inner_world := w'\<rparr>"] show ?thesis by simp
    next
      case False
      with assms r Inr have "draw T send (draws t) (stamped T stream) (?c\<lparr>inner_world := w'\<rparr>) = (drawn, c')"
        by (auto simp: take_turn_def cooldown_def Let_def split: prod.splits)
      from draw_stamped [OF this] False show ?thesis
        by (auto simp: called cooling_def split: option.splits)
    qed
  qed
qed

lemma cooled_turns_apart: "apart d (last_fired c) (take_turns T send (cooldown T d S) ts c)"
proof (induction ts arbitrary: c)
  case (Cons t ts)
  obtain called drawn c' where run: "take_turn T send (cooldown T d S) t c = ((called, drawn), c')" by (metis surj_pair)
  from take_turn_cooled [OF run] Cons.IH [of c'] show ?case by (simp add: run split: if_splits)
qed simp

section \<open>As the engine sees it\<close>

text \<open>The dictionary of the engine's strategy task, which draws a stream before the next event.\<close>

definition mounted :: "('e, 'a, 'w) strategy \<Rightarrow> ('e, 'a, 'w) strategy_ops" where
  "mounted S = \<lparr>
     sync_state = sync S,
     process_event = (\<lambda>w e. case process S e w of
         (Err x, w') \<Rightarrow> (Err x, w')
       | (Ok stream, w') \<Rightarrow> (case drain_all stream w' of (as, w'') \<Rightarrow> (Ok as, w'')))\<rparr>"

lemma mounted_filter_map_event:
  "process_event (mounted (filter_map_event f S)) w e =
     (case f e of None \<Rightarrow> (Ok [], w) | Some e' \<Rightarrow> process_event (mounted S) w e')"
  by (simp add: mounted_def filter_map_event_def split: option.split)

lemma mounted_map_action:
  "process_event (mounted (map_action f S)) w e = apfst (map_sum id (map f)) (process_event (mounted S) w e)"
  by (simp add: mounted_def map_action_def drain_map_actions split: prod.split sum.split)

lemma mounted_filter_actions:
  "process_event (mounted (filter_actions pred S)) w e = apfst (map_sum id (filter pred)) (process_event (mounted S) w e)"
  by (simp add: mounted_def filter_actions_def drain_filtered split: prod.split sum.split)

lemma mounted_sync [simp]:
  "sync_state (mounted (filter_map_event f S)) = sync_state (mounted S)"
  "sync_state (mounted (map_action g S)) = sync_state (mounted S)"
  "sync_state (mounted (filter_actions pred S)) = sync_state (mounted S)"
  by (simp_all add: mounted_def filter_map_event_def map_action_def filter_actions_def)

end
