(* ===== verification/Collector_Ext.thy ===== *)
theory Collector_Ext
  imports Main Prelude "HOL-Library.Sublist" "HOL-Library.Multiset"
begin

text \<open>
  The collector combinators (\<open>src/src/collector_ext.rs\<close> and \<open>src/src/collector_ext/\<close>).

  A collector is a function on the world: subscribing changes it and gives an error or a stream, the
  list of the items it will deliver. How \<open>futures::stream::select\<close> and \<open>select_all\<close> interleave is a
  parameter of the model.
\<close>

section \<open>The combinators\<close>

type_synonym ('e, 'w) collector = "'w \<Rightarrow> (string + 'e list) \<times> 'w"

definition subscribe_filter_mapped :: "('e, 'w) collector \<Rightarrow> ('e \<Rightarrow> 'f option) \<Rightarrow> ('f, 'w) collector" where
  "subscribe_filter_mapped C f w =
     (case C w of (Err e, w') \<Rightarrow> (Err e, w') | (Ok stream, w') \<Rightarrow> (Ok (List.map_filter f stream), w'))"

definition collector_filter_map :: "('e, 'w) collector \<Rightarrow> ('e \<Rightarrow> 'f option) \<Rightarrow> ('f, 'w) collector" where
  "collector_filter_map C f = subscribe_filter_mapped C f"

definition collector_map :: "('e, 'w) collector \<Rightarrow> ('e \<Rightarrow> 'f) \<Rightarrow> ('f, 'w) collector" where
  "collector_map C f = subscribe_filter_mapped C (\<lambda>event. Some (f event))"

definition merge :: "('e list \<Rightarrow> 'e list \<Rightarrow> 'e list) \<Rightarrow> ('e, 'w) collector \<Rightarrow> ('e, 'w) collector \<Rightarrow> ('e, 'w) collector" where
  "merge select this other w =
     (case this w of
        (Err e, w') \<Rightarrow> (Err e, w')
      | (Ok this_stream, w') \<Rightarrow>
          (case other w' of
             (Err e, w'') \<Rightarrow> (Err e, w'')
           | (Ok other_stream, w'') \<Rightarrow> (Ok (select this_stream other_stream), w'')))"

definition collector_chain :: "('e, 'w) collector \<Rightarrow> ('e, 'w) collector \<Rightarrow> ('e, 'w) collector" where
  "collector_chain first second w =
     (case first w of
        (Err e, w') \<Rightarrow> (Err e, w')
      | (Ok first_stream, w') \<Rightarrow>
          (case second w' of
             (Err e, w'') \<Rightarrow> (Err e, w'')
           | (Ok second_stream, w'') \<Rightarrow> (Ok (first_stream @ second_stream), w'')))"

text \<open>The loop of \<open>merge_all\<close> and \<open>chain_all\<close>: every source subscribed in order, the first error returned.\<close>

fun subscribe_all :: "('e, 'w) collector list \<Rightarrow> 'w \<Rightarrow> (string + 'e list list) \<times> 'w" where
  "subscribe_all [] w = (Ok [], w)"
| "subscribe_all (source # sources) w =
     (case source w of
        (Err e, w') \<Rightarrow> (Err e, w')
      | (Ok stream, w') \<Rightarrow>
          (case subscribe_all sources w' of
             (Err e, w'') \<Rightarrow> (Err e, w'')
           | (Ok streams, w'') \<Rightarrow> (Ok (stream # streams), w'')))"

definition merge_all :: "('e list list \<Rightarrow> 'e list) \<Rightarrow> ('e, 'w) collector list \<Rightarrow> ('e, 'w) collector" where
  "merge_all select_all sources w =
     (if sources = [] then (Err ''merge_all has no sources; nothing to subscribe to'', w)
      else (case subscribe_all sources w of (Err e, w') \<Rightarrow> (Err e, w') | (Ok streams, w') \<Rightarrow> (Ok (select_all streams), w')))"

definition chain_all :: "('e, 'w) collector list \<Rightarrow> ('e, 'w) collector" where
  "chain_all sources w =
     (if sources = [] then (Err ''chain_all has no sources; nothing to subscribe to'', w)
      else (case subscribe_all sources w of (Err e, w') \<Rightarrow> (Err e, w') | (Ok streams, w') \<Rightarrow> (Ok (concat streams), w')))"

definition collector_fallback :: "('e, 'w) collector \<Rightarrow> ('e, 'w) collector \<Rightarrow> ('e, 'w) collector" where
  "collector_fallback this other w =
     (case this w of (Ok stream, w') \<Rightarrow> (Ok stream, w') | (Err e, w') \<Rightarrow> other w')"

text \<open>The loop of \<open>fallback_all\<close>, with the last error.\<close>

fun fallback_loop :: "string \<Rightarrow> ('e, 'w) collector list \<Rightarrow> ('e, 'w) collector" where
  "fallback_loop last_err [] w = (Err last_err, w)"
| "fallback_loop last_err (source # sources) w =
     (case source w of (Ok stream, w') \<Rightarrow> (Ok stream, w') | (Err e, w') \<Rightarrow> fallback_loop e sources w')"

definition fallback_all :: "('e, 'w) collector list \<Rightarrow> ('e, 'w) collector" where
  "fallback_all sources w = fallback_loop ''fallback_all has no sources; nothing to subscribe to'' sources w"

section \<open>What a subscription touches\<close>

text \<open>The world after some sources were subscribed, and what the next one answers there.\<close>

definition after :: "('e, 'w) collector list \<Rightarrow> 'w \<Rightarrow> 'w" where
  "after Cs w = fold (\<lambda>C w. snd (C w)) Cs w"

definition answer :: "('e, 'w) collector list \<Rightarrow> 'w \<Rightarrow> nat \<Rightarrow> string + 'e list" where
  "answer Cs w i = fst ((Cs ! i) (after (take i Cs) w))"

lemma after_simps [simp]: "after [] w = w" "after (C # Cs) w = after Cs (snd (C w))"
  by (simp_all add: after_def)

lemma answer_simps [simp]: "answer (C # Cs) w 0 = fst (C w)" "answer (C # Cs) w (Suc i) = answer Cs (snd (C w)) i"
  by (simp_all add: answer_def)

text \<open>Subscribing all: every source is asked in order up to the first error.\<close>

lemma subscribe_all_answers:
  "subscribe_all Cs w = (r, w') \<Longrightarrow>
     (case r of
        Ok streams \<Rightarrow> map Ok streams = map (answer Cs w) [0..<length Cs] \<and> w' = after Cs w
      | Err e \<Rightarrow> \<exists>n < length Cs. answer Cs w n = Err e \<and> (\<forall>j < n. is_ok (answer Cs w j)) \<and> w' = after (take (Suc n) Cs) w)"
proof (induction Cs arbitrary: w r)
  case (Cons C Cs)
  obtain x w1 where C: "C w = (x, w1)" by (cases "C w")
  show ?case
  proof (cases x)
    case (Inl e)
    with C Cons.prems show ?thesis by (auto intro!: exI [of _ 0])
  next
    case (Inr stream)
    obtain r1 where rest: "subscribe_all Cs w1 = (r1, w')" and r: "r = map_sum id ((#) stream) r1"
      using Cons.prems C Inr by (auto split: prod.splits sum.splits)
    have up: "map (answer (C # Cs) w) [0..<length (C # Cs)] = answer (C # Cs) w 0 # map (answer Cs w1) [0..<length Cs]"
      by (simp add: upt_conv_Cons map_Suc_upt [symmetric] C comp_def del: upt_Suc)
    from Cons.IH [OF rest] show ?thesis
    proof (cases r1)
      case (Inl e)
      with Cons.IH [OF rest] obtain n where "n < length Cs" "answer Cs w1 n = Err e"
        "\<forall>j < n. is_ok (answer Cs w1 j)" "w' = after (take (Suc n) Cs) w1" by auto
      with r Inl C Inr show ?thesis
        by (simp, intro exI [of _ "Suc n"]) (auto simp: less_Suc_eq_0_disj)
    next
      case Inr: (Inr streams)
      with Cons.IH [OF rest] r C \<open>x = Ok stream\<close> up show ?thesis by (simp del: upt_Suc)
    qed
  qed
qed simp

lemma fallback_loop_answers:
  "fallback_loop e0 Cs w = (r, w') \<Longrightarrow> Cs \<noteq> [] \<Longrightarrow>
     \<exists>n < length Cs. r = answer Cs w n \<and> w' = after (take (Suc n) Cs) w \<and> (\<forall>j < n. \<not> is_ok (answer Cs w j)) \<and>
       (is_ok r \<or> Suc n = length Cs)"
proof (induction Cs arbitrary: e0 w)
  case (Cons C Cs)
  obtain x w1 where C: "C w = (x, w1)" by (cases "C w")
  show ?case
  proof (cases x)
    case (Inr stream)
    with C Cons.prems show ?thesis by (auto intro!: exI [of _ 0])
  next
    case (Inl e)
    show ?thesis
    proof (cases "Cs = []")
      case True
      with Inl C Cons.prems show ?thesis by (auto intro!: exI [of _ 0])
    next
      case False
      from Cons.prems C Inl have "fallback_loop e Cs w1 = (r, w')" by simp
      from Cons.IH [OF this False] obtain n where "n < length Cs" "r = answer Cs w1 n" "w' = after (take (Suc n) Cs) w1"
        "\<forall>j < n. \<not> is_ok (answer Cs w1 j)" "is_ok r \<or> Suc n = length Cs" by blast
      with C Inl show ?thesis
        by (simp, intro exI [of _ "Suc n"]) (auto simp: less_Suc_eq_0_disj)
    qed
  qed
qed simp

section \<open>Interleavings\<close>

text \<open>What \<open>select\<close> and \<open>select_all\<close> document: every item of every stream, each stream in its order.\<close>

fun shuffles_all :: "'e list list \<Rightarrow> 'e list set" where
  "shuffles_all [] = {[]}"
| "shuffles_all (xs # xss) = (\<Union>ys \<in> shuffles_all xss. shuffles xs ys)"

lemma shuffles_mset: "zs \<in> shuffles xs ys \<Longrightarrow> mset zs = mset xs + mset ys"
  by (induction xs ys arbitrary: zs rule: shuffles.induct) auto

lemma shuffles_subseq: "zs \<in> shuffles xs ys \<Longrightarrow> subseq xs zs \<and> subseq ys zs"
proof (induction xs ys arbitrary: zs rule: shuffles.induct)
  case (3 x xs y ys)
  from "3.prems" consider us where "zs = x # us" "us \<in> shuffles xs (y # ys)"
    | us where "zs = y # us" "us \<in> shuffles (x # xs) ys" by auto
  then show ?case
  proof cases
    case 1
    from "3.IH"(1) [OF 1(2)] have "subseq (x # xs) (x # us)" "subseq (y # ys) (x # us)"
      by (auto intro: list_emb_Cons simp del: subseq_Cons2_iff)
    with 1(1) show ?thesis by blast
  next
    case 2
    from "3.IH"(2) [OF 2(2)] have "subseq (x # xs) (y # us)" "subseq (y # ys) (y # us)"
      by (auto intro: list_emb_Cons simp del: subseq_Cons2_iff)
    with 2(1) show ?thesis by blast
  qed
qed simp_all

lemma shuffles_all_mset: "zs \<in> shuffles_all xss \<Longrightarrow> mset zs = mset (concat xss)"
  by (induction xss arbitrary: zs) (auto dest!: shuffles_mset)

lemma shuffles_all_subseq: "zs \<in> shuffles_all xss \<Longrightarrow> xs \<in> set xss \<Longrightarrow> subseq xs zs"
proof (induction xss arbitrary: zs)
  case (Cons ys xss)
  then obtain us where "us \<in> shuffles_all xss" "zs \<in> shuffles ys us" by auto
  with Cons shuffles_subseq [of zs ys us] show ?case by (auto intro: subseq_order.trans)
qed simp

lemma concat_shuffles_all: "concat xss \<in> shuffles_all xss"
proof (induction xss)
  case (Cons xs xss)
  have "xs @ ys \<in> shuffles xs ys" for ys :: "'a list" by (induction xs) (auto simp: Cons_in_shuffles_iff)
  with Cons show ?case by auto
qed simp

end
