(* ===== verification/Adapters_Properties.thy ===== *)
theory Adapters_Properties
  imports Strategy_Ext Collector_Ext
begin

text \<open>The properties of the strategy and collector combinators, each at a concrete input too.\<close>

section \<open>Strategies\<close>

text \<open>
  Property C33: under a cooldown, whatever the strategy, the clock, the time between events and the
  number of actions drawn of each: every event that gets an action through was called at least the
  cooldown after the last action that went through before it; an event during the cooldown still
  runs the strategy, with all its actions drawn and dropped, and does not restart the period.
\<close>

theorem cooldown_spaces_batches:
  "apart d (last_fired c) (take_turns T send (cooldown T d S) ts c) \<and>
   (cooling T d (c\<lparr>inner_world := meanwhile t (inner_world c)\<rparr>) \<longrightarrow> 0 < draws t \<longrightarrow>
     process S (arrival t) (meanwhile t (inner_world c)) = (Ok stream, w') \<longrightarrow>
     take_turn T send (cooldown T d S) t c =
       ((now T (meanwhile t (inner_world c)), []), c\<lparr>inner_world := snd (drain_all stream w')\<rparr>))"
  by (intro conjI cooled_turns_apart impI) (simp add: take_turn_def cooldown_def Let_def draw_suppressed)

text \<open>A clock that is the world, an echo strategy, and three events: the second falls in the cooldown.\<close>

definition tick_clock :: "instant clock" where
  "tick_clock = \<lparr>now = (\<lambda>w. w), sleep_until = (\<lambda>t w. max t w)\<rparr>"

definition echo :: "(nat, nat, instant) strategy" where
  "echo = \<lparr>sync = (\<lambda>w. (Ok (), w)), process = (\<lambda>e w. (Ok (Actions (\<lambda>w. (Some (e, no_actions), w))), w))\<rparr>"

definition demo_turns :: "(nat, instant) turn list" where
  "demo_turns = [\<lparr>meanwhile = (\<lambda>w. w), arrival = 1, draws = 5\<rparr>,
     \<lparr>meanwhile = (\<lambda>w. w + 31), arrival = 2, draws = 5\<rparr>, \<lparr>meanwhile = (\<lambda>w. w + 31), arrival = 3, draws = 5\<rparr>]"

lemma cooldown_spaces_batches_witness:
  "take_turns tick_clock (\<lambda>a w. w) (cooldown tick_clock 60 echo) demo_turns (cooldown_new 0) =
     [(0, [(1, 0)]), (31, []), (62, [(3, 62)])] \<and>
   take_turn tick_clock (\<lambda>a w. w) (cooldown tick_clock 60 echo) \<lparr>meanwhile = (\<lambda>w. w), arrival = 2, draws = 5\<rparr>
     \<lparr>last_fired = Some 0, inner_world = 31\<rparr> = ((31, []), \<lparr>last_fired = Some 0, inner_world = 31\<rparr>)"
proof -
  have "take_turns tick_clock (\<lambda>a w. w) (cooldown tick_clock 60 echo) demo_turns (cooldown_new 0) =
     [(0, [(1, 0)]), (31, []), (62, [(3, 62)])]"
    by (simp add: demo_turns_def take_turn_def cooldown_def cooldown_new_def cooling_def tick_clock_def echo_def no_actions_def
        eval_nat_numeral)
  moreover have "process echo 2 31 = (Ok (Actions (\<lambda>w. (Some (2, no_actions), w))), 31)" by (simp add: echo_def)
  ultimately show ?thesis
    using cooldown_spaces_batches [of 60 "\<lparr>last_fired = Some 0, inner_world = 31\<rparr>" tick_clock "\<lambda>a w. w" echo "[]"
        "\<lparr>meanwhile = (\<lambda>w. w), arrival = 2, draws = 5\<rparr>"]
    by (simp add: cooling_def tick_clock_def no_actions_def)
qed

text \<open>
  Property C34: a strategy mounted with an event projection, a risk gate and an action lifting
  decides, under the engine, exactly what it would decide alone on the events projected to it, with
  the actions failing the gate dropped and the others lifted, in order; foreign events do not
  reach it; synchronisation and errors pass through.
\<close>

theorem mounting_commutes:
  "decisions (mounted (map_action lift (filter_actions gate (filter_map_event project S)))) w es =
     map lift (filter gate (decisions (mounted S) w (List.map_filter project es))) \<and>
   fst (strategy_task (mounted (map_action lift (filter_actions gate (filter_map_event project S)))) None w es) =
     map lift (filter gate (decisions (mounted S) w (List.map_filter project es))) \<and>
   sync_state (mounted (map_action lift (filter_actions gate (filter_map_event project S)))) = sync_state (mounted S)"
proof -
  have "decisions (mounted (map_action lift (filter_actions gate (filter_map_event project S)))) w es =
     map lift (filter gate (decisions (mounted S) w (List.map_filter project es)))"
  proof (induction es arbitrary: w)
    case (Cons e es)
    show ?case
    proof (cases "project e")
      case None
      with Cons show ?thesis
        by (simp add: mounted_map_action mounted_filter_actions mounted_filter_map_event map_filter_simps)
    next
      case (Some e')
      obtain r w' where p: "process_event (mounted S) w e' = (r, w')" by fastforce
      with Some Cons show ?thesis
        by (simp add: mounted_map_action mounted_filter_actions mounted_filter_map_event map_filter_simps split: sum.split)
    qed
  qed (simp add: map_filter_simps)
  then show ?thesis by (simp add: strategy_task_uncancelled)
qed

section \<open>Collectors\<close>

text \<open>
  A fallback asks its sources in order, each once, until one subscribes: it gives that
  one's stream, or the last error when all fail, and no source after the first success is touched;
  the two-source fallback is the case of two; an empty set fails without touching anything.
\<close>

lemma fallback_first_wins:
  assumes "fallback_all Cs w = (r, w')"
  shows "(if Cs = [] then r = Err ''fallback_all has no sources; nothing to subscribe to'' \<and> w' = w
     else \<exists>n < length Cs. r = answer Cs w n \<and> w' = after (take (Suc n) Cs) w \<and>
       (\<forall>j < n. \<not> is_ok (answer Cs w j)) \<and> (is_ok r \<or> Suc n = length Cs)) \<and>
    collector_fallback this other w = fallback_all [this, other] w"
proof -
  have "collector_fallback this other w = fallback_all [this, other] w"
    by (simp add: collector_fallback_def fallback_all_def split: prod.split sum.split)
  with assms fallback_loop_answers [of _ Cs w r w'] show ?thesis by (auto simp: fallback_all_def)
qed

text \<open>A source that subscribes or fails, and counts in the world.\<close>

definition counted :: "string + nat list \<Rightarrow> (nat, nat) collector" where
  "counted r w = (r, Suc w)"

text \<open>
  Property C35: a merge or a chain subscribes its sources eagerly and in order; the first failure
  fails the whole, leaving the later sources untouched.  When all subscribe, whatever way the
  merge interleaves, the composite delivers exactly the items of all sources, none lost or
  doubled, each source's in its order; a chain delivers them source after source.  An empty set
  fails, and the two-source forms are the cases of two.
\<close>

theorem composites_keep_streams:
  assumes "\<forall>xss. select_all xss \<in> shuffles_all xss" and "Cs \<noteq> []"
    and "merge_all select_all Cs w = (r, w')" and "chain_all Cs w = (r', w'')"
  shows "w' = w'' \<and>
    (if \<forall>i < length Cs. is_ok (answer Cs w i)
     then (\<exists>streams merged. map Ok streams = map (answer Cs w) [0..<length Cs] \<and> w' = after Cs w \<and>
       r = Ok merged \<and> r' = Ok (concat streams) \<and> mset merged = mset (concat streams) \<and> (\<forall>xs \<in> set streams. subseq xs merged))
     else (\<exists>n e. n < length Cs \<and> answer Cs w n = Err e \<and> (\<forall>j < n. is_ok (answer Cs w j)) \<and>
       r = Err e \<and> r' = Err e \<and> w' = after (take (Suc n) Cs) w)) \<and>
    chain_all [] w = (Err ''chain_all has no sources; nothing to subscribe to'', w) \<and>
    merge_all select_all [] w = (Err ''merge_all has no sources; nothing to subscribe to'', w) \<and>
    collector_chain first second w = chain_all [first, second] w \<and>
    merge (\<lambda>xs ys. select_all [xs, ys]) first second w = merge_all select_all [first, second] w"
proof -
  obtain x w1 where x: "subscribe_all Cs w = (x, w1)" by fastforce
  have two: "collector_chain first second w = chain_all [first, second] w"
    "merge (\<lambda>xs ys. select_all [xs, ys]) first second w = merge_all select_all [first, second] w"
    by (simp_all add: collector_chain_def merge_def chain_all_def merge_all_def split: prod.split sum.split)
  show ?thesis
  proof (cases x)
    case (Inl e)
    with subscribe_all_answers [OF x] obtain n where n: "n < length Cs" "answer Cs w n = Err e"
      "\<forall>j < n. is_ok (answer Cs w j)" "w1 = after (take (Suc n) Cs) w" by auto
    then have "\<not> (\<forall>i < length Cs. is_ok (answer Cs w i))" by (metis is_ok_simps(2))
    moreover have "r = Err e" "r' = Err e" "w' = w1" "w'' = w1"
      using assms(2-4) x Inl by (simp_all add: merge_all_def chain_all_def)
    ultimately show ?thesis using n two by (auto simp: chain_all_def merge_all_def)
  next
    case (Inr streams)
    with subscribe_all_answers [OF x] have s: "map Ok streams = map (answer Cs w) [0..<length Cs]" "w1 = after Cs w" by auto
    have "is_ok (answer Cs w i)" if "i < length Cs" for i
    proof -
      from arg_cong [OF s(1), of length] that have "i < length streams" by simp
      with arg_cong [OF s(1), of "\<lambda>l. l ! i"] that have "answer Cs w i = Ok (streams ! i)" by simp
      then show ?thesis by simp
    qed
    moreover have "r = Ok (select_all streams)" "r' = Ok (concat streams)" "w' = w1" "w'' = w1"
      using assms(2-4) x Inr by (simp_all add: merge_all_def chain_all_def)
    moreover have "mset (select_all streams) = mset (concat streams)" "\<forall>xs \<in> set streams. subseq xs (select_all streams)"
      using shuffles_all_mset [OF assms(1) [rule_format, of streams]]
        shuffles_all_subseq [OF assms(1) [rule_format, of streams]] by auto
    ultimately show ?thesis using s two by (auto simp: chain_all_def merge_all_def)
  qed
qed

lemma composites_keep_streams_witness:
  "\<exists>merged. merge_all concat [counted (Ok [1, 2]), counted (Ok [3])] 0 = (Ok merged, 2) \<and>
     mset merged = {#1, 2, 3#} \<and> subseq [1, 2] merged \<and>
     chain_all [counted (Ok [1, 2]), counted (Ok [3])] 0 = (Ok [1, 2, 3], 2)"
proof -
  let ?Cs = "[counted (Ok [1, 2]), counted (Ok [3])]"
  have m: "merge_all concat ?Cs 0 = (Ok [1, 2, 3], 2)" and c: "chain_all ?Cs 0 = (Ok [1, 2, 3], 2)"
    by (simp_all add: merge_all_def chain_all_def counted_def)
  have law: "\<forall>xss. concat xss \<in> shuffles_all (xss :: nat list list)" by (simp add: concat_shuffles_all)
  have ok: "\<forall>i < length ?Cs. is_ok (answer ?Cs 0 i)" by (auto simp: less_Suc_eq counted_def)
  have some: "?Cs \<noteq> []" by simp
  from composites_keep_streams [OF law some m c, of "counted (Ok [])" "counted (Ok [])", unfolded if_P [OF ok]]
  obtain streams where s: "map Ok streams = map (answer ?Cs 0) [0..<length ?Cs]"
    "mset [1, 2, 3] = mset (concat streams)" "\<forall>xs \<in> set streams. subseq xs [1, 2, 3]"
    by (elim conjE exE) (simp only: sum.inject)
  have "map (answer ?Cs 0) [0..<length ?Cs] = map Ok [[1, 2], [3]]" by (simp add: counted_def upt_conv_Cons answer_def)
  with s(1) have "streams = [[1, 2], [3]]" by (metis inj_map_eq_map inj_Inr)
  with s m c show ?thesis by auto
qed

end
