(* ===== verification/Record_Properties.thy ===== *)
theory Record_Properties
  imports Fixtures
begin

text \<open>The rows of a run of encodes: one schema, its types, and the payload.\<close>

section \<open>Runs\<close>

fun encode_all :: "'e serde \<Rightarrow> event_record \<Rightarrow> 'e list \<Rightarrow> (record_error + row) list \<times> event_record" where
  "encode_all sd r [] = ([], r)"
| "encode_all sd r (e # es) =
     (case record_encode sd r e of (x, r') \<Rightarrow> (case encode_all sd r' es of (xs, r'') \<Rightarrow> (x # xs, r'')))"

definition record_ok :: "event_record \<Rightarrow> bool" where
  "record_ok r \<longleftrightarrow> (\<forall>cs. frozen_columns (rec_columns r) = Some cs \<longrightarrow> (\<forall>c \<in> set cs. \<not> reserved_column (col_name c)))"

text \<open>The numbers among an event's fields are those of \<open>serde_json\<close>.\<close>

definition fields_wf :: "json \<Rightarrow> bool" where
  "fields_wf j \<longleftrightarrow> (case j of JObject kvs \<Rightarrow> \<forall>k n. (k, JNumber n) \<in> set kvs \<longrightarrow> number_wf n | _ \<Rightarrow> True)"

fun cell_of_type :: "sql_type \<Rightarrow> sql_value \<Rightarrow> bool" where
  "cell_of_type ty Null = True"
| "cell_of_type ty (Integer i) = (ty = SqlInteger)"
| "cell_of_type ty (Real f) = (ty = SqlReal)"
| "cell_of_type ty (Text s) = (ty = SqlText)"
| "cell_of_type ty (Blob b) = (ty = SqlBlob)"

lemma record_declared_ok: "record_declared s = Ok r \<Longrightarrow> record_ok r"
  by (auto simp: record_declared_def record_ok_def ensure_no_reserved_names_Ok_iff split: sum.splits)

lemma record_new_start: "record_new signature override = Ok r \<Longrightarrow>
    (\<exists>s. override = Some s \<and> record_declared s = Ok r) \<or> override = None \<and> r = record_inferred (table_name signature)"
  by (auto simp: record_new_def split: option.splits)

lemma record_inferred_ok: "record_ok (record_inferred t)"
  by (simp add: record_ok_def record_inferred_def)

lemma freeze_columns_ok: "freeze_columns r fs = (x, r') \<Longrightarrow> record_ok r \<Longrightarrow> record_ok r'"
proof (cases x)
  case (Inr cs)
  moreover assume "freeze_columns r fs = (x, r')" "record_ok r"
  ultimately show ?thesis using freeze_columns_Ok [of r fs cs r'] by (auto simp: record_ok_def)
qed (auto dest: freeze_columns_Err)

lemma record_encode_keeps_ok: "record_encode sd r e = (x, r') \<Longrightarrow> record_ok r \<Longrightarrow> record_ok r'"
  by (auto simp: record_encode_def dest: freeze_columns_ok split: option.splits sum.splits prod.splits)

lemma encode_all_frozen: "record_schema r = Some sch \<Longrightarrow> snd (encode_all sd r es) = r"
proof (induction es)
  case (Cons e es)
  from record_schema_frozen [OF Cons.prems, of sd e] Cons show ?case by (simp add: split: prod.splits) (metis snd_conv)
qed simp

section \<open>One row\<close>

lemma inferred_cell: "number_wf n \<or> (\<forall>n. v \<noteq> JNumber n) \<Longrightarrow> v = JNumber n \<or> (\<forall>n. v \<noteq> JNumber n) \<Longrightarrow>
    cell_of_type (infer_type v) (json_to_sql txt v)"
  by (cases v) (auto simp: infer_type_def json_to_sql_def number_wf_def split: option.splits if_splits)

lemma payload_last:
  assumes "\<forall>c \<in> set cs. \<not> reserved_column (col_name c)" "length vs = length cs"
  shows "payload_cell \<lparr>schema_table = t, schema_columns = cs @ [column_new PAYLOAD_COLUMN SqlText]\<rparr> (vs @ [v]) = Some v"
    and "map_of (map (\<lambda>c. (col_name c, col_ty c)) (cs @ [column_new PAYLOAD_COLUMN SqlText])) PAYLOAD_COLUMN = Some SqlText"
proof -
  from assms(1) have no: "PAYLOAD_COLUMN \<notin> set (map col_name cs)" by (auto simp: reserved_column_def)
  then have "map_of (zip (map col_name cs) vs) PAYLOAD_COLUMN = None" by (intro map_of_zip_is_None [THEN iffD2]) (use assms(2) in simp_all)
  then show "payload_cell \<lparr>schema_table = t, schema_columns = cs @ [column_new PAYLOAD_COLUMN SqlText]\<rparr> (vs @ [v]) = Some v"
    using assms(2) by (simp add: payload_cell_def map_add_def del: map_of_zip_is_None)
  from no have "map_of (map (\<lambda>c. (col_name c, col_ty c)) cs) PAYLOAD_COLUMN = None"
    by (auto simp: map_of_eq_None_iff image_image)
  then show "map_of (map (\<lambda>c. (col_name c, col_ty c)) (cs @ [column_new PAYLOAD_COLUMN SqlText])) PAYLOAD_COLUMN = Some SqlText"
    by (simp add: map_add_def)
qed

text \<open>What a row says of the event it encodes.\<close>

definition text_in_integer :: "column \<Rightarrow> sql_value \<Rightarrow> bool" where
  "text_in_integer c v \<longleftrightarrow> col_ty c = SqlInteger \<and> (case v of Text s \<Rightarrow> True | _ \<Rightarrow> False)"

lemma ensure_value_fits_Ok: "ensure_value_fits c v = Ok () \<longleftrightarrow> \<not> text_in_integer c v"
  by (auto simp: ensure_value_fits_def text_in_integer_def split: sql_value.splits)

definition encodes :: "'e serde \<Rightarrow> table_schema \<Rightarrow> 'e \<Rightarrow> row \<Rightarrow> bool" where
  "encodes sd sch e row \<longleftrightarrow> fits sch row \<and> list_all2 (\<lambda>c v. \<not> text_in_integer c v) (schema_columns sch) row \<and>
     (\<exists>j. to_value sd e = Some j \<and> payload_text sch row = json_text sd j)"

lemma record_encode_encodes:
  assumes "record_encode sd r e = (Ok row, r')" "record_ok r"
  shows "\<exists>sch. record_schema r' = Some sch \<and> encodes sd sch e row"
  using assms(1)
proof (rule record_encode_Ok)
  fix j fs cs
  assume j: "to_value sd e = Some j" and cs: "frozen_columns (rec_columns r') = Some cs"
    and row: "row = map (column_value fs) cs @ [Text (json_text sd j)]"
    and fit: "\<forall>c \<in> set cs. ensure_value_fits c (column_value fs c) = Ok ()"
  from record_encode_keeps_ok [OF assms] cs have names: "\<forall>c \<in> set cs. \<not> reserved_column (col_name c)" by (simp add: record_ok_def)
  let ?sch = "\<lparr>schema_table = rec_table r', schema_columns = cs @ [column_new PAYLOAD_COLUMN SqlText]\<rparr>"
  have "payload_cell ?sch row = Some (Text (json_text sd j))" unfolding row by (rule payload_last(1) [OF names]) simp
  moreover have "list_all2 (\<lambda>c v. \<not> text_in_integer c v) (schema_columns ?sch) row"
    using fit by (simp add: row list_all2_appendI list_all2_map2 list.rel_refl_strong ensure_value_fits_Ok text_in_integer_def [of "column_new n t" for n t])
  ultimately have "encodes sd ?sch e row"
    using j payload_last(2) [OF names, of "map (column_value fs) cs"] row by (simp add: encodes_def fits_def payload_text_def)
  moreover have "record_schema r' = Some ?sch" using cs by (simp add: record_schema_def)
  ultimately show ?thesis by blast
qed

lemma record_encode_types:
  assumes "record_encode sd r e = (Ok row, r')" "rec_columns r = Inferred None" "\<forall>j. to_value sd e = Some j \<longrightarrow> fields_wf j"
  shows "\<exists>sch. record_schema r' = Some sch \<and> list_all2 (\<lambda>c v. cell_of_type (col_ty c) v) (schema_columns sch) row \<and>
    distinct (map col_name (schema_columns sch))"
  using assms(1)
proof (rule record_encode_Ok)
  fix j fs cs
  assume j: "to_value sd e = Some j" and fs: "field_map (json_text sd) j = Ok fs" and freeze: "freeze_columns r fs = (Ok cs, r')"
    and cs: "frozen_columns (rec_columns r') = Some cs" and row: "row = map (column_value fs) cs @ [Text (json_text sd j)]"
  from fs obtain kvs where kvs: "j = JObject kvs" "fs = collect_fields (json_text sd) kvs" by (auto simp: field_map_Ok_iff)
  from freeze_columns_Ok(3) [OF freeze] assms(2) have inferred: "cs = inferred_columns fs" "\<forall>c \<in> set cs. \<not> reserved_column (col_name c)" by auto
  have wf: "bt_wf fs" unfolding kvs(2) by (rule collect_fields_wf)
  have "cell_of_type (col_ty c) (column_value fs c)" if "c \<in> set cs" for c
  proof -
    from that inferred(1) obtain name ty v where entry: "(name, ty, v) \<in> set fs" and c: "c = column_new name ty"
      by (auto simp: inferred_columns_def)
    from collect_fields_entry [of name ty v] entry kvs(2) obtain w where w: "(name, w) \<in> set kvs" "ty = infer_type w" "v = json_to_sql (json_text sd) w"
      by blast
    have "bt_get fs name = Some (ty, v)" using entry wf by (simp add: bt_get_Some_iff)
    moreover have "cell_of_type ty v"
    proof (cases w)
      case (JNumber n)
      with w(1) assms(3) j kvs(1) have "number_wf n" by (auto simp: fields_wf_def)
      then show ?thesis using w(2,3) JNumber inferred_cell [of n w] by simp
    qed (use w(2,3) inferred_cell [of _ w] in auto)
    ultimately show ?thesis by (simp add: c column_value_def)
  qed
  then have "list_all2 (\<lambda>c v. cell_of_type (col_ty c) v) (cs @ [column_new PAYLOAD_COLUMN SqlText]) row"
    by (simp add: row list_all2_appendI list_all2_map2 list.rel_refl_strong)
  moreover have "distinct (map col_name (cs @ [column_new PAYLOAD_COLUMN SqlText]))"
    using inferred_columns_distinct [OF wf] inferred by (auto simp: reserved_column_def)
  ultimately show ?thesis using cs by (auto simp: record_schema_def)
qed

section \<open>A run of encodes\<close>

lemma encode_all_rows:
  "encode_all sd r es = (results, r') \<Longrightarrow> record_ok r \<Longrightarrow> (e, Ok row) \<in> set (zip es results) \<Longrightarrow>
     \<exists>sch. record_schema r' = Some sch \<and> encodes sd sch e row"
proof (induction es arbitrary: r results)
  case (Cons e1 es)
  obtain x r1 where x: "record_encode sd r e1 = (x, r1)" by fastforce
  obtain xs where rest: "encode_all sd r1 es = (xs, r')" and results: "results = x # xs"
    using Cons.prems(1) x by (auto split: prod.splits)
  show ?case
  proof (cases "e = e1 \<and> x = Ok row")
    case True
    with record_encode_encodes [of sd r e row r1] x Cons.prems(2) obtain sch
      where sch: "record_schema r1 = Some sch" "encodes sd sch e row" by auto
    from encode_all_frozen [OF sch(1), of sd es] rest have "r' = r1" by simp
    with sch show ?thesis by blast
  next
    case False
    with Cons.prems(3) results have "(e, Ok row) \<in> set (zip es xs)" by auto
    with Cons.IH [OF rest record_encode_keeps_ok [OF x Cons.prems(2)]] show ?thesis by blast
  qed
qed simp

text \<open>A failed encode of a fresh record with well-formed numbers leaves it fresh.\<close>

lemma record_encode_failed:
  assumes "record_encode sd r e = (Err x, r')" "rec_columns r = Inferred None" "\<forall>j. to_value sd e = Some j \<longrightarrow> fields_wf j"
  shows "r' = r"
proof (rule ccontr)
  assume "r' \<noteq> r"
  with assms(1) obtain j fs cs where j: "to_value sd e = Some j" and fs: "field_map (json_text sd) j = Ok fs"
    and freeze: "freeze_columns r fs = (Ok cs, r')" and bad: "row_values fs cs = Err x"
    by (auto simp: record_encode_def bind_res_def dest: freeze_columns_Err split: option.splits sum.splits prod.splits)
  from fs obtain kvs where kvs: "j = JObject kvs" "fs = collect_fields (json_text sd) kvs" by (auto simp: field_map_Ok_iff)
  have wf: "bt_wf fs" unfolding kvs(2) by (rule collect_fields_wf)
  from freeze_columns_Ok(3) [OF freeze] assms(2) have inferred: "cs = inferred_columns fs" by auto
  have "ensure_value_fits c (column_value fs c) = Ok ()" if "c \<in> set cs" for c
  proof -
    from that inferred obtain name ty v where entry: "(name, ty, v) \<in> set fs" and c: "c = column_new name ty"
      by (auto simp: inferred_columns_def)
    from collect_fields_entry [of name ty v] entry kvs(2) obtain w where w: "(name, w) \<in> set kvs" "ty = infer_type w" "v = json_to_sql (json_text sd) w"
      by blast
    have "bt_get fs name = Some (ty, v)" using entry wf by (simp add: bt_get_Some_iff)
    moreover have "ensure_value_fits (column_new name ty) v = Ok ()" unfolding w(2,3)
      by (rule inferred_value_fits) (use w(1) assms(3) j kvs(1) in \<open>auto simp: fields_wf_def\<close>)
    ultimately show ?thesis by (simp add: c column_value_def)
  qed
  then have "row_values fs cs = Ok (map (column_value fs) cs)" by (simp add: row_values_Ok_iff)
  with bad show False by simp
qed

lemma encode_all_first:
  "encode_all sd r es = (results, r') \<Longrightarrow> rec_columns r = Inferred None \<Longrightarrow>
     (\<And>e j. e \<in> set es \<Longrightarrow> to_value sd e = Some j \<Longrightarrow> fields_wf j) \<Longrightarrow>
     results = pre @ Ok row # post \<Longrightarrow> (\<And>x. x \<in> set pre \<Longrightarrow> \<not> is_ok x) \<Longrightarrow>
     \<exists>sch. record_schema r' = Some sch \<and> list_all2 (\<lambda>c v. cell_of_type (col_ty c) v) (schema_columns sch) row \<and>
       distinct (map col_name (schema_columns sch))"
proof (induction es arbitrary: r results pre)
  case (Cons e es)
  obtain x r1 where x: "record_encode sd r e = (x, r1)" by fastforce
  obtain xs where rest: "encode_all sd r1 es = (xs, r')" and results: "results = x # xs"
    using Cons.prems(1) x by (auto split: prod.splits)
  have wf: "\<forall>j. to_value sd e = Some j \<longrightarrow> fields_wf j" using Cons.prems(3) [of e] by simp
  show ?case
  proof (cases pre)
    case Nil
    with results Cons.prems(4) have "x = Ok row" by simp
    with record_encode_types [of sd r e row r1] x Cons.prems(2) wf obtain sch where sch: "record_schema r1 = Some sch"
      "list_all2 (\<lambda>c v. cell_of_type (col_ty c) v) (schema_columns sch) row" "distinct (map col_name (schema_columns sch))" by auto
    from encode_all_frozen [OF sch(1), of sd es] rest have "r' = r1" by simp
    with sch show ?thesis by blast
  next
    case (Cons p pre')
    with results Cons.prems(4) Cons.prems(5) [of p] obtain e' where "x = Err e'" and post: "xs = pre' @ Ok row # post" by (cases x) auto
    with record_encode_failed [of sd r e e' r1] x Cons.prems(2) wf have "r1 = r" by simp
    with Cons.IH [of r xs pre'] rest post Cons.prems(2,3,5) Cons show ?thesis by auto
  qed
qed simp

text \<open>
  Property C30: all rows a record makes fit one schema, whatever events come and fail in between:
  each has the schema's width, its payload cell is the event's JSON text, and no text stands in an
  INTEGER column. When the columns are inferred, their names are distinct and the event that froze
  them has a cell of the column's type, or NULL, in every column.
\<close>

theorem encoded_rows_fit:
  assumes "record_new signature override = Ok r" and "encode_all sd r es = (results, r')"
    and "\<forall>e \<in> set es. \<forall>j. to_value sd e = Some j \<longrightarrow> fields_wf j" and "(e, Ok row) \<in> set (zip es results)"
  shows "\<exists>sch. record_schema r' = Some sch \<and> encodes sd sch e row \<and>
    (override = None \<longrightarrow> (\<forall>pre first post. results = pre @ Ok first # post \<and> (\<forall>x \<in> set pre. \<not> is_ok x) \<longrightarrow>
       list_all2 (\<lambda>c v. cell_of_type (col_ty c) v) (schema_columns sch) first \<and> distinct (map col_name (schema_columns sch))))"
proof -
  have "record_ok r" using record_new_start [OF assms(1)] record_declared_ok record_inferred_ok by blast
  from encode_all_rows [OF assms(2) this assms(4)] obtain sch where sch: "record_schema r' = Some sch" "encodes sd sch e row" by blast
  have "list_all2 (\<lambda>c v. cell_of_type (col_ty c) v) (schema_columns sch) first \<and> distinct (map col_name (schema_columns sch))"
    if "override = None" "results = pre @ Ok first # post" "\<forall>x \<in> set pre. \<not> is_ok x" for pre first post
    using encode_all_first [OF assms(2) _ _ that(2)] record_new_start [OF assms(1)] that assms(3) sch(1)
    by (simp add: record_inferred_def)
  with sch show ?thesis by blast
qed

lemma encoded_rows_fit_witness:
  "record_new ''Ev(uint256)'' None = Ok (record_inferred ''ev'') \<and>
     encode_all demo_serde (record_inferred ''ev'') [''a'', ''b''] = ([Ok (demo_row ''a''), Ok (demo_row ''b'')], demo_frozen) \<and>
     (\<exists>sch. record_schema demo_frozen = Some sch \<and> encodes demo_serde sch ''b'' (demo_row ''b'') \<and>
       list_all2 (\<lambda>c v. cell_of_type (col_ty c) v) (schema_columns sch) (demo_row ''a''))"
proof -
  have run: "encode_all demo_serde (record_inferred ''ev'') [''a'', ''b''] = ([Ok (demo_row ''a''), Ok (demo_row ''b'')], demo_frozen)"
    by (simp add: demo_encode_first demo_encode)
  have wf: "\<forall>e \<in> set [''a'', ''b'']. \<forall>j. to_value demo_serde e = Some j \<longrightarrow> fields_wf j"
    by (simp add: demo_serde_def fields_wf_def)
  have "table_name ''Ev(uint256)'' = ''ev''" by code_simp
  then have new: "record_new ''Ev(uint256)'' None = Ok (record_inferred ''ev'')" by (simp add: record_new_def)
  from encoded_rows_fit [OF new run wf, of "''b''" "demo_row ''b''"] new run show ?thesis by fastforce
qed

text \<open>The converse of the one case that is rejected is not: a column frozen as TEXT takes an integer later.\<close>

definition number_of :: "int \<Rightarrow> json_number" where
  "number_of i = \<lparr>as_i64 = (if i \<le> i64_max then Some i else None), as_u64 = Some (word_of_int i), as_f64 = None\<rparr>"

definition number_serde :: "int serde" where
  "number_serde = \<lparr>to_value = (\<lambda>i. Some (JObject [(''n'', JNumber (number_of i))])), json_text = (\<lambda>v. ''j''), from_str = (\<lambda>t. None)\<rparr>"

lemma text_column_takes_integer:
  "\<exists>r1 big r2. record_encode number_serde (record_inferred ''ev'') (2 ^ 63) = (Ok big, r1) \<and>
     record_schema r1 = Some \<lparr>schema_table = ''ev'', schema_columns = [column_new ''n'' SqlText, column_new PAYLOAD_COLUMN SqlText]\<rparr> \<and>
     record_encode number_serde r1 5 = (Ok [Integer 5, Text ''j''], r2)"
  by (simp add: record_encode_def number_serde_def field_map_def freeze_columns_def record_inferred_def infer_type_def json_to_sql_def
      number_of_def i64_max_def reserved_column_def BLOCK_NUMBER_COLUMN_def PAYLOAD_COLUMN_def inferred_columns_def column_value_def
      bt_get_def Let_def ensure_value_fits_def record_schema_def)

end
