(* ===== verification/Pipeline_Store.thy ===== *)
theory Pipeline_Store
  imports Persist_Emit Record_Properties Sql_Contract
begin

text \<open>
  What the write pipeline hands to its store: rows of the record's one schema, in the record's own
  table. So whatever holds of the store and is kept by such writes holds after a run.
\<close>

section \<open>Records that grow\<close>

definition grows :: "event_record \<Rightarrow> event_record \<Rightarrow> bool" where
  "grows r r' \<longleftrightarrow> (record_schema r \<noteq> None \<longrightarrow> r' = r) \<and> (record_ok r \<longrightarrow> record_ok r') \<and> rec_table r' = rec_table r"

lemma grows_refl: "grows r r"
  by (simp add: grows_def)

lemma grows_trans: "grows r s \<Longrightarrow> grows s u \<Longrightarrow> grows r u"
  by (auto simp: grows_def)

text \<open>A row made by the record: it fits the schema, and its payload is its last cell.\<close>

definition made_by :: "event_record \<Rightarrow> row \<Rightarrow> bool" where
  "made_by rc r \<longleftrightarrow> (\<exists>sch. record_schema rc = Some sch \<and> fits sch r \<and> payload_text sch r = text_of (last r))"

lemma made_by_grows: "made_by rc r \<Longrightarrow> grows rc rc' \<Longrightarrow> made_by rc' r"
  by (auto simp: made_by_def grows_def)

lemma record_encode_grows:
  assumes "record_encode sd rc e = (x, rc')"
  shows "grows rc rc'"
  using assms record_encode_table [OF assms] record_encode_keeps_ok [OF assms] record_schema_frozen [of rc _ sd e]
  by (auto simp: grows_def)

lemma record_encode_made:
  assumes "record_encode sd rc e = (Ok r, rc')" "record_ok rc"
  shows "made_by rc' r"
  using assms(1)
proof (rule record_encode_Ok)
  fix j fs cs
  assume cs: "frozen_columns (rec_columns rc') = Some cs" and row: "r = map (column_value fs) cs @ [Text (json_text sd j)]"
  from record_encode_keeps_ok [OF assms] cs have names: "\<forall>c \<in> set cs. \<not> reserved_column (col_name c)" by (simp add: record_ok_def)
  let ?sch = "\<lparr>schema_table = rec_table rc', schema_columns = cs @ [column_new PAYLOAD_COLUMN SqlText]\<rparr>"
  have "payload_cell ?sch r = Some (Text (json_text sd j))" unfolding row by (rule payload_last(1) [OF names]) simp
  then have "fits ?sch r \<and> payload_text ?sch r = text_of (last r)"
    using payload_last(2) [OF names, of "map (column_value fs) cs"] row by (simp add: fits_def payload_text_def)
  moreover have "record_schema rc' = Some ?sch" using cs by (simp add: record_schema_def)
  ultimately show ?thesis unfolding made_by_def by blast
qed

section \<open>The shared core\<close>

definition core_good :: "core \<Rightarrow> 's world \<Rightarrow> bool" where
  "core_good c w \<longleftrightarrow> record_ok (w_record w) \<and> (core_schema c = None \<or> core_schema c = record_schema (w_record w))"

lemma core_good_grows:
  "core_good c w \<Longrightarrow> grows (w_record w) (w_record w') \<Longrightarrow> core_good c w'"
  by (auto simp: core_good_def grows_def)

lemma core_encode_good:
  assumes "core_encode env c w e = (x, c', w')" "core_good c w"
  shows "core_good c' w' \<and> grows (w_record w) (w_record w') \<and> w_store w' = w_store w \<and> (\<forall>r. x = Some r \<longrightarrow> made_by (w_record w') r)"
proof -
  obtain y rc where enc: "record_encode (env_serde env) (w_record w) e = (y, rc)" by fastforce
  from record_encode_grows [OF enc] have g: "grows (w_record w) rc" .
  with assms(2) have ok: "record_ok rc" by (auto simp: core_good_def grows_def)
  have made: "made_by rc r" if "y = Ok r" for r using record_encode_made [of _ _ _ r] enc that assms(2) by (auto simp: core_good_def)
  from assms(1) enc g ok made assms(2) show ?thesis
    by (auto simp: core_encode_def core_good_def grows_def split: sum.splits if_splits)
qed

text \<open>What every write of rows the record made, in its table, keeps.\<close>

definition kept :: "('p, 's) store_ops \<Rightarrow> string \<Rightarrow> ('s \<Rightarrow> bool) \<Rightarrow> bool" where
  "kept S t Q \<longleftrightarrow> (\<forall>sch p rows s. Q s \<longrightarrow> schema_table sch = t \<longrightarrow>
     (\<forall>r \<in> set rows. fits sch r \<and> payload_text sch r = text_of (last r)) \<longrightarrow> Q (snd (store_write S sch p rows s)))"

lemma record_schema_table: "record_schema rc = Some sch \<Longrightarrow> schema_table sch = rec_table rc"
  by (auto simp: record_schema_def)

lemma core_flush_good:
  assumes "core_flush env c w p rows = (ok, c', w')" "core_good c w" "\<forall>r \<in> set rows. made_by (w_record w) r"
    and "kept (env_store env) (rec_table (w_record w)) Q" "Q (w_store w)"
  shows "core_good c' w' \<and> w_record w' = w_record w \<and> Q (w_store w')"
proof (cases "core_schema c")
  case None
  with assms show ?thesis by (auto simp: core_flush_def)
next
  case (Some sch)
  with assms(2) have sch: "record_schema (w_record w) = Some sch" by (auto simp: core_good_def)
  with assms(3) have "\<forall>r \<in> set rows. fits sch r \<and> payload_text sch r = text_of (last r)" by (auto simp: made_by_def)
  with assms(4,5) record_schema_table [OF sch] have "Q (snd (store_write (env_store env) sch p rows (w_store w)))"
    by (auto simp: kept_def)
  with Some assms(1,2) show ?thesis
    by (auto simp: core_flush_def core_good_def split: prod.splits sum.splits)
qed

section \<open>The writers\<close>

definition bw_good :: "'p block_writer \<Rightarrow> 's world \<Rightarrow> bool" where
  "bw_good bw w \<longleftrightarrow> core_good (bw_core bw) w \<and> (\<forall>r \<in> set (bw_buffer bw). made_by (w_record w) r)"

definition cw_good :: "'p window \<Rightarrow> 's world \<Rightarrow> bool" where
  "cw_good win w \<longleftrightarrow> core_good (cw_core win) w \<and> (\<forall>bp \<in> set (cw_pending win). \<forall>r \<in> set (pend_rows (snd bp)). made_by (w_record w) r)"

lemma bw_good_grows: "bw_good bw w \<Longrightarrow> grows (w_record w) (w_record w') \<Longrightarrow> bw_good bw w'"
  by (auto simp: bw_good_def intro: core_good_grows made_by_grows)

lemma cw_good_grows: "cw_good win w \<Longrightarrow> grows (w_record w) (w_record w') \<Longrightarrow> cw_good win w'"
  unfolding cw_good_def by (blast intro: core_good_grows made_by_grows)

text \<open>The part of the world that every step keeps.\<close>

definition moves :: "('s \<Rightarrow> bool) \<Rightarrow> 's world \<Rightarrow> 's world \<Rightarrow> bool" where
  "moves Q w w' \<longleftrightarrow> grows (w_record w) (w_record w') \<and> Q (w_store w')"

lemma moves_trans: "moves Q w w' \<Longrightarrow> moves Q w' w'' \<Longrightarrow> moves Q w w''"
  by (auto simp: moves_def intro: grows_trans)

text \<open>Encoding an event, with rows \<open>H\<close> held meanwhile.\<close>

lemma encode_moves:
  assumes "core_encode env c w e = (x, c', w1)" "core_good c w" "Q (w_store w)" "\<forall>r \<in> H. made_by (w_record w) r"
  shows "core_good c' w1" "moves Q w w1" "\<forall>r \<in> H. made_by (w_record w1) r" "x = Some r \<Longrightarrow> made_by (w_record w1) r"
  using core_encode_good [OF assms(1,2)] assms(3,4) by (auto simp: moves_def intro: made_by_grows)

lemma bw_record_good:
  assumes "bw_record env bw w pos e = (d, bw', w')" "bw_good bw w"
    and "kept (env_store env) (rec_table (w_record w)) Q" "Q (w_store w)"
  shows "bw_good bw' w' \<and> moves Q w w'"
proof (cases "\<not> core_healthy (bw_core bw) \<or> reobservation (env_pos env) = Dedupe \<and> bw_covered (env_pos env) bw pos")
  case True
  with assms(1) have "bw' = bw" "w' = w" unfolding bw_record_def Let_def by (auto split: if_splits)
  with assms show ?thesis by (simp add: moves_def grows_refl)
next
  case False
  then have go: "core_healthy (bw_core bw)" "\<not> (reobservation (env_pos env) = Dedupe \<and> bw_covered (env_pos env) bw pos)" by blast+
  obtain x c w1 where enc: "core_encode env (bw_core bw) w e = (x, c, w1)" by (metis surj_pair)
  from assms(2) have "core_good (bw_core bw) w" "\<forall>r \<in> set (bw_buffer bw). made_by (w_record w) r" by (simp_all add: bw_good_def)
  note c = encode_moves(1) [where Q = Q, OF enc this(1) assms(4) this(2)] and m1 = encode_moves(2) [where Q = Q, OF enc this(1) assms(4) this(2)]
    and buf = encode_moves(3) [where Q = Q, OF enc this(1) assms(4) this(2)] and made = encode_moves(4) [where Q = Q, OF enc this(1) assms(4) this(2)]
  show ?thesis
  proof (cases x)
    case None
    with enc assms(1) have "bw' = bw\<lparr>bw_core := c, bw_buffer := []\<rparr>" "w' = w1"
      by (simp_all add: bw_record_def Let_def go if_not_P [OF go(2)])
    with c m1 show ?thesis by (simp add: bw_good_def)
  next
    case (Some r)
    note row = made [OF Some]
    show ?thesis
    proof (cases "bw_current bw")
      case None
      with enc assms(1) Some have "bw' = bw_push (env_pos env) (bw\<lparr>bw_core := c\<rparr>) pos r" "w' = w1"
        by (simp_all add: bw_record_def Let_def go if_not_P [OF go(2)])
      with c m1 row buf show ?thesis by (auto simp: bw_good_def bw_push_def)
    next
      case (Some cur)
      obtain ok c2 w2 where fl: "core_flush env c w1 cur (bw_buffer bw) = (ok, c2, w2)" by (metis surj_pair)
      have "kept (env_store env) (rec_table (w_record w1)) Q" using assms(3) m1 by (simp add: moves_def grows_def)
      from core_flush_good [OF fl c buf this] m1 have g: "core_good c2 w2" "w_record w2 = w_record w1" "Q (w_store w2)"
        by (auto simp: moves_def)
      then have "moves Q w w2" using m1 by (simp add: moves_def)
      have fail: "core_good (core_fail c) w1" using c by (simp add: core_good_def)
      from enc assms(1) \<open>x = Some r\<close> Some fl consider
          "bw' = bw\<lparr>bw_core := core_fail c, bw_buffer := []\<rparr>" "w' = w1"
        | "bw' = bw\<lparr>bw_core := c2, bw_current := None, bw_buffer := []\<rparr>" "w' = w2"
        | "bw' = bw_push (env_pos env) (bw\<lparr>bw_core := c2, bw_current := None, bw_buffer := [],
              bw_watermark := Some (advance (env_pos env) (bw_watermark bw) cur)\<rparr>) pos r" "w' = w2"
        | "bw' = bw_push (env_pos env) (bw\<lparr>bw_core := c\<rparr>) pos r" "w' = w1"
        by (auto simp: bw_record_def Let_def go if_not_P [OF go(2)] split: if_splits bool.splits)
      then show ?thesis
      proof cases
        case 1
        with fail m1 show ?thesis by (simp add: bw_good_def)
      next
        case 2
        with g \<open>moves Q w w2\<close> show ?thesis by (simp add: bw_good_def)
      next
        case 3
        with g row \<open>moves Q w w2\<close> show ?thesis by (simp add: bw_good_def bw_push_def)
      next
        case 4
        with c m1 row buf show ?thesis by (auto simp: bw_good_def bw_push_def)
      qed
    qed
  qed
qed

lemma bw_finish_good:
  assumes "bw_finish env bw w = (bw', w')" "bw_good bw w"
    and "kept (env_store env) (rec_table (w_record w)) Q" "Q (w_store w)"
  shows "moves Q w w'"
proof (cases "core_healthy (bw_core bw) \<and> bw_current bw \<noteq> None")
  case True
  then obtain cur where cur: "bw_current bw = Some cur" by auto
  obtain ok c w1 where fl: "core_flush env (bw_core bw) w cur (bw_buffer bw) = (ok, c, w1)" by (metis surj_pair)
  from core_flush_good [OF fl _ _ assms(3,4)] assms(2) have "w_record w1 = w_record w" "Q (w_store w1)" by (auto simp: bw_good_def)
  with True cur fl assms(1) show ?thesis by (auto simp: bw_finish_def moves_def grows_refl split: bool.splits)
next
  case False
  with assms(1,4) show ?thesis by (auto simp: bw_finish_def moves_def grows_refl split: if_splits option.splits)
qed

lemma cw_flush_keys_good:
  "cw_flush_keys env bs win w = (win', w') \<Longrightarrow> cw_good win w \<Longrightarrow>
     kept (env_store env) (rec_table (w_record w)) Q \<Longrightarrow> Q (w_store w) \<Longrightarrow> cw_good win' w' \<and> moves Q w w'"
proof (induction bs arbitrary: win w)
  case Nil
  then show ?case by (simp add: moves_def grows_refl)
next
  case (Cons b bs)
  show ?case
  proof (cases "bt_get (cw_pending win) b")
    case None
    with Cons show ?thesis by simp
  next
    case (Some pd)
    let ?win = "win\<lparr>cw_pending := bt_remove b (cw_pending win)\<rparr>"
    obtain ok c w1 where fl: "core_flush env (cw_core win) w (pend_position pd) (pend_rows pd) = (ok, c, w1)" by (metis surj_pair)
    from Some have "(b, pd) \<in> set (cw_pending win)" by (auto simp: bt_get_def dest: map_of_SomeD)
    with Cons.prems(2) have "\<forall>r \<in> set (pend_rows pd). made_by (w_record w) r" by (fastforce simp: cw_good_def)
    from core_flush_good [OF fl _ this Cons.prems(3,4)] Cons.prems(2)
    have g: "core_good c w1" "w_record w1 = w_record w" "Q (w_store w1)" by (auto simp: cw_good_def)
    have rest: "set (bt_remove b (cw_pending win)) \<subseteq> set (cw_pending win)" by (auto simp: bt_remove_def)
    show ?thesis
    proof (cases ok)
      case True
      let ?win' = "?win\<lparr>cw_core := c, cw_flushed := Some (opt_max (cw_flushed win) b),
          cw_watermark := Some (advance (env_pos env) (cw_watermark win) (pend_position pd))\<rparr>"
      from True Some fl Cons.prems(1) have run: "cw_flush_keys env bs ?win' w1 = (win', w')" by simp
      have good: "cw_good ?win' w1" using Cons.prems(2) g rest by (auto simp: cw_good_def)
      from Cons.IH [OF run good] Cons.prems(3) g show ?thesis by (auto simp: moves_def)
    next
      case False
      with Some fl Cons.prems(1) g show ?thesis by (auto simp: cw_good_def moves_def grows_refl)
    qed
  qed
qed

lemma cw_flush_matured_good:
  "cw_flush_matured env win w = (win', w') \<Longrightarrow> cw_good win w \<Longrightarrow>
     kept (env_store env) (rec_table (w_record w)) Q \<Longrightarrow> Q (w_store w) \<Longrightarrow> cw_good win' w' \<and> moves Q w w'"
  by (auto simp: cw_flush_matured_def moves_def grows_refl dest: cw_flush_keys_good split: option.splits)

text \<open>What an update of the window holds: rows it held, and the new one.\<close>

definition held :: "'p window \<Rightarrow> row set" where
  "held win = (\<Union>bp \<in> set (cw_pending win). set (pend_rows (snd bp)))"

lemma cw_good_held: "cw_good win w \<longleftrightarrow> core_good (cw_core win) w \<and> (\<forall>r \<in> held win. made_by (w_record w) r)"
  by (auto simp: cw_good_def held_def)

lemma held_simps [simp]:
  "held (win\<lparr>cw_core := c\<rparr>) = held win" "held (win\<lparr>cw_head := h\<rparr>) = held win" "held (win\<lparr>cw_flushed := f\<rparr>) = held win"
  "held (win\<lparr>cw_watermark := m\<rparr>) = held win" "held (win\<lparr>cw_pending := []\<rparr>) = {}" "held (cw_fail win) = {}"
  "held (cw_new P depth seed) = {}"
  by (simp_all add: held_def cw_fail_def cw_new_def)

lemma held_rewind: "held (cw_rewind key win) \<subseteq> held win"
proof
  fix r assume "r \<in> held (cw_rewind key win)"
  then obtain b pd where "(b, pd) \<in> set (cw_pending win)"
    and "r \<in> set (pend_rows (if key \<le> b \<and> pend_seeded pd then pend_convert pd else pd))"
    by (auto simp: held_def cw_rewind_def)
  then show "r \<in> held win" by (force simp: held_def pend_convert_def split: if_splits)
qed

lemma cw_rewind_core [simp]: "cw_core (cw_rewind key win) = cw_core win"
  by (simp add: cw_rewind_def)

lemma slot_rows:
  "set (pend_rows (snd (live_slot P slot pos r))) \<subseteq> insert r (case slot of None \<Rightarrow> {} | Some pd \<Rightarrow> set (pend_rows pd))"
  "set (pend_rows (seeded_slot P slot pos r)) \<subseteq> insert r (case slot of None \<Rightarrow> {} | Some pd \<Rightarrow> set (pend_rows pd))"
  by (auto simp: live_slot_def seeded_slot_def Let_def pend_convert_def split: option.splits if_splits)

lemma bt_insert_subset: "set (bt_insert k v m) \<subseteq> insert (k, v) (set m)"
  by (induction k v m rule: bt_insert.induct) auto

lemma held_put:
  assumes "set (pend_rows pd) \<subseteq> insert r (case bt_get (cw_pending win) key of None \<Rightarrow> {} | Some pd' \<Rightarrow> set (pend_rows pd'))"
  shows "held (cw_put key pd win) \<subseteq> insert r (held win)"
proof -
  have "(case bt_get (cw_pending win) key of None \<Rightarrow> {} | Some pd' \<Rightarrow> set (pend_rows pd')) \<subseteq> held win"
    by (auto simp: held_def bt_get_def split: option.splits dest: map_of_SomeD)
  moreover have "held (cw_put key pd win) \<subseteq> set (pend_rows pd) \<union> held win"
    using bt_insert_subset [of key pd "cw_pending win"] by (auto simp: held_def cw_put_def)
  ultimately show ?thesis using assms by blast
qed

lemma cw_put_core [simp]: "cw_core (cw_put key pd win) = cw_core win"
  by (simp add: cw_put_def)

text \<open>A put of a row the record just made, and the flush after it.\<close>

lemma put_flush_good:
  assumes "cw_flush_matured env (cw_put key pd win1) w1 = (win', w')"
    and "core_good (cw_core win1) w1" "held win1 \<subseteq> held win" "made_by (w_record w1) r"
    and "set (pend_rows pd) \<subseteq> insert r (case bt_get (cw_pending win1) key of None \<Rightarrow> {} | Some pd' \<Rightarrow> set (pend_rows pd'))"
    and "\<forall>r \<in> held win. made_by (w_record w1) r"
    and "kept (env_store env) (rec_table (w_record w)) Q" "moves Q w w1"
  shows "cw_good win' w' \<and> moves Q w w'"
proof -
  have "cw_good (cw_put key pd win1) w1"
    using assms(2-4,6) held_put [OF assms(5)] unfolding cw_good_held by auto
  moreover have "kept (env_store env) (rec_table (w_record w1)) Q" "Q (w_store w1)"
    using assms(7,8) by (simp_all add: moves_def grows_def)
  ultimately show ?thesis using cw_flush_matured_good [OF assms(1)] moves_trans [OF assms(8)] by blast
qed

lemma cw_fail_good: "cw_good win w \<Longrightarrow> cw_good (cw_fail win) w"
  by (simp add: cw_good_def cw_fail_def core_good_def)

lemma cw_record_good:
  assumes "cw_record env win w pos e = (d, win', w')" "cw_good win w"
    and "kept (env_store env) (rec_table (w_record w)) Q" "Q (w_store w)"
  shows "cw_good win' w' \<and> moves Q w w'"
proof (cases "\<not> core_healthy (cw_core win) \<or> reobservation (env_pos env) = Dedupe \<and> cw_covered (env_pos env) win pos \<or>
    reobservation (env_pos env) = Halt \<and> finalized win (sort_key (env_pos env) pos)")
  case True
  with assms(1) have "win' = win \<or> win' = cw_fail win" "w' = w" unfolding cw_record_def Let_def by (auto split: if_splits)
  with assms show ?thesis by (auto simp: moves_def grows_refl cw_fail_good)
next
  case False
  then have go: "core_healthy (cw_core win)" "\<not> (reobservation (env_pos env) = Dedupe \<and> cw_covered (env_pos env) win pos)"
    "\<not> (reobservation (env_pos env) = Halt \<and> finalized win (sort_key (env_pos env) pos))" by blast+
  obtain x c w1 where enc: "core_encode env (cw_core win) w e = (x, c, w1)" by (metis surj_pair)
  from assms(2) have "core_good (cw_core win) w" "\<forall>r \<in> held win. made_by (w_record w) r" by (simp_all add: cw_good_held)
  note c = encode_moves(1) [where Q = Q, OF enc this(1) assms(4) this(2)] and m1 = encode_moves(2) [where Q = Q, OF enc this(1) assms(4) this(2)]
    and old = encode_moves(3) [where Q = Q, OF enc this(1) assms(4) this(2)] and made = encode_moves(4) [where Q = Q, OF enc this(1) assms(4) this(2)]
  show ?thesis
  proof (cases x)
    case None
    with enc assms(1) have "win' = win\<lparr>cw_core := c, cw_pending := []\<rparr>" "w' = w1"
      by (simp_all add: cw_record_def Let_def go if_not_P [OF go(2)] if_not_P [OF go(3)])
    with c m1 show ?thesis by (simp add: cw_good_def)
  next
    case (Some r)
    let ?key = "sort_key (env_pos env) pos"
    define win1 where "win1 = (if reobservation (env_pos env) = Halt \<and> head_above (win\<lparr>cw_core := c\<rparr>) ?key
      then (cw_rewind ?key (win\<lparr>cw_core := c\<rparr>))\<lparr>cw_head := Some ?key\<rparr> else win\<lparr>cw_core := c\<rparr>)"
    obtain d1 pd where slot: "live_slot (env_pos env) (bt_get (cw_pending win1) ?key) pos r = (d1, pd)" by fastforce
    from enc assms(1) Some slot have fl: "cw_flush_matured env (cw_put ?key pd win1) w1 = (win', w')"
      by (simp add: cw_record_def Let_def go if_not_P [OF go(2)] if_not_P [OF go(3)] win1_def [symmetric] split: prod.splits)
    have "cw_core win1 = c" "held win1 \<subseteq> held win"
      using held_rewind [of ?key "win\<lparr>cw_core := c\<rparr>"] by (auto simp: win1_def)
    with slot_rows(1) [of "env_pos env" _ pos r] slot put_flush_good [OF fl _ _ made [OF Some] _ old assms(3) m1] c
    show ?thesis by (metis snd_conv)
  qed
qed

lemma cw_record_seeded_good:
  assumes "cw_record_seeded env win w pos e = (d, win', w')" "cw_good win w"
    and "kept (env_store env) (rec_table (w_record w)) Q" "Q (w_store w)"
  shows "cw_good win' w' \<and> moves Q w w'"
proof (cases "\<not> core_healthy (cw_core win) \<or> reobservation (env_pos env) = Dedupe \<and> cw_covered (env_pos env) win pos \<or>
    reobservation (env_pos env) = Halt \<and> head_above win (sort_key (env_pos env) pos)")
  case True
  with assms(1) have "win' = win \<or> win' = cw_fail win" "w' = w" unfolding cw_record_seeded_def Let_def by (auto split: if_splits)
  with assms show ?thesis by (auto simp: moves_def grows_refl cw_fail_good)
next
  case False
  then have go: "core_healthy (cw_core win)" "\<not> (reobservation (env_pos env) = Dedupe \<and> cw_covered (env_pos env) win pos)"
    "\<not> (reobservation (env_pos env) = Halt \<and> head_above win (sort_key (env_pos env) pos))" by blast+
  obtain x c w1 where enc: "core_encode env (cw_core win) w e = (x, c, w1)" by (metis surj_pair)
  from assms(2) have "core_good (cw_core win) w" "\<forall>r \<in> held win. made_by (w_record w) r" by (simp_all add: cw_good_held)
  note c = encode_moves(1) [where Q = Q, OF enc this(1) assms(4) this(2)] and m1 = encode_moves(2) [where Q = Q, OF enc this(1) assms(4) this(2)]
    and old = encode_moves(3) [where Q = Q, OF enc this(1) assms(4) this(2)] and made = encode_moves(4) [where Q = Q, OF enc this(1) assms(4) this(2)]
  show ?thesis
  proof (cases x)
    case None
    with enc assms(1) have "win' = win\<lparr>cw_core := c, cw_pending := []\<rparr>" "w' = w1"
      by (simp_all add: cw_record_seeded_def Let_def go if_not_P [OF go(2)] if_not_P [OF go(3)])
    with c m1 show ?thesis by (simp add: cw_good_def)
  next
    case (Some r)
    let ?key = "sort_key (env_pos env) pos" and ?win = "win\<lparr>cw_core := c\<rparr>"
    from enc assms(1) Some have fl: "cw_flush_matured env
        (cw_put ?key (seeded_slot (env_pos env) (bt_get (cw_pending ?win) ?key) pos r) ?win) w1 = (win', w')"
      by (simp add: cw_record_seeded_def Let_def go if_not_P [OF go(2)] if_not_P [OF go(3)] split: prod.splits)
    from put_flush_good [OF fl _ _ made [OF Some] slot_rows(2) old assms(3) m1] c show ?thesis by simp
  qed
qed

lemma cw_retract_good: "cw_good win w \<Longrightarrow> cw_good (cw_retract P pos win) w"
  using held_rewind [of "sort_key P pos" win] cw_fail_good [of win w]
  by (auto simp: cw_retract_def Let_def cw_good_held)

section \<open>The pipeline\<close>

lemma pe_backfill_good:
  "pe_backfill env fcut pes bw win w = (out, bw', win', w') \<Longrightarrow> bw_good bw w \<Longrightarrow> cw_good win w \<Longrightarrow>
     kept (env_store env) (rec_table (w_record w)) Q \<Longrightarrow> Q (w_store w) \<Longrightarrow>
     bw_good bw' w' \<and> cw_good win' w' \<and> moves Q w w'"
proof (induction pes arbitrary: bw win w out)
  case Nil
  then show ?case by (simp add: moves_def grows_refl)
next
  case (Cons pe pes)
  obtain pos e where pe: "pe = (pos, e)" by fastforce
  have rest: "bw_good bw' w' \<and> cw_good win' w' \<and> moves Q w w'"
    if "bw_good bw1 w1" "cw_good win1 w1" "moves Q w w1" "pe_backfill env fcut pes bw1 win1 w1 = (out1, bw', win', w')"
    for bw1 win1 w1 out1
  proof -
    from that(3) Cons.prems(4) have "kept (env_store env) (rec_table (w_record w1)) Q" "Q (w_store w1)"
      by (simp_all add: moves_def grows_def)
    from Cons.IH [OF that(4,1,2) this] that(3) show ?thesis by (blast intro: moves_trans)
  qed
  show ?case
  proof (cases "settles fcut (sort_key (env_pos env) pos)")
    case True
    obtain d bw1 w1 where s: "bw_record env bw w pos e = (d, bw1, w1)" by (metis surj_pair)
    from bw_record_good [OF s Cons.prems(2,4,5)] have "bw_good bw1 w1" "moves Q w w1" by simp_all
    with rest [of bw1 w1 win] cw_good_grows [OF Cons.prems(3)] True s pe Cons.prems(1) show ?thesis
      by (auto simp: moves_def split: prod.splits)
  next
    case False
    obtain d win1 w1 where s: "cw_record_seeded env win w pos e = (d, win1, w1)" by (metis surj_pair)
    from cw_record_seeded_good [OF s Cons.prems(3,4,5)] have "cw_good win1 w1" "moves Q w w1" by simp_all
    with rest [of bw w1 win1] bw_good_grows [OF Cons.prems(2)] False s pe Cons.prems(1) show ?thesis
      by (auto simp: moves_def split: prod.splits)
  qed
qed

lemma pe_live_good:
  "pe_live env items win w = (out, win', w') \<Longrightarrow> cw_good win w \<Longrightarrow>
     kept (env_store env) (rec_table (w_record w)) Q \<Longrightarrow> Q (w_store w) \<Longrightarrow> moves Q w w'"
proof (induction items arbitrary: win w out)
  case Nil
  then show ?case by (simp add: moves_def grows_refl)
next
  case (Cons item items)
  show ?case
  proof (cases item)
    case (Event pos e)
    obtain d win1 w1 where s: "cw_record env win w pos e = (d, win1, w1)" by (metis surj_pair)
    obtain out1 where r: "pe_live env items win1 w1 = (out1, win', w')"
      using Event s Cons.prems(1) by (auto split: prod.splits)
    from cw_record_good [OF s Cons.prems(2-4)] have g: "cw_good win1 w1" "moves Q w w1" by simp_all
    moreover from g(2) Cons.prems(3) have "kept (env_store env) (rec_table (w_record w1)) Q" "Q (w_store w1)"
      by (simp_all add: moves_def grows_def)
    ultimately show ?thesis using Cons.IH [OF r] by (blast intro: moves_trans)
  next
    case (Retract pos)
    with Cons.prems(1) have "pe_live env items (cw_retract (env_pos env) pos win) w = (out, win', w')" by simp
    from Cons.IH [OF this cw_retract_good [OF Cons.prems(2)] Cons.prems(3,4)] show ?thesis .
  qed
qed

lemma backfill_keeps:
  assumes "pe_backfill env fcut backfill (bw_new seed) (cw_new P depth cseed) w = (out, bw, win, w')"
    and "record_ok (w_record w)" "kept (env_store env) (rec_table (w_record w)) Q" "Q (w_store w)"
  shows "bw_good bw w' \<and> cw_good win w' \<and> moves Q w w'"
proof -
  have "bw_good (bw_new seed) w" "cw_good (cw_new P depth cseed) w"
    using assms(2) by (simp_all add: bw_good_def cw_good_def bw_new_def cw_new_def core_new_def core_good_def)
  from pe_backfill_good [OF assms(1) this assms(3,4)] show ?thesis .
qed

lemma persist_and_emit_keeps:
  assumes "persist_and_emit env backfill live depth fcut seed w = (out, settled, win, w')"
    and "record_ok (w_record w)" "kept (env_store env) (rec_table (w_record w)) Q" "Q (w_store w)"
  shows "Q (w_store w')"
proof -
  let ?P = "env_pos env"
  obtain out1 bw1 win1 w1 where bf: "pe_backfill env fcut backfill (bw_new seed) (cw_new ?P depth (window_seed ?P fcut seed)) w
      = (out1, bw1, win1, w1)" by (metis surj_pair)
  obtain bw2 w2 where fin: "bw_finish env bw1 w1 = (bw2, w2)" by fastforce
  obtain out2 win2 w3 where lv: "pe_live env live (pe_handover ?P bw2 win1) w2 = (out2, win2, w3)" by (metis surj_pair)
  have w': "w' = w3" using assms(1) bf fin lv by (simp add: persist_and_emit_def Let_def)
  from backfill_keeps [OF bf assms(2-4)] have g: "bw_good bw1 w1" "cw_good win1 w1" "moves Q w w1" by blast+
  then have k: "kept (env_store env) (rec_table (w_record w1)) Q" "Q (w_store w1)" using assms(3) by (simp_all add: moves_def grows_def)
  from bw_finish_good [OF fin g(1) k] have m: "moves Q w1 w2" .
  then have "cw_good win1 w2" using cw_good_grows [OF g(2), of w2] by (simp add: moves_def)
  moreover from m k have "kept (env_store env) (rec_table (w_record w2)) Q" "Q (w_store w2)"
    by (simp_all add: moves_def grows_def)
  moreover from \<open>cw_good win1 w2\<close> have "cw_good (pe_handover ?P bw2 win1) w2"
    using cw_fail_good [of win1 w2] by (auto simp: pe_handover_def cw_absorb_def cw_halt_def cw_good_def split: option.splits)
  ultimately show ?thesis using pe_live_good [OF lv] w' by (auto simp: moves_def)
qed

end
