(* ===== verification/Unlogged.thy ===== *)
theory Unlogged
  imports Persist_Emit
begin

text \<open>
  A log of the writes is only an observer: the pipeline over the plain store does what it does over
  the logging one, less the log.
\<close>

abbreviation logged_env :: "'p position_ops \<Rightarrow> 'e serde \<Rightarrow> ('p, 's) store_ops \<Rightarrow> ('p, 'e, 's \<times> 'p write_log) writer_env" where
  "logged_env P sd S \<equiv> \<lparr>env_pos = P, env_serde = sd, env_store = logging S\<rparr>"

abbreviation plain_env :: "'p position_ops \<Rightarrow> 'e serde \<Rightarrow> ('p, 's) store_ops \<Rightarrow> ('p, 'e, 's) writer_env" where
  "plain_env P sd S \<equiv> \<lparr>env_pos = P, env_serde = sd, env_store = S\<rparr>"

definition bare :: "('s \<times> 'p write_log) world \<Rightarrow> 's world" where
  "bare w = \<lparr>w_store = fst (w_store w), w_record = w_record w\<rparr>"

lemma bare_simps [simp]:
  "w_store (bare w) = fst (w_store w)" "w_record (bare w) = w_record w"
  "bare (w\<lparr>w_record := rc\<rparr>) = (bare w)\<lparr>w_record := rc\<rparr>"
  "bare (w\<lparr>w_store := sl\<rparr>) = (bare w)\<lparr>w_store := fst sl\<rparr>"
  by (simp_all add: bare_def)

named_theorems unlogged

lemma core_encode_bare [unlogged]:
  "core_encode (plain_env P sd S) c (bare w) e = (case core_encode (logged_env P sd S) c w e of (x, c', w') \<Rightarrow> (x, c', bare w'))"
  by (simp add: core_encode_def split: prod.splits sum.splits)

lemma core_flush_bare [unlogged]:
  "core_flush (plain_env P sd S) c (bare w) p rows = (case core_flush (logged_env P sd S) c w p rows of (ok, c', w') \<Rightarrow> (ok, c', bare w'))"
  by (auto simp: core_flush_def logging_write split: prod.splits sum.splits option.splits)

lemma bw_record_bare [unlogged]:
  "bw_record (plain_env P sd S) bw (bare w) pos e = (case bw_record (logged_env P sd S) bw w pos e of (d, bw', w') \<Rightarrow> (d, bw', bare w'))"
  by (auto simp: bw_record_def unlogged Let_def split: prod.splits option.splits bool.splits)

lemma bw_finish_bare [unlogged]:
  "bw_finish (plain_env P sd S) bw (bare w) = (case bw_finish (logged_env P sd S) bw w of (bw', w') \<Rightarrow> (bw', bare w'))"
  by (auto simp: bw_finish_def unlogged Let_def split: prod.splits option.splits bool.splits)

lemma cw_flush_keys_bare [unlogged]:
  "cw_flush_keys (plain_env P sd S) bs win (bare w) = (case cw_flush_keys (logged_env P sd S) bs win w of (win', w') \<Rightarrow> (win', bare w'))"
  by (induction bs arbitrary: win w) (auto simp: unlogged Let_def split: prod.splits option.splits bool.splits)

lemma cw_flush_matured_bare [unlogged]:
  "cw_flush_matured (plain_env P sd S) win (bare w) = (case cw_flush_matured (logged_env P sd S) win w of (win', w') \<Rightarrow> (win', bare w'))"
  by (simp add: cw_flush_matured_def unlogged split: prod.splits option.splits)

lemma cw_record_bare [unlogged]:
  "cw_record (plain_env P sd S) win (bare w) pos e = (case cw_record (logged_env P sd S) win w pos e of (d, win', w') \<Rightarrow> (d, win', bare w'))"
  by (auto simp: cw_record_def unlogged Let_def split: prod.splits option.splits)

lemma cw_record_seeded_bare [unlogged]:
  "cw_record_seeded (plain_env P sd S) win (bare w) pos e =
     (case cw_record_seeded (logged_env P sd S) win w pos e of (d, win', w') \<Rightarrow> (d, win', bare w'))"
  by (auto simp: cw_record_seeded_def unlogged Let_def split: prod.splits option.splits)

lemma pe_backfill_bare [unlogged]:
  "pe_backfill (plain_env P sd S) fcut pes bw win (bare w) =
     (case pe_backfill (logged_env P sd S) fcut pes bw win w of (out, bw', win', w') \<Rightarrow> (out, bw', win', bare w'))"
proof (induction pes arbitrary: bw win w)
  case (Cons pe pes)
  then show ?case by (cases pe) (auto simp: unlogged Let_def split: prod.splits)
qed simp

lemma pe_live_bare [unlogged]:
  "pe_live (plain_env P sd S) items win (bare w) =
     (case pe_live (logged_env P sd S) items win w of (out, win', w') \<Rightarrow> (out, win', bare w'))"
proof (induction items arbitrary: win w)
  case (Cons item items)
  then show ?case by (cases item) (auto simp: unlogged Let_def split: prod.splits)
qed simp

lemma persist_and_emit_bare:
  "persist_and_emit (plain_env P sd S) backfill live depth fcut seed (bare w) =
     (case persist_and_emit (logged_env P sd S) backfill live depth fcut seed w of (out, bw, win, w') \<Rightarrow> (out, bw, win, bare w'))"
  by (auto simp: persist_and_emit_def unlogged Let_def split: prod.splits)

text \<open>So every run over a plain store is a run over the logging one.\<close>

lemma persist_and_emit_logged:
  assumes "persist_and_emit (plain_env P sd S) backfill live depth fcut seed \<lparr>w_store = s, w_record = rc\<rparr> = (out, bw, win, w')"
  obtains w2 where "persist_and_emit (logged_env P sd S) backfill live depth fcut seed \<lparr>w_store = (s, []), w_record = rc\<rparr>
      = (out, bw, win, w2)" "w' = bare w2"
proof -
  let ?w = "\<lparr>w_store = (s, []), w_record = rc\<rparr> :: ('c \<times> 'b write_log) world"
  have "bare ?w = \<lparr>w_store = s, w_record = rc\<rparr>" by (simp add: bare_def)
  then have run: "persist_and_emit (plain_env P sd S) backfill live depth fcut seed (bare ?w) = (out, bw, win, w')"
    using assms by (simp only:)
  obtain out1 bw1 win1 w2 where log: "persist_and_emit (logged_env P sd S) backfill live depth fcut seed ?w = (out1, bw1, win1, w2)"
    by (metis surj_pair)
  from run [unfolded persist_and_emit_bare log] that log show thesis by simp
qed

end
