(* ===== verification/Pipeline_Properties.thy ===== *)
theory Pipeline_Properties
  imports Pipeline_Store Unlogged Sql_Properties Writer_Properties
begin

text \<open>
  The program from end to end: what the write pipeline leaves in a SQL archive. The pipeline refines
  the chain of groups, the record makes rows the store can keep, the SQL store keeps the contract;
  here the three are put together.
\<close>

text \<open>A group of the chain as the archive holds it: its key, and the payload of each row.\<close>

fun archived_group :: "u64 \<times> row list \<Rightarrow> stored_row list" where
  "archived_group (k, rows) = map (\<lambda>r. (int (unat k), text_of (last r))) rows"

definition archived :: "(u64 \<times> row list) list \<Rightarrow> stored_row list" where
  "archived gs = concat (map archived_group gs)"

section \<open>Logs of writes of one table\<close>

definition made_log :: "string \<Rightarrow> 'p write_log \<Rightarrow> bool" where
  "made_log t log \<longleftrightarrow> (\<forall>(sch, p, rows) \<in> set log. schema_table sch = t \<and> (\<forall>r \<in> set rows. r \<noteq> [] \<and> payload_text sch r = text_of (last r)))"

lemma fits_nonempty: "fits sch r \<Longrightarrow> r \<noteq> []"
  by (auto simp: fits_def payload_cell_def)

lemma made_log_Nil [simp]: "made_log t []"
  by (simp add: made_log_def)

lemma made_log_rows: "made_log t log \<Longrightarrow> log_rows P t' log = (if t' = t then archived (log_groups P log) else [])"
  by (induction log) (auto simp: made_log_def log_rows_def log_groups_def archived_def stored_rows_def)

lemma made_log_groups: "made_log t log \<Longrightarrow> (k, rows) \<in> set (log_groups P log) \<Longrightarrow> r \<in> set rows \<Longrightarrow> r \<noteq> []"
  by (fastforce simp: made_log_def log_groups_def)

lemma made_log_positions: "made_log t log \<Longrightarrow> map (sort_key P) (log_positions t log) = map fst (log_groups P log)"
  by (induction log) (auto simp: made_log_def log_positions_def log_groups_def)

context store_contract begin

lemma kept_agrees: "kept (logging S) t (\<lambda>sl. agrees s0 sl \<and> made_log t (snd sl))"
  unfolding kept_def
proof (intro allI impI conjI)
  fix sch p rows sl
  assume Q: "agrees s0 sl \<and> made_log t (snd sl)" and t: "schema_table sch = t"
    and rows: "\<forall>r \<in> set rows. fits sch r \<and> payload_text sch r = text_of (last r)"
  then show "agrees s0 (snd (store_write (logging S) sch p rows sl))" by (intro agrees_write) simp_all
  show "made_log t (snd (snd (store_write (logging S) sch p rows sl)))"
    using Q t rows by (auto simp: logging_write made_log_def dest: fits_nonempty split: prod.splits sum.splits)
qed

text \<open>A run of the pipeline over a store that keeps the contract.\<close>

lemma pipeline_archives:
  assumes "persist_and_emit (logged_env P sd S) backfill live depth fcut seed \<lparr>w_store = (s0, []), w_record = rc\<rparr> = (out, settled, win, w')"
    and "record_ok rc" "ok_state s0"
  shows "agrees s0 (w_store w') \<and> made_log (rec_table rc) (snd (w_store w'))"
  by (rule persist_and_emit_keeps [OF assms(1), where Q = "\<lambda>sl. agrees s0 sl \<and> made_log (rec_table rc) (snd sl)"])
    (use kept_agrees agrees_start assms(2,3) in simp_all)

end

section \<open>The archive and the chain\<close>

text \<open>
  Property C6: a block-like subscription with a SQL archive, from end to end. Whatever the database
  did (errors, lost races, rollbacks), if the window did not halt, the record's table holds what it
  held, then the payloads of the chain's groups under their keys, in chain order, up to the groups
  the window still buffers; no other table changed; and the resume position is the advance, from
  where it stood, over one position of each group written.
\<close>

theorem archive_holds_chain:
  assumes "sql_archive D DB view tview P" and "store_sound view st"
    and "record_new signature override = Ok rc"
    and "reobservation P = Halt" and "tip < max_val"
    and "\<forall>(pos, e) \<in> set backfill. above (map_option (sort_key P) seed) (sort_key P pos) \<and> sort_key P pos \<le> tip"
    and "persist_and_emit \<lparr>env_pos = P, env_serde = sd, env_store = sql_store P D DB\<rparr> backfill live depth
      (checked_sub tip depth) seed \<lparr>w_store = st, w_record = rc\<rparr> = (out, settled, win, w')"
    and "core_healthy (cw_core win)"
  shows "\<exists>written ps. written @ pend_groups (cw_pending win) =
      chain_groups (snd (pipeline_chain P sd rc (checked_sub tip depth) backfill live)) \<and>
    map (sort_key P) ps = map fst written \<and>
    (\<forall>t. arc_contents (view (pool (w_store w'))) t =
        arc_contents (view (pool st)) t @ (if t = rec_table rc then archived written else [])) \<and>
    arc_mark P (view (pool (w_store w'))) (rec_table rc) = advance_all P (arc_mark P (view (pool st)) (rec_table rc)) ps"
proof -
  have order: "position_order P" using assms(1) by (simp add: sql_archive_def position_codec_def)
  have ok: "record_ok rc" using record_new_start [OF assms(3)] by (auto simp: record_inferred_ok intro: record_declared_ok)
  from assms(7) obtain w2 where run: "persist_and_emit (logged_env P sd (sql_store P D DB)) backfill live depth
      (checked_sub tip depth) seed \<lparr>w_store = (st, []), w_record = rc\<rparr> = (out, settled, win, w2)" and w': "w' = bare w2"
    by (rule persist_and_emit_logged)
  let ?log = "snd (w_store w2)"
  note contract = sql_archive.sql_store_contract [OF assms(1)]
  from store_contract.pipeline_archives [OF contract run ok assms(2)]
  have agrees: "store_contract.agrees P (\<lambda>st. arc_contents (view (pool st))) (\<lambda>st. arc_mark P (view (pool st)))
      (store_sound view) st (w_store w2)" and made: "made_log (rec_table rc) ?log" by blast+
  have refines: "log_groups P ?log @ pend_groups (cw_pending win) =
      chain_groups (snd (pipeline_chain P sd rc (checked_sub tip depth) backfill live))"
    using pe_refines [where env = "logged_env P sd (sql_store P D DB)" and w = "\<lparr>w_store = (st, []), w_record = rc\<rparr>"
        and s = st and S = "sql_store P D DB" and w' = w2 and win = win and seed = seed and backfill = backfill and live = live
        and out = out and settled = settled and depth = depth and tip = tip]
      order assms(4-6,8) run by simp
  show ?thesis
    by (rule exI [of _ "log_groups P ?log"], rule exI [of _ "log_positions (rec_table rc) ?log"])
      (use refines made_log_positions [OF made] made_log_rows [OF made] w'
        agrees [unfolded store_contract.agrees_def [OF contract]] in simp)
qed

text \<open>An empty SQLite archive; a backfill to block 5, then a live tail with a reorg at block 6, depth 2.\<close>

definition blank_archive :: "mem_disk sql_store" where
  "blank_archive = sql_store_new \<lparr>disk = \<lparr>arc_progress = None, arc_tables = Map.empty\<rparr>, attempts = 0\<rparr>"

definition filled :: "nat \<Rightarrow> u64 \<Rightarrow> (i64 \<times> sql_value) list \<Rightarrow> mem_disk sql_store" where
  "filled n k rows = \<lparr>
     pool = \<lparr>
       disk = \<lparr>
         arc_progress = Some \<lparr>has_position = True, entries = [''ev'' \<mapsto> (Some (int (unat k)), Some (block_encode (BlockPosition k)))]\<rparr>,
         arc_tables = [''ev'' \<mapsto> rows]\<rparr>,
       attempts = n\<rparr>,
     migration_checked = True\<rparr>"

definition sqlite_env :: "(block_position, string, mem_disk sql_store) writer_env" where
  "sqlite_env = \<lparr>env_pos = block_position_ops, env_serde = demo_serde,
     env_store = sql_store block_position_ops sqlite_dialect (mem_db no_faults)\<rparr>"

definition sqlite_world :: "mem_disk sql_store world" where
  "sqlite_world = \<lparr>w_store = blank_archive, w_record = record_inferred ''ev''\<rparr>"

definition tail_backfill :: "(block_position \<times> string) list" where
  "tail_backfill = [(BlockPosition 3, ''a'')]"

definition tail_live :: "(block_position, string) indexed list" where
  "tail_live = [Event (BlockPosition 6) ''c'', Retract (BlockPosition 6), Event (BlockPosition 6) ''d'', Event (BlockPosition 8) ''e'']"

lemma blank_archive_sound: "store_sound disk blank_archive"
  by (simp add: store_sound_def blank_archive_def sql_store_new_def archive_ok_def)

lemma first_write: "sql_write block_position_ops sqlite_dialect (mem_db no_faults) demo_schema (BlockPosition 3) [demo_row ''a''] blank_archive =
    (Ok (), filled (Suc 0) 3 [(3, Text ''ja'')])"
  by (simp add: sql_write_def sql_simps blank_archive_def filled_def)

lemma second_write: "sql_write block_position_ops sqlite_dialect (mem_db no_faults) demo_schema (BlockPosition 6) [demo_row ''d'']
    (filled (Suc 0) 3 [(3, Text ''ja'')]) = (Ok (), filled 2 6 [(3, Text ''ja''), (6, Text ''jd'')])"
  by (simp add: sql_write_def sql_simps filled_def block_decode_encode)

lemmas sqlite_run = run_simps sqlite_env_def sqlite_world_def tail_backfill_def tail_live_def sql_store_def
  Sql_Properties.demo_schema_def [symmetric] first_write second_write

lemma tail_chain: "chain_groups (snd (pipeline_chain block_position_ops demo_serde (record_inferred ''ev'') (checked_sub 5 2)
    tail_backfill tail_live)) = [(3, [demo_row ''a'']), (6, [demo_row ''d'']), (8, [demo_row ''e''])]"
  by (simp add: sqlite_run pipeline_chain_def keyed_rows_def groups_def add_row_def Persist_Emit.plain_def chain_rewind_def)

lemma tail_record: "record_new ''ev'' None = Ok (record_inferred ''ev'')"
proof -
  have "table_name ''ev'' = ''ev''" by code_simp
  then show ?thesis by (simp add: record_new_def)
qed

lemma block_keys: "map (sort_key block_position_ops) ps = ks \<Longrightarrow> ps = map BlockPosition ks"
proof (induction ps arbitrary: ks)
  case (Cons p ps)
  then show ?case by (cases p) auto
qed simp

lemma archive_holds_chain_witness:
  "case persist_and_emit sqlite_env tail_backfill tail_live 2 (checked_sub 5 2) None sqlite_world of
     (out, settled, win, w') \<Rightarrow>
       arc_contents (disk (pool (w_store w'))) ''ev'' = [(3, ''ja''), (6, ''jd'')] \<and>
       arc_mark block_position_ops (disk (pool (w_store w'))) ''ev'' = Some (BlockPosition 6)"
proof -
  obtain out settled win w' where run:
    "persist_and_emit sqlite_env tail_backfill tail_live 2 (checked_sub 5 2) None sqlite_world = (out, settled, win, w')"
    by (metis surj_pair)
  then have healthy: "core_healthy (cw_core win)" and pend: "pend_groups (cw_pending win) = [(8, [demo_row ''e''])]"
    by (auto simp: sqlite_run)
  have table: "rec_table (record_inferred ''ev'') = ''ev''" by (simp add: record_inferred_def)
  have bounds: "\<forall>(pos, e) \<in> set tail_backfill. above (map_option (sort_key block_position_ops) None) (sort_key block_position_ops pos) \<and>
      sort_key block_position_ops pos \<le> 5" by (simp add: tail_backfill_def above_def)
  have tip: "(5 :: u64) < max_val" by (simp add: max_val_def)
  from archive_holds_chain [OF mem_sqlite.sql_archive_axioms blank_archive_sound tail_record block_ops_simps(1) tip bounds
      run [unfolded sqlite_env_def sqlite_world_def] healthy]
  obtain written ps where w: "written @ [(8, [demo_row ''e''])] = [(3, [demo_row ''a'']), (6, [demo_row ''d'']), (8, [demo_row ''e''])]"
    and ps: "map (sort_key block_position_ops) ps = map fst written"
    and c: "\<forall>t. arc_contents (disk (pool (w_store w'))) t = arc_contents (disk (pool blank_archive)) t @
      (if t = ''ev'' then archived written else [])"
    and m: "arc_mark block_position_ops (disk (pool (w_store w'))) ''ev'' =
      advance_all block_position_ops (arc_mark block_position_ops (disk (pool blank_archive)) ''ev'') ps"
    unfolding table pend tail_chain by blast
  from w have w: "written = [(3, [demo_row ''a'']), (6, [demo_row ''d''])]" by (auto simp: append_eq_Cons_conv)
  with block_keys [OF ps] have "ps = [BlockPosition 3, BlockPosition 6]" by simp
  with c m w run show ?thesis
    by (simp add: archived_def arc_contents_def arc_mark_def blank_archive_def sql_store_new_def demo_row_def)
qed

end
