(* ===== verification/Archive_Runs.thy ===== *)
theory Archive_Runs
  imports Pipeline_Properties Persisted_Properties
begin

text \<open>
  A bounded indexer over its whole life: subscriptions to a fixed history, one after the other, some
  of which fail or are killed halfway, over an archive that is reopened in between.
\<close>

section \<open>Groups of an ordered run\<close>

text \<open>The first groups of an ordered run are its rows up to the key of the last of them.\<close>

abbreviation ungrouped :: "(u64 \<times> row list) list \<Rightarrow> (u64 \<times> row) list" where
  "ungrouped gs \<equiv> concat (map (\<lambda>(k, rs). map (Pair k) rs) gs)"

lemma ungrouped_keys: "kr \<in> set (ungrouped gs) \<Longrightarrow> fst kr \<in> set (map fst gs)"
  by force

lemma first_groups:
  assumes "prefix gs (groups krs)" "sorted (map fst krs)" "gs \<noteq> []"
  shows "ungrouped gs = filter (\<lambda>kr. fst kr \<le> fst (last gs)) krs"
proof -
  from assms(1) obtain hs where hs: "groups krs = gs @ hs" by (auto simp: prefix_def)
  then have krs: "krs = ungrouped gs @ ungrouped hs" using groups_concat [of krs] by simp
  from groups_sorted [OF assms(2)] hs have ord: "sorted_wrt (<) (map fst gs @ map fst hs)" by simp
  have "\<forall>k \<in> set (map fst gs). k \<le> fst (last gs)"
  proof -
    have "gs = butlast gs @ [last gs]" using assms(3) by simp
    then have "map fst gs = map fst (butlast gs) @ [fst (last gs)]" by (metis list.simps(8,9) map_append)
    with ord show ?thesis by (fastforce simp: sorted_wrt_append)
  qed
  moreover have "\<forall>k \<in> set (map fst hs). fst (last gs) < k" using ord assms(3) by (simp add: sorted_wrt_append)
  ultimately have "\<forall>kr \<in> set (ungrouped gs). fst kr \<le> fst (last gs)" "\<forall>kr \<in> set (ungrouped hs). \<not> fst kr \<le> fst (last gs)"
    using ungrouped_keys by (blast, fastforce dest: ungrouped_keys)
  then have "filter (\<lambda>kr. fst kr \<le> fst (last gs)) (ungrouped gs) = ungrouped gs"
    "filter (\<lambda>kr. fst kr \<le> fst (last gs)) (ungrouped hs) = []"
    unfolding filter_id_conv filter_empty_conv by simp_all
  then show ?thesis by (subst krs) simp
qed

lemma archived_ungrouped: "archived gs = map (\<lambda>(k, r). (int (unat k), text_of (last r))) (ungrouped gs)"
  by (induction gs) (auto simp: archived_def)

section \<open>Events as the archive holds them\<close>

definition event_text :: "'e serde \<Rightarrow> 'e \<Rightarrow> string" where
  "event_text sd e = (case to_value sd e of Some j \<Rightarrow> json_text sd j | None \<Rightarrow> [])"

definition event_cell :: "'p position_ops \<Rightarrow> 'e serde \<Rightarrow> 'p \<times> 'e \<Rightarrow> stored_row" where
  "event_cell P sd pe = (int (unat (sort_key P (fst pe))), event_text sd (snd pe))"

lemma record_encode_text: "record_encode sd rc e = (Ok r, rc') \<Longrightarrow> text_of (last r) = event_text sd e"
  by (erule record_encode_Ok) (simp add: event_text_def)

definition row_of_event :: "'p position_ops \<Rightarrow> 'e serde \<Rightarrow> 'p \<times> 'e \<Rightarrow> u64 \<times> row \<Rightarrow> bool" where
  "row_of_event P sd pe kr \<longleftrightarrow> fst kr = sort_key P (fst pe) \<and> (snd kr \<noteq> [] \<longrightarrow> text_of (last (snd kr)) = event_text sd (snd pe))"

lemma keyed_rows_of_events: "list_all2 (row_of_event P sd) pes (keyed_rows P sd rc pes)"
proof (induction pes arbitrary: rc)
  case (Cons pe pes)
  obtain x rc' where enc: "record_encode sd rc (snd pe) = (x, rc')" by fastforce
  with Cons [of rc'] record_encode_text [of sd rc "snd pe" _ rc'] show ?case
    by (cases x) (simp_all add: keyed_rows_def row_of_event_def)
qed (simp add: keyed_rows_def)

lemma cells_of_events:
  assumes "list_all2 (row_of_event P sd) pes krs" "\<forall>kr \<in> set krs. fst kr \<le> k \<longrightarrow> snd kr \<noteq> []"
  shows "map (\<lambda>(k, r). (int (unat k), text_of (last r))) (filter (\<lambda>kr. fst kr \<le> k) krs) =
    map (event_cell P sd) (filter (\<lambda>pe. sort_key P (fst pe) \<le> k) pes)"
  using assms by (induction rule: list_all2_induct) (auto simp: row_of_event_def event_cell_def)

text \<open>What a log that is a prefix of the groups of some ordered events leaves in the archive.\<close>

lemma archived_events:
  assumes "prefix gs (groups (keyed_rows P sd rc pes))" "sorted (map (\<lambda>pe. sort_key P (fst pe)) pes)" "gs \<noteq> []"
    and "\<And>k rows r. (k, rows) \<in> set gs \<Longrightarrow> r \<in> set rows \<Longrightarrow> r \<noteq> []"
  shows "archived gs = map (event_cell P sd) (filter (\<lambda>pe. sort_key P (fst pe) \<le> fst (last gs)) pes)"
proof -
  let ?krs = "keyed_rows P sd rc pes" and ?k = "fst (last gs)"
  have first: "ungrouped gs = filter (\<lambda>kr. fst kr \<le> ?k) ?krs"
    by (rule first_groups [OF assms(1) _ assms(3)]) (use assms(2) in \<open>simp add: keyed_rows_keys\<close>)
  have "snd kr \<noteq> []" if "kr \<in> set ?krs" "fst kr \<le> ?k" for kr
  proof -
    from that first have "kr \<in> set (ungrouped gs)" by simp
    then show ?thesis using assms(4) by force
  qed
  then have "\<forall>kr \<in> set ?krs. fst kr \<le> ?k \<longrightarrow> snd kr \<noteq> []" by blast
  from cells_of_events [OF keyed_rows_of_events this] show ?thesis by (simp only: archived_ungrouped first)
qed

section \<open>The life of an indexer\<close>

text \<open>
  One subscription in bounded mode, over a source that serves the history up to its tip; it runs to
  its end, or the process is killed after some events. (A subscription that fails writes nothing.)
\<close>

definition bounded_session :: "'p position_ops \<Rightarrow> ('p, 'e, 'c) source \<Rightarrow> ('p \<times> 'e) list \<Rightarrow> persisted \<Rightarrow> string \<Rightarrow> u64 \<Rightarrow> bool" where
  "bounded_session P src history cfg t start \<longleftrightarrow>
     (\<exists>tip. (\<forall>c p. fst (source_tip src c) = Ok p \<longrightarrow> p = tip) \<and>
        serves P src (filter (\<lambda>pe. sort_key P (fst pe) \<le> sort_key P tip) history) \<and>
        effective_tip cfg (sort_key P tip) < max_val) \<and>
     p_to_block cfg \<noteq> None \<and> 0 < p_chunk cfg \<and> p_start_block cfg = start \<and>
     (\<forall>rc. resolve_record (p_schema cfg) (p_table cfg) = Ok rc \<longrightarrow> rec_table rc = t)"

inductive session ::
  "'p position_ops \<Rightarrow> 'e serde \<Rightarrow> ('p, 's) store_ops \<Rightarrow> ('p, 'e, 'c) source set \<Rightarrow> ('p \<times> 'e) list \<Rightarrow> string \<Rightarrow> u64 \<Rightarrow> 's \<Rightarrow> 's \<Rightarrow> bool"
  for P sd S srcs history t start where
  finished: "session P sd S srcs history t start s s'"
    if "src \<in> srcs" "bounded_session P src history cfg t start"
      "subscribe P sd S src cfg replayed s c = (Ok seg, c1)"
      "consume P sd S cfg replayed seg s c2 = Some (out, flag, s', c3)"
| killed: "session P sd S srcs history t start s (w_store w)"
    if "src \<in> srcs" "bounded_session P src history cfg t start"
      "subscribe P sd S src cfg replayed s c = (Ok seg, c1)"
      "seg_backfill seg c2 = Some (ys, poison, c3)"
      "pe_backfill \<lparr>env_pos = P, env_serde = sd, env_store = S\<rparr> (seg_cut seg) (take n ys) (bw_new (seg_seed seg))
         (cw_new P (p_depth cfg) (window_seed P (seg_cut seg) (seg_seed seg))) \<lparr>w_store = s, w_record = seg_record seg\<rparr>
       = (out, bw, win, w)"

inductive lifetime ::
  "'p position_ops \<Rightarrow> 'e serde \<Rightarrow> ('p, 's) store_ops \<Rightarrow> ('s \<Rightarrow> 's) \<Rightarrow> ('p, 'e, 'c) source set \<Rightarrow> ('p \<times> 'e) list \<Rightarrow> string \<Rightarrow> u64 \<Rightarrow> 's \<Rightarrow> 's \<Rightarrow> bool"
  for P sd S reopen srcs history t start s0 where
  created: "lifetime P sd S reopen srcs history t start s0 s0"
| indexed: "lifetime P sd S reopen srcs history t start s0 s'"
    if "lifetime P sd S reopen srcs history t start s0 s" "session P sd S srcs history t start s s'"
| reopened: "lifetime P sd S reopen srcs history t start s0 (reopen s)"
    if "lifetime P sd S reopen srcs history t start s0 s"

section \<open>What a session asks for and writes\<close>

lemma resolve_record_ok: "resolve_record schema table = Ok rc \<Longrightarrow> record_ok rc"
  by (auto simp: resolve_record_def record_inferred_ok split: option.splits sum.splits intro: record_declared_ok)

lemma span_filter: "span P (filter (\<lambda>pe. sort_key P (fst pe) \<le> k) history) lo hi = span P history lo (min hi (unat k + 1))"
  by (auto simp: span_def word_le_nat_alt intro!: filter_cong)

text \<open>Where a bounded session starts, and the events its backfill yields.\<close>

lemma session_backfill:
  assumes "bounded_session P src history cfg t start" "subscribe P sd S src cfg replayed s c = (Ok seg, c1)"
  obtains ys poison c3 hi etip where "seg_backfill seg cc = Some (ys, poison, c3)"
    "ys = span P history (unat (max (case seg_seed seg of Some l \<Rightarrow> resume_key P l | None \<Rightarrow> 0) start)) hi"
    "hi \<le> unat (max_val :: u64)" "seg_cut seg = Some etip" "\<forall>pe \<in> set ys. sort_key P (fst pe) \<le> etip"
    "stored_position S t s = Ok (seg_seed seg)" "record_ok (seg_record seg)" "rec_table (seg_record seg) = t" "seg_live seg = []"
    "\<not> poison \<Longrightarrow> ys = between P history (max (case seg_seed seg of Some l \<Rightarrow> resume_key P l | None \<Rightarrow> 0) start) etip" "etip < max_val"
  using assms(2)
proof (cases rule: subscribe_OkE)
  case (1 rec items c1' tip c2' stored events marks bf)
  let ?etip = "effective_tip cfg (sort_key P tip)" and ?from = "backfill_from P cfg stored"
  from assms(1) 1(3) have src: "serves P src (filter (\<lambda>pe. sort_key P (fst pe) \<le> sort_key P tip) history)"
    and etip: "?etip < max_val" and cfg: "p_to_block cfg \<noteq> None" "0 < p_chunk cfg" "p_start_block cfg = start"
    and table: "rec_table rec = t"
    using 1(1) unfolding bounded_session_def by (metis fst_conv)+
  from backfill_segment_serves [OF src etip cfg(2) 1(6), of cc] obtain ys poison c3 hi where
    bf: "bf cc = Some (ys, poison, c3)" and ys: "ys = span P (filter (\<lambda>pe. sort_key P (fst pe) \<le> sort_key P tip) history) (unat ?from) hi"
    and hi: "hi \<le> unat ?etip + 1 \<or> hi = unat ?from"
    and full: "\<not> poison \<longrightarrow> ys = between P (filter (\<lambda>pe. sort_key P (fst pe) \<le> sort_key P tip) history) ?from ?etip" by blast
  have "?etip \<le> sort_key P tip" by (simp add: effective_tip_def split: option.split)
  then have "between P (filter (\<lambda>pe. sort_key P (fst pe) \<le> sort_key P tip) history) ?from ?etip = between P history ?from ?etip"
    by (auto simp: between_def intro!: filter_cong)
  note full = full [unfolded this]
  have below: "unat ?etip + 1 \<le> unat (max_val :: u64)" using etip by (simp add: word_less_nat_alt)
  have "unat ?from \<le> unat (max_val :: u64)" using unat_le_max [of ?from] by (simp add: unat_max_val)
  with hi below have "min hi (unat (sort_key P tip) + 1) \<le> unat (max_val :: u64)" by auto
  moreover have "\<forall>pe \<in> set ys. sort_key P (fst pe) \<le> ?etip"
    using hi by (auto simp: ys span_def word_le_nat_alt)
  ultimately show thesis
    using that [of ys poison c3 "min hi (unat (sort_key P tip) + 1)" ?etip] bf ys 1 cfg table resolve_record_ok [OF 1(1)] full etip
    by (auto simp: span_filter backfill_from_def final_cut_def)
qed

text \<open>What a halfway writer has logged are complete groups of everything it would be given.\<close>

lemma tracks_prefix: "bw_tracks P bw log krs \<Longrightarrow> prefix (log_groups P log) (groups (krs @ lrs))"
proof -
  assume t: "bw_tracks P bw log krs"
  have "prefix (log_groups P log) (butlast (groups krs))"
  proof (cases "core_healthy (bw_core bw)")
    case True
    with t have "log_groups P log @ bw_open P bw = groups krs" "bw_current bw = None \<longrightarrow> krs = []" by (simp_all add: bw_tracks_def)
    then show ?thesis by (cases "bw_current bw") (auto simp: bw_open_def dest!: sym [of _ "groups krs"])
  qed (use t in \<open>simp add: bw_tracks_def\<close>)
  moreover obtain u where "groups (krs @ lrs) = butlast (groups krs) @ u" using groups_closed_prefix by blast
  ultimately show ?thesis by (simp add: prefix_prefix)
qed

text \<open>The log of a session: groups of its backfill; and what every write of its rows keeps, holds after it.\<close>

lemma session_log:
  assumes order: "position_order P" and halt: "reobservation P = Halt"
    and "session P sd S srcs history t start s s'"
    and "kept (logging S) t Q" "Q (s, [])"
  obtains m rc ys hi log where "stored_position S t s = Ok m" "Q (s', log)"
    "ys = span P history (unat (max (case m of Some l \<Rightarrow> resume_key P l | None \<Rightarrow> 0) start)) hi" "hi \<le> unat (max_val :: u64)"
    "prefix (log_groups P log) (groups (keyed_rows P sd rc ys))"
  using assms(3)
proof cases
  case (finished src cfg replayed c seg c1 c2 out flag c3)
  from finished(2,3) obtain ys poison c4 hi etip where seg: "seg_backfill seg c2 = Some (ys, poison, c4)"
    "ys = span P history (unat (max (case seg_seed seg of Some l \<Rightarrow> resume_key P l | None \<Rightarrow> 0) start)) hi"
    "hi \<le> unat (max_val :: u64)" "seg_cut seg = Some etip" "\<forall>pe \<in> set ys. sort_key P (fst pe) \<le> etip"
    "stored_position S t s = Ok (seg_seed seg)" "record_ok (seg_record seg)" "rec_table (seg_record seg) = t" "seg_live seg = []"
    by (rule session_backfill [where cc = c2])
  obtain out1 settled win w where run: "persist_and_emit (plain_env P sd S) ys [] (p_depth cfg) (Some etip) (seg_seed seg)
      \<lparr>w_store = s, w_record = seg_record seg\<rparr> = (out1, settled, win, w)" by (metis surj_pair)
  with finished(4) seg(1,4,9) have s': "s' = w_store w" by (simp add: consume_def cong: if_cong)
  from run obtain w2 where log: "persist_and_emit (logged_env P sd S) ys [] (p_depth cfg) (Some etip) (seg_seed seg)
      \<lparr>w_store = (s, []), w_record = seg_record seg\<rparr> = (out1, settled, win, w2)" and w: "w = bare w2"
    by (rule persist_and_emit_logged)
  have "\<forall>(p, e) \<in> set ys. sort_key P p \<le> etip" using seg(5) by auto
  then have "prefix (log_groups P (snd (w_store w2))) (groups (keyed_rows P sd (seg_record seg) ys))"
    using pe_bounded [where env = "logged_env P sd S" and w = "\<lparr>w_store = (s, []), w_record = seg_record seg\<rparr>" and backfill = ys
        and S = S and s = s and snapshot = etip and seed = "seg_seed seg" and depth = "p_depth cfg" and w' = w2
        and out = out1 and settled = settled and win = win] order halt log by simp
  moreover from persist_and_emit_keeps [OF log, of Q] assms(4,5) seg(7,8) have "Q (w_store w2)" by simp
  ultimately show thesis using that [OF seg(6) _ seg(2,3), of "snd (w_store w2)" "seg_record seg"] s' w by simp
next
  case (killed src cfg replayed c seg c1 c2 ys poison c3 n out bw win w)
  from killed(3,4) obtain ys' poison' c4 hi etip where seg: "seg_backfill seg c2 = Some (ys', poison', c4)"
    "ys' = span P history (unat (max (case seg_seed seg of Some l \<Rightarrow> resume_key P l | None \<Rightarrow> 0) start)) hi"
    "hi \<le> unat (max_val :: u64)" "seg_cut seg = Some etip" "\<forall>pe \<in> set ys'. sort_key P (fst pe) \<le> etip"
    "stored_position S t s = Ok (seg_seed seg)" "record_ok (seg_record seg)" "rec_table (seg_record seg) = t" "seg_live seg = []"
    by (rule session_backfill [where cc = c2])
  with killed(5) have ys: "ys' = ys" by simp
  let ?w = "\<lparr>w_store = (s, [] :: 'a write_log), w_record = seg_record seg\<rparr>" and ?win = "cw_new P (p_depth cfg) (window_seed P (seg_cut seg) (seg_seed seg))"
  obtain out1 bw1 win1 w2 where log: "pe_backfill (logged_env P sd S) (seg_cut seg) (take n ys) (bw_new (seg_seed seg)) ?win ?w
      = (out1, bw1, win1, w2)" by (metis surj_pair)
  have "pe_backfill (plain_env P sd S) (seg_cut seg) (take n ys) (bw_new (seg_seed seg)) ?win (bare ?w) = (out, bw, win, w)"
    using killed(6) by (simp add: bare_def)
  then have w: "w = bare w2" unfolding pe_backfill_bare log by simp
  have "\<forall>(p, e) \<in> set (take n ys). settles (seg_cut seg) (sort_key P p)"
    using seg(5) by (auto simp: ys seg(4) settles_def dest!: in_set_takeD)
  with pe_backfill_settled [OF _ _ log] halt obtain ds where run: "bw_run (logged_env P sd S) (bw_new (seg_seed seg)) ?w (take n ys) = (ds, bw1, w2)"
    by auto
  have "bw_tracks P (bw_new (seg_seed seg)) (snd (w_store ?w)) []" by (simp add: bw_tracks_new)
  from position_order.bw_run_tracks [OF order this halt, of "logged_env P sd S" S, of "take n ys" ds bw1 w2 "seg_record seg"] run
  have "bw_tracks P bw1 (snd (w_store w2)) (keyed_rows P sd (seg_record seg) (take n ys))" by (simp add: keyed_rows_def)
  from tracks_prefix [OF this] have "prefix (log_groups P (snd (w_store w2))) (groups (keyed_rows P sd (seg_record seg) ys))"
    using keyed_rows_append [of P sd "seg_record seg" "take n ys" "drop n ys"] by (metis append_take_drop_id)
  moreover from backfill_keeps [OF log, of Q] assms(4,5) seg(7,8) have "Q (w_store w2)" by (simp add: moves_def)
  ultimately show thesis using that [OF seg(6) _ seg(2,3), of "snd (w_store w2)" "seg_record seg"] killed(1) w ys by simp
qed

section \<open>A session keeps the archive gap-free\<close>

text \<open>The part of a history that a resume point speaks for, and an archive that holds exactly that.\<close>

definition stored_history :: "'p position_ops \<Rightarrow> ('p \<times> 'e) list \<Rightarrow> u64 \<Rightarrow> 'p option \<Rightarrow> ('p \<times> 'e) list" where
  "stored_history P history start m = (case m of None \<Rightarrow> [] | Some p \<Rightarrow> between P history start (sort_key P p))"

definition gap_free :: "'p position_ops \<Rightarrow> 'e serde \<Rightarrow> ('p \<times> 'e) list \<Rightarrow> u64 \<Rightarrow> stored_row list \<Rightarrow> 'p option \<Rightarrow> bool" where
  "gap_free P sd history start cells m \<longleftrightarrow> cells = map (event_cell P sd) (stored_history P history start m)"

text \<open>Positions whose resume key is the next key, as for blocks.\<close>

definition resumes_next :: "'p position_ops \<Rightarrow> bool" where
  "resumes_next P \<longleftrightarrow> (\<forall>p. resume_key P p = sat_add (sort_key P p) 1)"

context position_order begin

lemma advance_all_at_most:
  "\<forall>p \<in> set ps. sort_key P p \<le> k \<Longrightarrow> \<forall>x \<in> set_option w. sort_key P x \<le> k \<Longrightarrow>
     \<forall>x \<in> set_option (advance_all P w ps). sort_key P x \<le> k"
proof (induction ps arbitrary: w)
  case (Cons p ps)
  then have "sort_key P (advance P w p) \<le> k" by (cases w) (simp_all add: advance_key)
  with Cons.IH [of "Some (advance P w p)"] Cons.prems show ?case by simp
qed simp

lemma advance_all_top:
  assumes "ps \<noteq> []" "\<forall>p \<in> set ps. sort_key P p \<le> sort_key P (last ps)" "\<forall>x \<in> set_option w. sort_key P x \<le> sort_key P (last ps)"
  shows "\<exists>v. advance_all P w ps = Some v \<and> sort_key P v = sort_key P (last ps)"
proof -
  have ps: "ps = butlast ps @ [last ps]" using assms(1) by simp
  have below: "\<forall>x \<in> set_option (advance_all P w (butlast ps)). sort_key P x \<le> sort_key P (last ps)"
    by (rule advance_all_at_most) (use assms(2,3) in \<open>auto dest: in_set_butlastD\<close>)
  have "advance_all P w ps = Some (advance P (advance_all P w (butlast ps)) (last ps))"
    by (subst ps) (simp add: advance_all_append)
  moreover have "sort_key P (advance P (advance_all P w (butlast ps)) (last ps)) = sort_key P (last ps)"
    using below by (cases "advance_all P w (butlast ps)") (simp_all add: advance_key max_def)
  ultimately show ?thesis by blast
qed

text \<open>From a resume point on, the next events up to a key complete the stored ones up to that key.\<close>

lemma stored_history_extends:
  assumes sorted: "sorted (map (\<lambda>pe. sort_key P (fst pe)) history)" and next_key: "resumes_next P"
    and k: "max (case m of Some l \<Rightarrow> resume_key P l | None \<Rightarrow> 0) start \<le> k" "k < max_val"
  shows "stored_history P history start m @ between P history (max (case m of Some l \<Rightarrow> resume_key P l | None \<Rightarrow> 0) start) k =
    between P history start k"
proof (cases m)
  case None
  then show ?thesis by (simp add: stored_history_def max_def)
next
  case (Some l)
  let ?l = "sort_key P l"
  have res: "resume_key P l = sat_add ?l 1" using next_key by (simp add: resumes_next_def)
  have "sat_add ?l 1 < max_val" using k Some res by auto
  then have n: "unat (sat_add ?l 1) = unat ?l + 1" by (auto simp: unat_sat_add word_less_nat_alt unat_max_val min_def split: if_splits)
  with k(1) Some res have lk: "unat ?l + 1 \<le> unat k" "unat start \<le> unat k"
    by (auto simp: max_def word_le_nat_alt split: if_splits)
  show ?thesis
  proof (cases "unat start \<le> unat ?l + 1")
    case True
    then have "unat (max (sat_add ?l 1) start) = unat ?l + 1" using n by (simp add: max_def word_le_nat_alt)
    with span_append [OF sorted True, of "unat k + 1"] lk Some res show ?thesis
      by (simp add: stored_history_def between_span)
  next
    case False
    then have "max (sat_add ?l 1) start = start" using n by (simp add: max_def word_le_nat_alt)
    with False Some res show ?thesis by (simp add: stored_history_def between_span span_empty)
  qed
qed

end

lemma gap_free_writes:
  assumes order: "position_order P" and sorted: "sorted (map (\<lambda>pe. sort_key P (fst pe)) history)" and next_key: "resumes_next P"
    and made: "made_log t log" and gaps: "gap_free P sd history start cells m"
    and ys: "ys = span P history (unat (max (case m of Some l \<Rightarrow> resume_key P l | None \<Rightarrow> 0) start)) hi" "hi \<le> unat (max_val :: u64)"
    and pre: "prefix (log_groups P log) (groups (keyed_rows P sd rc ys))"
  shows "gap_free P sd history start (cells @ log_rows P t log) (advance_all P m (log_positions t log))"
proof (cases "log = []")
  case True
  with gaps show ?thesis by (simp add: log_rows_def log_positions_def)
next
  case False
  let ?gs = "log_groups P log" and ?ps = "log_positions t log"
  let ?from = "max (case m of Some l \<Rightarrow> resume_key P l | None \<Rightarrow> 0) start" and ?k = "fst (last (log_groups P log))"
  have gs: "?gs \<noteq> []" using False by (simp add: log_groups_def)
  have keys: "map (sort_key P) ?ps = map fst ?gs" by (rule made_log_positions [OF made])
  then have ps: "?ps \<noteq> []" and top: "sort_key P (last ?ps) = ?k" using gs by (metis list.map_disc_iff, metis last_map list.map_disc_iff)
  have ys_sorted: "sorted (map (\<lambda>pe. sort_key P (fst pe)) ys)" unfolding ys(1) span_def by (rule sorted_filter [OF sorted])
  have ord: "sorted_wrt (<) (map fst ?gs)"
    using pre groups_sorted [of "keyed_rows P sd rc ys"] ys_sorted by (auto simp: prefix_def sorted_wrt_append keyed_rows_keys)
  have at_most: "x \<le> ?k" if "x \<in> set (map fst ?gs)" for x
  proof -
    have "map fst ?gs = map fst (butlast ?gs) @ [?k]" using gs by (metis append_butlast_last_id list.simps(8,9) map_append)
    with that ord show ?thesis by (fastforce simp: sorted_wrt_append)
  qed
  have "?k \<in> fst ` set (keyed_rows P sd rc ys)"
    using pre gs groups_keys [of "keyed_rows P sd rc ys"] by (force simp: prefix_def)
  then obtain pe where pe: "pe \<in> set ys" "sort_key P (fst pe) = ?k"
    unfolding keyed_rows_def by (auto dest!: set_zip_leftD)
  with ys have k: "?from \<le> ?k" "unat ?k < hi" "?k < max_val" by (auto simp: span_def word_le_nat_alt word_less_nat_alt)
  have old: "\<forall>x \<in> set_option m. sort_key P x \<le> sort_key P (last ?ps)"
    using k(1) position_order.resume_at_or_above [OF order] by (fastforce simp: top intro: order_trans)
  have "\<forall>p \<in> set ?ps. sort_key P p \<le> sort_key P (last ?ps)"
    using at_most keys unfolding top by (metis image_eqI image_set)
  from position_order.advance_all_top [OF order ps this old] obtain v where
    v: "advance_all P m ?ps = Some v" "sort_key P v = ?k" using top by auto
  have "log_rows P t log = map (event_cell P sd) (filter (\<lambda>pe. sort_key P (fst pe) \<le> ?k) ys)"
    using made_log_rows [OF made, of P t] archived_events [OF pre ys_sorted gs made_log_groups [OF made]] by simp
  moreover have "filter (\<lambda>pe. sort_key P (fst pe) \<le> ?k) ys = between P history ?from ?k"
    using k(2) by (auto simp: ys(1) span_def between_def word_le_nat_alt intro!: filter_cong)
  ultimately show ?thesis
    using gaps position_order.stored_history_extends [OF order sorted next_key k(1,3)] v
    by (simp add: gap_free_def stored_history_def flip: map_append)
qed

context store_contract begin

lemma session_gap_free:
  assumes "position_order P" "reobservation P = Halt" "resumes_next P" "sorted (map (\<lambda>pe. sort_key P (fst pe)) history)"
    and "session P sd S srcs history t start s s'"
    and "ok_state s" "gap_free P sd history start (contents s t) (mark s t)"
  shows "ok_state s' \<and> gap_free P sd history start (contents s' t) (mark s' t)"
proof -
  from agrees_start [OF assms(6)] have "agrees s (s, []) \<and> made_log t (snd (s, []))" by simp
  from session_log [OF assms(1,2,5) kept_agrees this] obtain m rc ys hi log where
    pos: "stored_position S t s = Ok m" and log: "agrees s (s', log) \<and> made_log t (snd (s', log))"
    and ys: "ys = span P history (unat (max (case m of Some l \<Rightarrow> resume_key P l | None \<Rightarrow> 0) start)) hi" "hi \<le> unat (max_val :: u64)"
    and pre: "prefix (log_groups P log) (groups (keyed_rows P sd rc ys))" .
  from position_read [OF assms(6) pos] have m: "m = mark s t" .
  from log have made: "made_log t log" by simp
  from gap_free_writes [OF assms(1,4,3) made assms(7) ys [unfolded m] pre] log show ?thesis by (simp add: agrees_def)
qed

lemma lifetime_gap_free:
  assumes "lifetime P sd S reopen srcs history t start s0 s"
    and "position_order P" "reobservation P = Halt" "resumes_next P" "sorted (map (\<lambda>pe. sort_key P (fst pe)) history)"
    and reopen: "\<And>s. ok_state s \<Longrightarrow> ok_state (reopen s) \<and> contents (reopen s) t = contents s t \<and> mark (reopen s) t = mark s t"
    and "ok_state s0" "gap_free P sd history start (contents s0 t) (mark s0 t)"
  shows "ok_state s \<and> gap_free P sd history start (contents s t) (mark s t)"
  using assms(1)
proof (induction rule: lifetime.induct)
  case created
  with assms(7,8) show ?case by simp
next
  case (indexed s s')
  with session_gap_free [OF assms(2-5)] show ?case by blast
next
  case (reopened s)
  with reopen [of s] show ?case by simp
qed

end

section \<open>A run that meets no failure\<close>

lemma archived_groups_of_events:
  assumes "\<And>k rows r. (k, rows) \<in> set (groups (keyed_rows P sd rc pes)) \<Longrightarrow> r \<in> set rows \<Longrightarrow> r \<noteq> []"
  shows "archived (groups (keyed_rows P sd rc pes)) = map (event_cell P sd) pes"
proof -
  have "snd kr \<noteq> []" if "kr \<in> set (keyed_rows P sd rc pes)" for kr
  proof -
    from that have "kr \<in> set (ungrouped (groups (keyed_rows P sd rc pes)))" by (simp only: groups_concat)
    then show ?thesis using assms by force
  qed
  then have "\<forall>kr \<in> set (keyed_rows P sd rc pes). fst kr \<le> max_val \<longrightarrow> snd kr \<noteq> []" by blast
  moreover have "k \<le> max_val" for k :: u64 by (simp add: max_val_def)
  ultimately show ?thesis
    using cells_of_events [OF keyed_rows_of_events, of P sd rc pes max_val] by (simp add: archived_ungrouped groups_concat)
qed

text \<open>The events stored up to a key, whatever the resume point was.\<close>

lemma stored_up_to:
  assumes order: "position_order P" and sorted: "sorted (map (\<lambda>pe. sort_key P (fst pe)) history)" and next_key: "resumes_next P"
    and bound: "bound < max_val"
  shows "filter (\<lambda>pe. sort_key P (fst pe) \<le> bound) (stored_history P history start m @
      between P history (max (case m of Some l \<Rightarrow> resume_key P l | None \<Rightarrow> 0) start) bound) = between P history start bound"
proof (cases "max (case m of Some l \<Rightarrow> resume_key P l | None \<Rightarrow> 0) start \<le> bound")
  case True
  from position_order.stored_history_extends [OF order sorted next_key True bound] show ?thesis
    by (simp only:) (auto simp: between_def intro!: filter_cong)
next
  case False
  let ?from = "max (case m of Some l \<Rightarrow> resume_key P l | None \<Rightarrow> 0) start"
  have none: "between P history ?from bound = []" using False by (auto simp: between_def filter_empty_conv)
  show ?thesis
  proof (cases m)
    case None
    with False none show ?thesis by (auto simp: stored_history_def between_def filter_empty_conv)
  next
    case (Some l)
    have "bound < start \<or> bound \<le> sort_key P l"
      using False Some next_key
      by (auto simp: resumes_next_def max_def word_le_nat_alt word_less_nat_alt unat_sat_add split: if_splits)
    with none Some show ?thesis by (auto simp: stored_history_def between_def intro!: filter_cong)
  qed
qed

context store_contract begin

lemma clean_run_fills:
  assumes "position_order P" "reobservation P = Halt" "resumes_next P" "sorted (map (\<lambda>pe. sort_key P (fst pe)) history)"
    and "bounded_session P src history cfg t start" "subscribe P sd S src cfg replayed s c = (Ok seg, c1)"
    and "seg_backfill seg c2 = Some (ys, False, c3)" "seg_cut seg = Some bound"
    and "persist_and_emit (plain_env P sd S) ys [] depth (Some bound) (seg_seed seg)
        \<lparr>w_store = s, w_record = seg_record seg\<rparr> = (out, settled, win, w)"
    and "core_healthy (bw_core settled)"
    and "ok_state s" "gap_free P sd history start (contents s t) (mark s t)"
  shows "out = map snd ys \<and>
    filter (\<lambda>kv. fst kv \<le> int (unat bound)) (contents (w_store w) t) = map (event_cell P sd) (between P history start bound)"
proof -
  from assms(5,6) obtain poison c4 where seg: "seg_backfill seg c2 = Some (ys, poison, c4)"
    "\<forall>pe \<in> set ys. sort_key P (fst pe) \<le> bound" "stored_position S t s = Ok (seg_seed seg)"
    "record_ok (seg_record seg)" "rec_table (seg_record seg) = t"
    "ys = between P history (max (case seg_seed seg of Some l \<Rightarrow> resume_key P l | None \<Rightarrow> 0) start) bound" "bound < max_val"
    by (rule session_backfill [where cc = c2]) (use assms(7,8) in auto)
  from assms(9) obtain w2 where log: "persist_and_emit (logged_env P sd S) ys [] depth (Some bound) (seg_seed seg)
      \<lparr>w_store = (s, []), w_record = seg_record seg\<rparr> = (out, settled, win, w2)" and w: "w = bare w2"
    by (rule persist_and_emit_logged)
  have "\<forall>(p, e) \<in> set ys. sort_key P p \<le> bound" using seg(2) by auto
  then have all: "out = map snd ys" "log_groups P (snd (w_store w2)) = groups (keyed_rows P sd (seg_record seg) ys)"
    using pe_bounded [where env = "logged_env P sd S" and w = "\<lparr>w_store = (s, []), w_record = seg_record seg\<rparr>" and backfill = ys
        and S = S and s = s and snapshot = bound and seed = "seg_seed seg" and depth = depth and w' = w2
        and out = out and settled = settled and win = win] assms(1,2,10) log by simp_all
  from pipeline_archives [OF log seg(4) assms(11)] seg(5)
  have agrees: "agrees s (w_store w2)" and made: "made_log t (snd (w_store w2))" by simp_all
  have "archived (groups (keyed_rows P sd (seg_record seg) ys)) = map (event_cell P sd) ys"
    by (rule archived_groups_of_events) (use made_log_groups [OF made, of _ _ P] all(2) in auto)
  then have "contents (w_store w) t = map (event_cell P sd) (stored_history P history start (seg_seed seg) @ ys)"
    using agrees made_log_rows [OF made, of P t] all(2) assms(12) position_read [OF assms(11) seg(3)] w
    by (simp add: agrees_def gap_free_def)
  moreover have "filter (\<lambda>kv. fst kv \<le> int (unat bound)) (map (event_cell P sd) pes) =
      map (event_cell P sd) (filter (\<lambda>pe. sort_key P (fst pe) \<le> bound) pes)" for pes
    by (simp add: filter_map comp_def event_cell_def word_le_def)
  ultimately have "filter (\<lambda>kv. fst kv \<le> int (unat bound)) (contents (w_store w) t) =
      map (event_cell P sd) (filter (\<lambda>pe. sort_key P (fst pe) \<le> bound) (stored_history P history start (seg_seed seg) @ ys))"
    by (simp only:)
  also have "\<dots> = map (event_cell P sd) (between P history start bound)"
    using stored_up_to [OF assms(1,4,3) seg(7), of start "seg_seed seg"] by (simp only: seg(6))
  finally show ?thesis using all(1) by blast
qed

end

end
