(* ===== verification/Collectors.thy ===== *)
theory Collectors
  imports Collector_Ext Persisted
begin

text \<open>
  The subscribe-or-poll downgrade (\<open>src/src/collectors/fallback.rs\<close>) and the block collector with the
  retry queue of its polling path (\<open>src/src/collectors/block_collector.rs\<close>).

  The node behind alloy's provider is a dictionary of operations on a world. A stream is the list
  of the items it delivers; what a stream does while it is consumed is done when it is built.
\<close>

section \<open>Subscribe or poll\<close>

definition subscribe_or_poll :: "('e, 'w) collector \<Rightarrow> ('e, 'w) collector \<Rightarrow> ('e, 'w) collector" where
  "subscribe_or_poll pubsub polling w =
     (case pubsub w of (Ok stream, w') \<Rightarrow> (Ok stream, w') | (Err e, w') \<Rightarrow> polling w')"

section \<open>The block collector\<close>

definition MAX_FETCH_ATTEMPTS :: nat where
  "MAX_FETCH_ATTEMPTS = 3"

record 'h retry_queue =
  rq_max_attempts :: nat
  rq_pending :: "('h \<times> nat) list"

definition rq_new :: "nat \<Rightarrow> 'h retry_queue" where
  "rq_new limit = \<lparr>rq_max_attempts = limit, rq_pending = []\<rparr>"

definition rq_due :: "'h retry_queue \<Rightarrow> 'h list" where
  "rq_due q = map fst (rq_pending q)"

definition rq_resolve :: "'h \<Rightarrow> 'h retry_queue \<Rightarrow> 'h retry_queue" where
  "rq_resolve h q = q\<lparr>rq_pending := filter (\<lambda>(x, k). x \<noteq> h) (rq_pending q)\<rparr>"

definition rq_record_failure :: "'h \<Rightarrow> 'h retry_queue \<Rightarrow> bool \<times> 'h retry_queue" where
  "rq_record_failure h q =
     (let (failures, entries) =
        (case find_index (\<lambda>(x, k). x = h) (rq_pending q) of
           Some i \<Rightarrow> (snd (rq_pending q ! i) + 1, (rq_pending q)[i := (h, snd (rq_pending q ! i) + 1)])
         | None \<Rightarrow> (1, rq_pending q @ [(h, 1)]));
        q = q\<lparr>rq_pending := entries\<rparr>
      in if failures \<ge> rq_max_attempts q then (False, rq_resolve h q) else (True, q))"

record 'h new_block =
  block_hash :: 'h
  block_height :: u64

record ('h, 'w) block_node =
  subscribe_blocks :: "('h new_block, 'w) collector"
  watch_blocks :: "'w \<Rightarrow> (string + 'h list list) \<times> 'w"
  get_block :: "'h \<Rightarrow> 'w \<Rightarrow> (string + 'h new_block option) \<times> 'w"

text \<open>The fetches of one tick; \<open>buffered\<close> keeps their order.\<close>

fun fetch_all :: "('h, 'w) block_node \<Rightarrow> 'h list \<Rightarrow> 'w \<Rightarrow> ('h \<times> (string + 'h new_block option)) list \<times> 'w" where
  "fetch_all N [] w = ([], w)"
| "fetch_all N (h # hs) w =
     (case get_block N h w of (r, w') \<Rightarrow> (case fetch_all N hs w' of (rs, w'') \<Rightarrow> ((h, r) # rs, w'')))"

text \<open>The loop over the results: what is delivered, and the queue after it.\<close>

fun settle :: "'h retry_queue \<Rightarrow> ('h \<times> (string + 'h new_block option)) list \<Rightarrow> 'h new_block list \<times> 'h retry_queue" where
  "settle q [] = ([], q)"
| "settle q ((h, Ok (Some b)) # rs) = (case settle (rq_resolve h q) rs of (out, q') \<Rightarrow> (b # out, q'))"
| "settle q ((h, r) # rs) = settle (snd (rq_record_failure h q)) rs"

text \<open>The loop over the poll ticks, which also gives the results of all fetches in order.\<close>

fun poll_blocks ::
  "('h, 'w) block_node \<Rightarrow> 'h retry_queue \<Rightarrow> 'h list list \<Rightarrow> 'w
     \<Rightarrow> ('h \<times> (string + 'h new_block option)) list \<times> 'h new_block list \<times> 'h retry_queue \<times> 'w" where
  "poll_blocks N q [] w = ([], [], q, w)"
| "poll_blocks N q (batch # batches) w =
     (let to_fetch = rq_due q @ batch;
          (results, w) = fetch_all N to_fetch w;
          (out, q) = settle q results;
          (results', out', q, w) = poll_blocks N q batches w
      in (results @ results', out @ out', q, w))"

definition polling_blocks :: "('h, 'w) block_node \<Rightarrow> ('h new_block, 'w) collector" where
  "polling_blocks N w =
     (case watch_blocks N w of
        (Err e, w') \<Rightarrow> (Err e, w')
      | (Ok batches, w') \<Rightarrow>
          (case poll_blocks N (rq_new MAX_FETCH_ATTEMPTS) batches w' of (results, out, q, w'') \<Rightarrow> (Ok out, w'')))"

definition block_subscribe :: "('h, 'w) block_node \<Rightarrow> ('h new_block, 'w) collector" where
  "block_subscribe N = subscribe_or_poll (subscribe_blocks N) (polling_blocks N)"

section \<open>The retry queue per hash\<close>

definition got :: "string + 'h new_block option \<Rightarrow> bool" where
  "got r = (case r of Ok (Some b) \<Rightarrow> True | _ \<Rightarrow> False)"

definition fetches :: "'h \<Rightarrow> ('h \<times> (string + 'h new_block option)) list \<Rightarrow> bool list" where
  "fetches h results = map (\<lambda>(x, r). got r) (filter (\<lambda>(x, r). x = h) results)"

definition failures_of :: "'h retry_queue \<Rightarrow> 'h \<Rightarrow> nat option" where
  "failures_of q h = map_of (rq_pending q) h"

definition rq_ok :: "'h retry_queue \<Rightarrow> bool" where
  "rq_ok q \<longleftrightarrow> rq_max_attempts q = 3 \<and> distinct (map fst (rq_pending q)) \<and> (\<forall>(h, k) \<in> set (rq_pending q). 1 \<le> k \<and> k < 3)"

text \<open>How many failures a hash has after a fetch of it.\<close>

fun counted_failures :: "nat option \<Rightarrow> bool \<Rightarrow> nat option" where
  "counted_failures s True = None"
| "counted_failures None False = Some 1"
| "counted_failures (Some k) False = (if k + 1 \<ge> 3 then None else Some (k + 1))"

lemma rq_ok_new: "rq_ok (rq_new MAX_FETCH_ATTEMPTS)"
  by (simp add: rq_ok_def rq_new_def MAX_FETCH_ATTEMPTS_def)

lemma rq_ok_range: "rq_ok q \<Longrightarrow> failures_of q h = Some k \<Longrightarrow> 1 \<le> k \<and> k < 3"
  unfolding rq_ok_def failures_of_def by (fastforce dest: map_of_SomeD)

lemma map_of_filter_other: "map_of (filter (\<lambda>(x, k). x \<noteq> h) xs) y = (if y = h then None else map_of xs y)"
  by (induction xs) auto

lemma rq_resolve_ok: "rq_ok q \<Longrightarrow> rq_ok (rq_resolve h q)"
  by (auto simp: rq_ok_def rq_resolve_def intro: distinct_map_filter)

lemma failures_resolve: "failures_of (rq_resolve h q) y = (if y = h then None else failures_of q y)"
  by (simp add: failures_of_def rq_resolve_def map_of_filter_other)

lemma find_key:
  "find_index (\<lambda>(x, k). x = h) xs = Some i \<Longrightarrow> i < length xs \<and> xs ! i = (h, snd (xs ! i)) \<and> map_of xs h = Some (snd (xs ! i))
     \<and> (distinct (map fst xs) \<longrightarrow> map_of (xs[i := (h, v)]) = (map_of xs)(h \<mapsto> v))"
  by (induction xs arbitrary: i) (auto split: if_splits simp: fun_eq_iff)

lemma find_no_key: "find_index (\<lambda>(x, k). x = h) xs = None \<longleftrightarrow> h \<notin> fst ` set xs"
  by (force simp: find_index_None_iff)

lemma rq_record_failure_ok:
  assumes "rq_ok q"
  shows "rq_ok (snd (rq_record_failure h q)) \<and>
    failures_of (snd (rq_record_failure h q)) = (failures_of q)(h := counted_failures (failures_of q h) False)"
proof (cases "find_index (\<lambda>(x, k). x = h) (rq_pending q)")
  case None
  then have new: "h \<notin> fst ` set (rq_pending q)" by (simp add: find_no_key)
  then have none: "map_of (rq_pending q) h = None" by (simp add: map_of_eq_None_iff)
  then have "map_of (rq_pending q @ [(h, 1)]) = (map_of (rq_pending q))(h \<mapsto> 1)"
    by (auto simp: fun_eq_iff map_add_def split: option.splits)
  with none show ?thesis using assms None new
    by (auto simp: rq_record_failure_def rq_ok_def failures_of_def)
next
  case (Some i)
  let ?k = "snd (rq_pending q ! i)" and ?xs = "rq_pending q"
  from find_key [OF Some, of "?k + 1"] assms have i: "i < length ?xs" "?xs ! i = (h, ?k)" "map_of ?xs h = Some ?k"
    and upd: "map_of (?xs[i := (h, ?k + 1)]) = (map_of ?xs)(h \<mapsto> ?k + 1)"
    by (simp_all add: rq_ok_def)
  have keys: "map fst (?xs[i := (h, ?k + 1)]) = map fst ?xs"
    using i by (metis fst_conv list_update_id map_update)
  from nth_mem [OF i(1)] i(2) assms have k: "1 \<le> ?k" "?k < 3" by (auto simp: rq_ok_def)
  have step: "snd (rq_record_failure h q) =
      (if ?k + 1 \<ge> 3 then rq_resolve h (q\<lparr>rq_pending := ?xs[i := (h, ?k + 1)]\<rparr>) else q\<lparr>rq_pending := ?xs[i := (h, ?k + 1)]\<rparr>)"
    using assms Some by (simp add: rq_record_failure_def rq_ok_def)
  show ?thesis
  proof (cases "?k + 1 \<ge> 3")
    case True
    have "set (filter (\<lambda>(x, n). x \<noteq> h) (?xs[i := (h, ?k + 1)])) \<subseteq> set ?xs"
      using set_update_subset_insert [of ?xs i "(h, ?k + 1)"] by auto
    then have "rq_ok (rq_resolve h (q\<lparr>rq_pending := ?xs[i := (h, ?k + 1)]\<rparr>))"
      using assms keys by (auto simp: rq_ok_def rq_resolve_def intro!: distinct_map_filter)
    moreover have "failures_of (rq_resolve h (q\<lparr>rq_pending := ?xs[i := (h, ?k + 1)]\<rparr>)) = (failures_of q)(h := None)"
      by (rule ext, simp only: failures_resolve) (use upd in \<open>simp add: failures_of_def\<close>)
    ultimately show ?thesis using True step i(3) by (simp add: failures_of_def)
  next
    case False
    then have "rq_ok (q\<lparr>rq_pending := ?xs[i := (h, ?k + 1)]\<rparr>)"
      using assms keys set_update_subset_insert [of ?xs i "(h, ?k + 1)"] by (auto simp: rq_ok_def)
    with False step i(3) upd show ?thesis by (simp add: failures_of_def fun_eq_iff)
  qed
qed

text \<open>A tick: the queue follows the fetches of each hash, and what is delivered is what was fetched.\<close>

definition delivered :: "('h \<times> (string + 'h new_block option)) list \<Rightarrow> 'h new_block list" where
  "delivered results = List.map_filter (\<lambda>(h, r). case r of Ok x \<Rightarrow> x | Err _ \<Rightarrow> None) results"

lemma fetches_simps [simp]:
  "fetches h [] = []" "fetches h ((x, r) # rs) = (if x = h then got r # fetches h rs else fetches h rs)"
  "fetches h (rs @ rs') = fetches h rs @ fetches h rs'"
  by (simp_all add: fetches_def)

lemma delivered_simps [simp]:
  "delivered [] = []" "delivered ((h, Ok (Some b)) # rs) = b # delivered rs" "delivered ((h, Ok None) # rs) = delivered rs"
  "delivered ((h, Err e) # rs) = delivered rs" "delivered (rs @ rs') = delivered rs @ delivered rs'"
  by (simp_all add: delivered_def map_filter_def)

lemma settle_follows:
  "rq_ok q \<Longrightarrow> settle q rs = (out, q') \<Longrightarrow>
     rq_ok q' \<and> out = delivered rs \<and> failures_of q' h = foldl counted_failures (failures_of q h) (fetches h rs)"
proof (induction rs arbitrary: q out)
  case (Cons hr rs)
  obtain x r where hr: "hr = (x, r)" by fastforce
  show ?case
  proof (cases "\<exists>b. r = Ok (Some b)")
    case True
    then obtain b where r: "r = Ok (Some b)" by blast
    obtain out1 where rest: "settle (rq_resolve x q) rs = (out1, q')" and out: "out = b # out1"
      using Cons.prems(2) r hr by (auto split: prod.splits)
    from Cons.IH [OF rq_resolve_ok [OF Cons.prems(1)] rest] out r hr show ?thesis by (simp add: failures_resolve got_def)
  next
    case False
    then have failed: "settle q (hr # rs) = settle (snd (rq_record_failure x q)) rs" "\<not> got r" "delivered (hr # rs) = delivered rs"
      using hr by (cases r; cases "case r of Ok b \<Rightarrow> b | Err e \<Rightarrow> None"; auto simp: got_def)+
    note counted = rq_record_failure_ok [OF Cons.prems(1), of x]
    from Cons.prems(2) failed(1) have "settle (snd (rq_record_failure x q)) rs = (out, q')" by simp
    from Cons.IH [OF conjunct1 [OF counted] this] counted failed hr show ?thesis by simp
  qed
qed simp

lemma fetch_all_hashes: "fetch_all N hs w = (rs, w') \<Longrightarrow> map fst rs = hs"
  by (induction N hs w arbitrary: rs rule: fetch_all.induct) (auto split: prod.splits)

lemma length_fetches: "length (fetches h rs) = count_list (map fst rs) h"
  by (induction rs) auto

lemma count_list_distinct: "distinct xs \<Longrightarrow> count_list xs x = (if x \<in> set xs then 1 else 0)"
  by (induction xs) auto

lemma count_due: "rq_ok q \<Longrightarrow> count_list (rq_due q) h = (if failures_of q h = None then 0 else 1)"
proof -
  assume "rq_ok q"
  then have d: "distinct (rq_due q)" by (simp add: rq_ok_def rq_due_def)
  have "failures_of q h = None \<longleftrightarrow> h \<notin> set (rq_due q)" by (simp add: failures_of_def map_of_eq_None_iff rq_due_def)
  with d show ?thesis by (simp add: count_list_distinct)
qed

lemma poll_tickE:
  assumes "poll_blocks N q (batch # batches) w = (results, out, q', w')" "rq_ok q"
  obtains rs q1 w1 results1 out1 where "rq_ok q1" "results = rs @ results1" "out = delivered rs @ out1"
    "\<And>h. failures_of q1 h = foldl counted_failures (failures_of q h) (fetches h rs)"
    "\<And>h. length (fetches h rs) = count_list batch h + (if failures_of q h = None then 0 else 1)"
    "poll_blocks N q1 batches w1 = (results1, out1, q', w')"
proof -
  obtain rs w1 where f: "fetch_all N (rq_due q @ batch) w = (rs, w1)" by fastforce
  obtain out0 q1 where s: "settle q rs = (out0, q1)" by fastforce
  obtain results1 out1 where p: "poll_blocks N q1 batches w1 = (results1, out1, q', w')"
    and eq: "results = rs @ results1" "out = out0 @ out1"
    using assms(1) f s by (auto simp: Let_def split: prod.splits)
  have "length (fetches h rs) = count_list batch h + (if failures_of q h = None then 0 else 1)" for h
    using fetch_all_hashes [OF f] by (simp add: length_fetches count_due [OF assms(2)])
  with that [OF _ _ _ _ _ p] settle_follows [OF assms(2) s] eq show thesis by blast
qed

lemma poll_delivers: "poll_blocks N q batches w = (results, out, q', w') \<Longrightarrow> rq_ok q \<Longrightarrow> out = delivered results \<and> rq_ok q'"
proof (induction batches arbitrary: q w results out)
  case (Cons batch batches)
  from Cons.prems obtain rs q1 w1 results1 out1 where "rq_ok q1" "results = rs @ results1" "out = delivered rs @ out1"
    "poll_blocks N q1 batches w1 = (results1, out1, q', w')" by (rule poll_tickE)
  with Cons.IH show ?case by fastforce
qed simp

text \<open>Three fetches are spent per announcement, at most.\<close>

definition left :: "nat option \<Rightarrow> nat" where
  "left s = (case s of None \<Rightarrow> 0 | Some k \<Rightarrow> 3 - k)"

definition live_count :: "nat option \<Rightarrow> bool" where
  "live_count s \<longleftrightarrow> (case s of None \<Rightarrow> True | Some k \<Rightarrow> 1 \<le> k \<and> k < 3)"

lemma counted_live: "live_count s \<Longrightarrow> live_count (counted_failures s b)"
  by (cases "(s, b)" rule: counted_failures.cases) (auto simp: live_count_def)

lemma counted_spends:
  "live_count s \<Longrightarrow> left (counted_failures s b) + 1 \<le> left s + (if s = None then 3 else 0)"
  by (cases "(s, b)" rule: counted_failures.cases) (auto simp: live_count_def left_def)

lemma fold_spends: "live_count s \<Longrightarrow> left (foldl counted_failures s bs) + length bs \<le> left s + 3 * length bs"
proof (induction bs arbitrary: s)
  case (Cons b bs)
  from Cons.IH [OF counted_live [OF Cons.prems], of b] counted_spends [OF Cons.prems, of b] show ?case by (simp split: if_splits)
qed simp

lemma tick_spends:
  assumes "live_count s" "length bs = c + (if s = None then 0 else 1)"
  shows "left (foldl counted_failures s bs) + length bs \<le> left s + 3 * c"
proof (cases "s = None")
  case True
  with fold_spends [OF assms(1), of bs] assms(2) show ?thesis by simp
next
  case False
  with assms(2) obtain b bs' where bs: "bs = b # bs'" "length bs' = c" by (cases bs) auto
  from fold_spends [OF counted_live [OF assms(1)], of b bs'] counted_spends [OF assms(1), of b] False bs show ?thesis by simp
qed

lemma live_failures: "rq_ok q \<Longrightarrow> live_count (failures_of q h)"
  using rq_ok_range [of q h] by (auto simp: live_count_def split: option.splits)

lemma poll_spends:
  "poll_blocks N q batches w = (results, out, q', w') \<Longrightarrow> rq_ok q \<Longrightarrow>
     left (failures_of q' h) + length (fetches h results) \<le> left (failures_of q h) + 3 * count_list (concat batches) h"
proof (induction batches arbitrary: q w results out)
  case (Cons batch batches)
  from Cons.prems obtain rs q1 w1 results1 out1 where q1: "rq_ok q1" and results: "results = rs @ results1"
    and f: "failures_of q1 h = foldl counted_failures (failures_of q h) (fetches h rs)"
    and len: "length (fetches h rs) = count_list batch h + (if failures_of q h = None then 0 else 1)"
    and rest: "poll_blocks N q1 batches w1 = (results1, out1, q', w')" by (rule poll_tickE) blast
  from Cons.IH [OF rest q1] tick_spends [OF live_failures [OF Cons.prems(2)] len] f results show ?case by simp
qed simp

text \<open>A hash that is announced no more is fetched until the first success, or three failures.\<close>

definition runs_out :: "nat option \<Rightarrow> bool list \<Rightarrow> nat option \<Rightarrow> bool" where
  "runs_out s bs s' \<longleftrightarrow>
     (case s of
        None \<Rightarrow> bs = [] \<and> s' = None
      | Some k \<Rightarrow> (\<exists>j. k + j < 3 \<and> (bs = replicate j False @ [True] \<and> s' = None \<or> bs = replicate j False \<and> s' = Some (k + j))) \<or>
          bs = replicate (3 - k) False \<and> s' = None)"

lemma runs_out_step:
  assumes "runs_out (counted_failures (Some k) b) bs s'" "k < 3"
  shows "runs_out (Some k) (b # bs) s'"
proof (cases b)
  case True
  with assms show ?thesis by (auto simp: runs_out_def intro!: exI [of _ 0])
next
  case False
  show ?thesis
  proof (cases "k + 1 \<ge> 3")
    case True
    then have "3 - k = 1" using assms(2) by simp
    with True False assms show ?thesis by (auto simp: runs_out_def)
  next
    case no: False
    then have "3 - k = Suc (3 - Suc k)" by simp
    from assms no False consider j where "Suc k + j < 3" "bs = replicate j False @ [True] \<and> s' = None \<or> bs = replicate j False \<and> s' = Some (Suc k + j)"
      | "bs = replicate (3 - Suc k) False" "s' = None" by (auto simp: runs_out_def)
    then show ?thesis
    proof cases
      case (1 j)
      with False show ?thesis by (auto simp: runs_out_def intro!: exI [of _ "Suc j"])
    next
      case 2
      with False \<open>3 - k = Suc (3 - Suc k)\<close> show ?thesis by (simp add: runs_out_def)
    qed
  qed
qed

lemma poll_runs_out:
  "poll_blocks N q batches w = (results, out, q', w') \<Longrightarrow> rq_ok q \<Longrightarrow> count_list (concat batches) h = 0 \<Longrightarrow>
     runs_out (failures_of q h) (fetches h results) (failures_of q' h)"
proof (induction batches arbitrary: q w results out)
  case Nil
  with rq_ok_range [of q h] show ?case by (auto simp: runs_out_def split: option.split intro!: exI [of _ 0])
next
  case (Cons batch batches)
  from Cons.prems(1,2) obtain rs q1 w1 results1 out1 where q1: "rq_ok q1" and results: "results = rs @ results1"
    and f: "failures_of q1 h = foldl counted_failures (failures_of q h) (fetches h rs)"
    and len: "length (fetches h rs) = count_list batch h + (if failures_of q h = None then 0 else 1)"
    and rest: "poll_blocks N q1 batches w1 = (results1, out1, q', w')" by (rule poll_tickE) blast
  from Cons.IH [OF rest q1] Cons.prems(3) have ih: "runs_out (failures_of q1 h) (fetches h results1) (failures_of q' h)" by simp
  show ?case
  proof (cases "failures_of q h")
    case None
    with len Cons.prems(3) have "fetches h rs = []" by simp
    with f ih None results show ?thesis by simp
  next
    case (Some k)
    with len Cons.prems(3) obtain b where b: "fetches h rs = [b]" by (auto simp: length_Suc_conv)
    with f Some ih have "runs_out (counted_failures (Some k) b) (fetches h results1) (failures_of q' h)" by simp
    from runs_out_step [OF this] rq_ok_range [OF Cons.prems(2) Some] b Some results show ?thesis by simp
  qed
qed

lemma poll_once:
  "poll_blocks N q batches w = (results, out, q', w') \<Longrightarrow> rq_ok q \<Longrightarrow> failures_of q h = None \<Longrightarrow>
     count_list (concat batches) h = 1 \<Longrightarrow> \<exists>b bs. fetches h results = b # bs \<and> runs_out (counted_failures None b) bs (failures_of q' h)"
proof (induction batches arbitrary: q w results out)
  case (Cons batch batches)
  from Cons.prems(1,2) obtain rs q1 w1 results1 out1 where q1: "rq_ok q1" and results: "results = rs @ results1"
    and f: "failures_of q1 h = foldl counted_failures (failures_of q h) (fetches h rs)"
    and len: "length (fetches h rs) = count_list batch h + (if failures_of q h = None then 0 else 1)"
    and rest: "poll_blocks N q1 batches w1 = (results1, out1, q', w')" by (rule poll_tickE) blast
  show ?case
  proof (cases "count_list batch h = 0")
    case True
    with len Cons.prems(3) have "fetches h rs = []" by simp
    with Cons.IH [OF rest q1] f Cons.prems(3,4) True results show ?thesis by simp
  next
    case False
    with Cons.prems(4) have c: "count_list batch h = 1" "count_list (concat batches) h = 0" by simp_all
    with len Cons.prems(3) obtain b where b: "fetches h rs = [b]" by (auto simp: length_Suc_conv)
    from poll_runs_out [OF rest q1 c(2)] f b Cons.prems(3) results show ?thesis by simp
  qed
qed simp

end
