(* ===== verification/Node_Collectors.thy ===== *)
theory Node_Collectors
  imports Collectors Engine
begin

text \<open>
  The event collector (\<open>src/src/collectors/event_collector.rs\<close>), which is also the source a persisted
  collector wraps, and the channel, log and mempool collectors beside it.

  An element of the node's event stream is a decoded event with its log, or a decoding error. How
  \<open>buffer_unordered\<close> orders the lookups it runs at once is a parameter of the model.
\<close>

section \<open>The event collector\<close>

record log =
  log_block :: "u64 option"
  removed :: bool

record ('e, 'w) event_node =
  subscribe_events :: "(string + 'e \<times> log, 'w) collector"
  watch_events :: "(string + 'e \<times> log, 'w) collector"
  query_events :: "u64 \<Rightarrow> u64 \<Rightarrow> ('e \<times> log, 'w) collector"
  get_block_number :: "'w \<Rightarrow> (string + u64) \<times> 'w"

definition live_item :: "'e \<Rightarrow> log \<Rightarrow> (block_position, 'e) indexed option" where
  "live_item event l =
     (case log_block l of
        None \<Rightarrow> None
      | Some block \<Rightarrow>
          if removed l then Some (Retract (BlockPosition block)) else Some (Event (BlockPosition block) event))"

definition indexed_event :: "'e \<Rightarrow> log \<Rightarrow> (u64 \<times> 'e) option" where
  "indexed_event event l =
     (case live_item event l of
        None \<Rightarrow> None
      | Some (Event position event) \<Rightarrow> Some (block_number position, event)
      | Some (Retract _) \<Rightarrow> None)"

definition raw_stream :: "('e, 'w) event_node \<Rightarrow> (string + 'e \<times> log, 'w) collector" where
  "raw_stream N = subscribe_or_poll (subscribe_events N) (watch_events N)"

definition indexed_stream :: "('e, 'w) event_node \<Rightarrow> ((block_position, 'e) indexed, 'w) collector" where
  "indexed_stream N = subscribe_filter_mapped (raw_stream N)
     (\<lambda>el. case el of Ok (event, l) \<Rightarrow> live_item event l | Err e \<Rightarrow> None)"

definition event_subscribe :: "('e, 'w) event_node \<Rightarrow> ('e, 'w) collector" where
  "event_subscribe N = subscribe_filter_mapped (indexed_stream N)
     (\<lambda>item. case item of Event position event \<Rightarrow> Some event | Retract position \<Rightarrow> None)"

definition event_query_range ::
  "('e, 'w) event_node \<Rightarrow> block_position \<Rightarrow> block_position \<Rightarrow> (block_position \<times> 'e, 'w) collector" where
  "event_query_range N a b = subscribe_filter_mapped (query_events N (block_number a) (block_number b))
     (\<lambda>(event, l). map_option (\<lambda>(block, event). (BlockPosition block, event)) (indexed_event event l))"

definition event_tip :: "('e, 'w) event_node \<Rightarrow> 'w \<Rightarrow> (string + block_position) \<times> 'w" where
  "event_tip N w = (case get_block_number N w of (Err e, w') \<Rightarrow> (Err e, w') | (Ok b, w') \<Rightarrow> (Ok (BlockPosition b), w'))"

definition event_source :: "('e, 'w) event_node \<Rightarrow> (block_position, 'e, 'w) source" where
  "event_source N = \<lparr>subscribe_indexed = indexed_stream N, query_range = event_query_range N, source_tip = event_tip N\<rparr>"

section \<open>The other collectors\<close>

definition channel_subscribe :: "('w \<Rightarrow> 'm recv list \<times> 'w) \<Rightarrow> ('m, 'w) collector" where
  "channel_subscribe receiver w =
     (case receiver w of (rs, w') \<Rightarrow> (Ok (List.map_filter (\<lambda>r. case r of Got m \<Rightarrow> Some m | Lagged n \<Rightarrow> None) rs), w'))"

record ('l, 'w) log_node =
  subscribe_logs :: "('l, 'w) collector"
  watch_logs :: "('l list, 'w) collector"

text \<open>Polled batches, flattened.\<close>

definition flattened :: "('x list, 'w) collector \<Rightarrow> ('x, 'w) collector" where
  "flattened poller w = (case poller w of (Err e, w') \<Rightarrow> (Err e, w') | (Ok batches, w') \<Rightarrow> (Ok (concat batches), w'))"

definition log_subscribe :: "('l, 'w) log_node \<Rightarrow> ('l, 'w) collector" where
  "log_subscribe N = subscribe_or_poll (subscribe_logs N) (flattened (watch_logs N))"

datatype 'x timed = Timed_out | In_time 'x

record ('h, 't, 'w) tx_node =
  subscribe_pending :: "('h, 'w) collector"
  watch_pending :: "('h list, 'w) collector"
  get_transaction :: "nat \<Rightarrow> 'h \<Rightarrow> 'w \<Rightarrow> (string + 't option) timed \<times> 'w"

record mempool_collector =
  max_concurrent_lookups :: nat
  collector_rpc_timeout :: nat

definition mempool_collector_new :: mempool_collector where
  "mempool_collector_new = \<lparr>max_concurrent_lookups = 16, collector_rpc_timeout = 10 * 10 ^ 9\<rparr>"

definition with_max_concurrent_lookups :: "nat \<Rightarrow> mempool_collector \<Rightarrow> mempool_collector" where
  "with_max_concurrent_lookups n c = c\<lparr>max_concurrent_lookups := n\<rparr>"

definition with_collector_timeout :: "nat \<Rightarrow> mempool_collector \<Rightarrow> mempool_collector" where
  "with_collector_timeout timeout c = c\<lparr>collector_rpc_timeout := timeout\<rparr>"

definition looked_up :: "(string + 't option) timed \<Rightarrow> 't option" where
  "looked_up r = (case r of In_time (Ok t) \<Rightarrow> t | In_time (Err e) \<Rightarrow> None | Timed_out \<Rightarrow> None)"

fun look_up_all :: "('h, 't, 'w) tx_node \<Rightarrow> nat \<Rightarrow> 'h list \<Rightarrow> 'w \<Rightarrow> 't option list \<times> 'w" where
  "look_up_all N timeout [] w = ([], w)"
| "look_up_all N timeout (h # hs) w =
     (case get_transaction N timeout h w of (r, w') \<Rightarrow>
        (case look_up_all N timeout hs w' of (ts, w'') \<Rightarrow> (looked_up r # ts, w'')))"

definition mempool_subscribe ::
  "(nat \<Rightarrow> 't option list \<Rightarrow> 't option list) \<Rightarrow> mempool_collector \<Rightarrow> ('h, 't, 'w) tx_node \<Rightarrow> ('t, 'w) collector" where
  "mempool_subscribe unordered c N w =
     (case subscribe_or_poll (subscribe_pending N) (flattened (watch_pending N)) w of
        (Err e, w') \<Rightarrow> (Err e, w')
      | (Ok hashes, w') \<Rightarrow>
          (case look_up_all N (collector_rpc_timeout c) hashes w' of
             (ts, w'') \<Rightarrow> (Ok (List.map_filter id (unordered (max_concurrent_lookups c) ts)), w'')))"

section \<open>The event collector as a source\<close>

text \<open>What \<open>eth_getLogs\<close> documents: the logs of the canonical chain in a block range, in block order.\<close>

definition canonical :: "('e \<times> log) list \<Rightarrow> bool" where
  "canonical chain \<longleftrightarrow> (\<forall>(event, l) \<in> set chain. \<not> removed l \<and> log_block l \<noteq> None) \<and>
     sorted (map (\<lambda>(event, l). the (log_block l)) chain)"

definition answers_logs :: "('e, 'w) event_node \<Rightarrow> ('e \<times> log) list \<Rightarrow> bool" where
  "answers_logs N chain \<longleftrightarrow> (\<forall>a b w logs w'. query_events N a b w = (Ok logs, w') \<longrightarrow>
     logs = filter (\<lambda>(event, l). a \<le> the (log_block l) \<and> the (log_block l) \<le> b) chain)"

definition history_of :: "('e \<times> log) list \<Rightarrow> (block_position \<times> 'e) list" where
  "history_of chain = map (\<lambda>(event, l). (BlockPosition (the (log_block l)), event)) chain"

lemma map_filter_history:
  "\<forall>(event, l) \<in> set chain. \<not> removed l \<and> log_block l \<noteq> None \<Longrightarrow>
     List.map_filter (\<lambda>(event, l). map_option (\<lambda>(block, event). (BlockPosition block, event)) (indexed_event event l)) chain
       = history_of chain"
  by (induction chain) (auto simp: map_filter_simps history_of_def indexed_event_def live_item_def)

lemma event_source_serves:
  assumes "canonical chain" "answers_logs N chain"
  shows "serves block_position_ops (event_source N) (history_of chain)"
  unfolding serves_def
proof (intro conjI allI impI)
  have "map (\<lambda>pe. block_number (fst pe)) (history_of chain) = map (\<lambda>(event, l). the (log_block l)) chain"
    by (simp add: history_of_def case_prod_beta)
  with assms(1) show "sorted (map (\<lambda>pe. sort_key block_position_ops (fst pe)) (history_of chain))"
    by (simp add: canonical_def)
  fix a b w xs w'
  assume "query_range (event_source N) (from_sort_key block_position_ops a) (from_sort_key block_position_ops b) w = (Ok xs, w')"
  then obtain logs where q: "query_events N a b w = (Ok logs, w')" and xs: "xs = List.map_filter
      (\<lambda>(event, l). map_option (\<lambda>(block, event). (BlockPosition block, event)) (indexed_event event l)) logs"
    by (auto simp: event_source_def event_query_range_def subscribe_filter_mapped_def split: prod.splits sum.splits)
  have logs: "logs = filter (\<lambda>(event, l). a \<le> the (log_block l) \<and> the (log_block l) \<le> b) chain"
    using assms(2) q unfolding answers_logs_def by blast
  then have "\<forall>(event, l) \<in> set logs. \<not> removed l \<and> log_block l \<noteq> None" using assms(1) by (auto simp: canonical_def)
  then have "xs = history_of logs" unfolding xs by (rule map_filter_history)
  also have "\<dots> = between block_position_ops (history_of chain) a b"
    by (simp add: logs history_of_def between_def filter_map comp_def case_prod_beta')
  finally show "xs = between block_position_ops (history_of chain) a b" .
qed

text \<open>What strategies see live: the decoded events that did happen, in order.\<close>

lemma event_subscribe_live:
  "event_subscribe N w = (case raw_stream N w of
     (Err e, w') \<Rightarrow> (Err e, w')
   | (Ok els, w') \<Rightarrow> (Ok (List.map_filter (\<lambda>el. case el of
         Ok (event, l) \<Rightarrow> if log_block l \<noteq> None \<and> \<not> removed l then Some event else None
       | Err e \<Rightarrow> None) els), w'))"
proof -
  have "List.map_filter (\<lambda>item. case item of Event position event \<Rightarrow> Some event | Retract position \<Rightarrow> None)
      (List.map_filter (\<lambda>el. case el of Ok (event, l) \<Rightarrow> live_item event l | Err e \<Rightarrow> None) els) =
    List.map_filter (\<lambda>el. case el of
         Ok (event, l) \<Rightarrow> if log_block l \<noteq> None \<and> \<not> removed l then Some event else None
       | Err e \<Rightarrow> None) els" for els :: "(string + 'a \<times> log) list"
    by (induction els) (auto simp: map_filter_simps live_item_def split: sum.split option.split)
  then show ?thesis
    by (simp add: event_subscribe_def indexed_stream_def subscribe_filter_mapped_def split: prod.split sum.split)
qed

end
