(* ===== verification/Live_Feed.thy ===== *)
theory Live_Feed
  imports Archive_Runs Node_Collectors
begin

text \<open>
  A live feed that reports its own reorganisations: events in key order, and before the events of a
  new fork a retraction of what the old one had there. Over such a feed the chain that the write
  pipeline refines is the backfill followed by the events that were not retracted; and the event
  collector of \<^theory_text>\<open>Node_Collectors\<close> makes such a feed of a node's log stream.
\<close>

section \<open>Feeds with retractions\<close>

text \<open>
  In key order above a floor: every event at or above the head, where a retraction pulls the head
  below its key.
\<close>

fun feed_ordered :: "'p position_ops \<Rightarrow> u64 \<Rightarrow> u64 \<Rightarrow> ('p, 'e) indexed list \<Rightarrow> bool" where
  "feed_ordered P flr h [] \<longleftrightarrow> True"
| "feed_ordered P flr h (Event p e # feed) \<longleftrightarrow>
     flr < sort_key P p \<and> h \<le> sort_key P p \<and> feed_ordered P flr (sort_key P p) feed"
| "feed_ordered P flr h (Retract p # feed) \<longleftrightarrow>
     flr < sort_key P p \<and> feed_ordered P flr (min h (sat_sub (sort_key P p) 1)) feed"

text \<open>The events a feed leaves standing, and their rows.\<close>

fun events_left :: "'p position_ops \<Rightarrow> ('p, 'e) indexed list \<Rightarrow> ('p \<times> 'e) list \<Rightarrow> ('p \<times> 'e) list" where
  "events_left P [] acc = acc"
| "events_left P (Event p e # feed) acc = events_left P feed (acc @ [(p, e)])"
| "events_left P (Retract p # feed) acc = events_left P feed (filter (\<lambda>pe. sort_key P (fst pe) < sort_key P p) acc)"

fun rows_left :: "'p position_ops \<Rightarrow> 'e serde \<Rightarrow> event_record \<Rightarrow> ('p, 'e) indexed list \<Rightarrow> (u64 \<times> row) list \<Rightarrow> (u64 \<times> row) list" where
  "rows_left P sd rec [] acc = acc"
| "rows_left P sd rec (Event p e # feed) acc =
     (case record_encode sd rec e of
        (Ok r, rec') \<Rightarrow> rows_left P sd rec' feed (acc @ [(sort_key P p, r)])
      | (Err x, rec') \<Rightarrow> rows_left P sd rec' feed (acc @ [(sort_key P p, [])]))"
| "rows_left P sd rec (Retract p # feed) acc = rows_left P sd rec feed (filter (\<lambda>kr. fst kr < sort_key P p) acc)"

lemma list_all2_filters:
  "list_all2 R xs ys \<Longrightarrow> (\<And>x y. R x y \<Longrightarrow> f x \<longleftrightarrow> g y) \<Longrightarrow> list_all2 R (filter f xs) (filter g ys)"
  by (induction rule: list_all2_induct) auto

lemma rows_of_events_left:
  "list_all2 (row_of_event P sd) acc krs \<Longrightarrow> list_all2 (row_of_event P sd) (events_left P feed acc) (rows_left P sd rc feed krs)"
proof (induction feed arbitrary: acc krs rc)
  case (Cons item feed)
  show ?case
  proof (cases item)
    case (Event p e)
    obtain x rc' where enc: "record_encode sd rc e = (x, rc')" by fastforce
    with record_encode_text [of sd rc e _ rc'] have "row_of_event P sd (p, e) (sort_key P p, case x of Ok r \<Rightarrow> r | Err _ \<Rightarrow> [])"
      by (cases x) (simp_all add: row_of_event_def)
    with Cons.prems have "list_all2 (row_of_event P sd) (acc @ [(p, e)]) (krs @ [(sort_key P p, case x of Ok r \<Rightarrow> r | Err _ \<Rightarrow> [])])"
      by (simp add: list_all2_appendI)
    from Cons.IH [OF this, of rc'] enc Event show ?thesis by (cases x) simp_all
  next
    case (Retract p)
    have "list_all2 (row_of_event P sd) (filter (\<lambda>pe. sort_key P (fst pe) < sort_key P p) acc) (filter (\<lambda>kr. fst kr < sort_key P p) krs)"
      by (rule list_all2_filters [OF Cons.prems]) (simp add: row_of_event_def)
    from Cons.IH [OF this] Retract show ?thesis by simp
  qed
qed simp

lemma events_left_above:
  "feed_ordered P flr h feed \<Longrightarrow> \<forall>pe \<in> set acc. flr < sort_key P (fst pe) \<Longrightarrow> \<forall>pe \<in> set (events_left P feed acc). flr < sort_key P (fst pe)"
  by (induction P feed acc arbitrary: h rule: events_left.induct) auto

section \<open>The chain of such a feed\<close>

text \<open>The chain of a backfill in key order.\<close>

lemma chain_seeds_ordered:
  assumes "sorted (map fst krs)"
  shows "\<exists>h ch. chain_seeds krs (None, []) = (h, ch) \<and> chain_groups ch = groups krs \<and> bt_wf ch \<and>
    h = (if krs = [] then None else Some (fst (last krs)))"
  using assms
proof (induction krs rule: rev_induct)
  case Nil
  then show ?case by simp
next
  case (snoc kr krs)
  obtain k r where kr: "kr = (k, r)" by (cases kr)
  from snoc obtain h ch where st: "chain_seeds krs (None, []) = (h, ch)" and ch: "chain_groups ch = groups krs" "bt_wf ch"
    and h: "h = (if krs = [] then None else Some (fst (last krs)))"
    by (auto simp: sorted_append)
  have keys: "\<forall>p \<in> set ch. fst p \<le> k"
  proof
    fix p assume "p \<in> set ch"
    then have "fst p \<in> set (bt_keys ch)" by (simp add: bt_keys_def)
    also have "bt_keys ch = map fst (groups krs)" using ch(1) map_fst_chain_groups [of ch] by simp
    finally have "fst p \<in> fst ` set krs" using groups_keys [of krs] by simp
    with snoc.prems kr show "fst p \<le> k" by (auto simp: sorted_append)
  qed
  have "krs \<noteq> [] \<Longrightarrow> fst (last krs) \<le> k" using snoc.prems kr by (simp add: sorted_append)
  then have hd: "Some (opt_max h k) = Some (fst (last (krs @ [kr])))" using h kr by (auto simp: max_def)
  have step: "chain_seeds (krs @ [kr]) (None, []) = chain_seed k r (h, ch)" using st kr by (simp add: chain_seeds_def)
  show ?case
  proof (cases ch rule: rev_cases)
    case Nil
    with ch(1) have "groups krs = []" by simp
    with step hd Nil kr show ?thesis by (simp add: groups_snoc add_row_def bt_get_def)
  next
    case (snoc c p)
    obtain b rs sd where p: "p = (b, rs, sd)" by (cases p)
    from ch(2) snoc p have low: "\<forall>q \<in> set c. fst q < b" by (auto simp: bt_wf_append)
    from keys snoc p have bk: "b \<le> k" by simp
    have g: "groups (krs @ [kr]) = add_row (k, r) (chain_groups c @ [(b, rs)])" using ch(1) snoc p kr by (simp add: groups_snoc)
    have wf: "bt_wf (bt_insert k v ch)" for v using ch(2) by simp
    show ?thesis
    proof (cases "b = k")
      case True
      then have "bt_get ch k = Some (rs, sd)" and "bt_insert k v ch = c @ [(k, v)]" for v
        using snoc p low ch(2) by (auto simp: bt_get_Some_iff bt_insert_last)
      with step hd g True wf [of "(rs @ [r], sd)"] show ?thesis by (simp add: add_row_def)
    next
      case False
      with bk low snoc p have all: "\<forall>q \<in> set ch. fst q < k" by fastforce
      then have "bt_get ch k = None" and "bt_insert k v ch = ch @ [(k, v)]" for v
        by (auto simp: bt_get_None_iff bt_insert_above)
      with step hd g False wf [of "([r], True)"] snoc p show ?thesis by (simp add: add_row_def)
    qed
  qed
qed

text \<open>What lies at or below the floor is not touched by such a feed.\<close>

lemma chain_items_left:
  assumes "feed_ordered P flr h' feed" "\<forall>x \<in> set_option h. x \<le> h'" "\<forall>b \<in> set (bt_keys fl). b \<le> flr"
    and "plain_chain h ch" "chain_groups ch = groups krs" "sorted (map fst krs)"
  shows "\<exists>ch'. snd (chain_items P sd rec feed (h, fl @ ch)) = fl @ ch' \<and> chain_groups ch' = groups (rows_left P sd rec feed krs)"
  using assms
proof (induction feed arbitrary: h h' ch krs rec)
  case Nil
  then show ?case by auto
next
  case (Cons item feed)
  show ?case
  proof (cases item)
    case (Event p e)
    let ?k = "sort_key P p"
    obtain x rec' where enc: "record_encode sd rec e = (x, rec')" by fastforce
    let ?r = "case x of Ok r \<Rightarrow> r | Err _ \<Rightarrow> []"
    from Cons.prems(1) Event have k: "flr < ?k" "h' \<le> ?k" "feed_ordered P flr ?k feed" by auto
    have hk: "\<forall>x \<in> set_option h. x \<le> ?k" using Cons.prems(2) k(2) by auto
    then have up: "\<not> (\<exists>x \<in> set_option h. ?k < x)" by (meson leD)
    obtain ch1 where live: "chain_live ?k ?r (h, ch) = (Some ?k, ch1)" by simp
    from plain_chain_live [OF Cons.prems(4) hk live]
    have one: "plain_chain (Some ?k) ch1" "chain_groups ch1 = groups (krs @ [(?k, ?r)])"
      using Cons.prems(5) by (simp_all add: groups_snoc)
    have below: "\<forall>b \<in> set (bt_keys fl). b < ?k" using Cons.prems(3) k(1) by fastforce
    have "chain_live ?k ?r (h, fl @ ch) = (Some ?k, fl @ ch1)"
      using live up chain_split_get [OF below] by simp
    moreover have "sorted (map fst (krs @ [(?k, ?r)]))"
    proof -
      have "x \<le> ?k" if "x \<in> fst ` set krs" for x
      proof -
        have "fst ` set krs = set (bt_keys ch)" using groups_keys [of krs] Cons.prems(5) map_fst_chain_groups [of ch] by (metis list.set_map)
        with that Cons.prems(4) hk show ?thesis by (force simp: plain_chain_def bt_keys_def)
      qed
      with Cons.prems(6) show ?thesis by (auto simp: sorted_append)
    qed
    ultimately show ?thesis
      using Cons.IH [OF k(3) _ Cons.prems(3) one(1,2), of rec'] enc Event by (cases x) (simp_all del: chain_live.simps)
  next
    case (Retract p)
    let ?k = "sort_key P p" and ?lo = "\<lambda>krs. filter (\<lambda>kr. fst kr < sort_key P p) krs"
    from Cons.prems(1) Retract have k: "flr < ?k" "feed_ordered P flr (min h' (sat_sub ?k 1)) feed" by auto
    have below: "\<forall>b \<in> set (bt_keys fl). b < ?k" using Cons.prems(3) k(1) by fastforce
    let ?h = "map_option (\<lambda>h. min h (sat_sub ?k 1)) h"
    have st: "chain_retract ?k (h, fl @ ch) = (?h, fl @ chain_rewind ?k ch)"
      by (simp add: chain_rewind_below [OF below])
    have "0 < ?k" by (rule le_less_trans [OF word_zero_le k(1)])
    then have lt: "x < ?k \<Longrightarrow> x \<le> sat_sub ?k 1" for x by (simp add: word_less_nat_alt word_le_nat_alt unat_sat_sub)
    have keys: "bt_keys (chain_rewind ?k ch) = bt_keys (filter (\<lambda>(b, rs, sd). \<not> (?k \<le> b \<and> \<not> sd)) ch)"
      by (induction ch) (auto simp: chain_rewind_def)
    have "bt_wf (filter (\<lambda>(b, rs, sd). \<not> (?k \<le> b \<and> \<not> sd)) ch)" using Cons.prems(4) by (simp add: plain_chain_def)
    with keys have wf: "bt_wf (chain_rewind ?k ch)" by (simp add: bt_wf_def bt_keys_def)
    have "\<forall>p \<in> set (chain_rewind ?k ch). (\<exists>x. ?h = Some x \<and> fst p \<le> x) \<and> \<not> snd (snd p)"
      using Cons.prems(4) lt by (fastforce simp: plain_chain_def chain_rewind_def)
    with wf have plain: "plain_chain ?h (chain_rewind ?k ch)" by (simp add: plain_chain_def)
    have "\<forall>p \<in> set ch. \<not> snd (snd p)" using Cons.prems(4) by (auto simp: plain_chain_def)
    then have g: "chain_groups (chain_rewind ?k ch) = groups (?lo krs)"
      by (simp add: chain_groups_rewind Cons.prems(5) groups_below [OF Cons.prems(6)])
    have "\<forall>x \<in> set_option ?h. x \<le> min h' (sat_sub ?k 1)" using Cons.prems(2) by (auto simp: min_le_iff_disj)
    from Cons.IH [OF k(2) this Cons.prems(3) plain g] sorted_filter [OF Cons.prems(6)] Retract st show ?thesis
      by (simp del: chain_retract.simps)
  qed
qed

section \<open>The pipeline over such a feed\<close>

lemma groups_append:
  assumes "\<forall>kr \<in> set krs. \<forall>lr \<in> set lrs. fst kr < fst lr"
  shows "groups (krs @ lrs) = groups krs @ groups lrs"
proof (cases "lrs = []")
  case False
  let ?c = "Min (fst ` set lrs)"
  have c: "?c \<in> fst ` set lrs" by (rule Min_in) (use False in auto)
  show ?thesis
    by (rule groups_split [where c = ?c]) (use assms c in \<open>force, simp\<close>)
qed simp

lemma sorted_split:
  assumes "sorted (map f xs)" "\<And>a b. a \<le> b \<Longrightarrow> Q b \<Longrightarrow> Q a"
  shows "filter (\<lambda>x. Q (f x)) xs @ filter (\<lambda>x. \<not> Q (f x)) xs = xs"
  using assms(1)
proof (induction xs)
  case (Cons x xs)
  show ?case
  proof (cases "Q (f x)")
    case False
    with Cons.prems assms(2) have "\<forall>y \<in> set xs. \<not> Q (f y)" by fastforce
    with False show ?thesis by simp
  qed (use Cons in simp)
qed simp

lemma keys_of_events:
  "list_all2 (row_of_event P sd) pes krs \<Longrightarrow> map fst krs = map (\<lambda>pe. sort_key P (fst pe)) pes"
  by (induction rule: list_all2_induct) (simp_all add: row_of_event_def)

lemma pipeline_chain_left:
  assumes sorted: "sorted (map (\<lambda>pe. sort_key P (fst pe)) backfill)" and below: "\<forall>pe \<in> set backfill. sort_key P (fst pe) \<le> tip"
    and feed: "feed_ordered P tip tip live"
  shows "chain_groups (snd (pipeline_chain P sd rec fcut backfill live)) =
    groups (keyed_rows P sd rec backfill @ rows_left P sd (record_after sd rec (map snd backfill)) live [])"
proof -
  let ?krs = "keyed_rows P sd rec backfill" and ?rec = "record_after sd rec (map snd backfill)"
  let ?settled = "filter (\<lambda>kr. settles fcut (fst kr)) ?krs" and ?seeds = "filter (\<lambda>kr. \<not> settles fcut (fst kr)) ?krs"
  let ?left = "rows_left P sd ?rec live []"
  have keys: "map fst ?krs = map (\<lambda>pe. sort_key P (fst pe)) backfill" by (rule keyed_rows_keys)
  with sorted have ks: "sorted (map fst ?krs)" by simp
  have "set (map fst ?krs) = set (map (\<lambda>pe. sort_key P (fst pe)) backfill)" by (simp only: keys)
  with below have "\<forall>k \<in> fst ` set ?krs. k \<le> tip" by simp
  then have kt: "\<forall>kr \<in> set ?krs. fst kr \<le> tip" by blast
  obtain h ch where st: "chain_seeds ?seeds (None, []) = (h, ch)" and ch: "chain_groups ch = groups ?seeds"
    and h: "h = (if ?seeds = [] then None else Some (fst (last ?seeds)))"
    using chain_seeds_ordered [OF sorted_filter [OF ks]] by blast
  have cut: "settles fcut a \<Longrightarrow> \<not> settles fcut b \<Longrightarrow> a < b" for a b by (auto simp: settles_def split: option.splits)
  have split: "?settled @ ?seeds = ?krs"
    by (rule sorted_split [OF ks]) (use cut in \<open>meson leD\<close>)
  have low: "\<forall>b \<in> set (bt_keys (Persist_Emit.plain (groups ?settled))). \<forall>k \<in> fst ` set ?seeds. b < k"
    using groups_keys [of ?settled] cut by (fastforce simp: image_iff)
  have base: "chain_seeds ?seeds (None, Persist_Emit.plain (groups ?settled)) = (h, Persist_Emit.plain (groups ?settled) @ ch)"
    using chain_seeds_above [OF low, of None "[]"] st by simp
  have "\<forall>x \<in> set_option h. x \<le> tip"
    using h kt last_in_set [of ?seeds] by (auto split: if_splits)
  moreover have "\<forall>b \<in> set (bt_keys (Persist_Emit.plain (groups ?settled) @ ch)). b \<le> tip"
  proof -
    have "set (bt_keys ch) = fst ` set ?seeds" using groups_keys [of ?seeds] ch map_fst_chain_groups [of ch] by (metis list.set_map)
    moreover have "set (bt_keys (Persist_Emit.plain (groups ?settled))) = fst ` set ?settled" using groups_keys [of ?settled] by simp
    ultimately show ?thesis using kt by auto
  qed
  moreover have "plain_chain h []" by (simp add: plain_chain_def)
  ultimately obtain ch' where "snd (chain_items P sd ?rec live (h, (Persist_Emit.plain (groups ?settled) @ ch) @ [])) = (Persist_Emit.plain (groups ?settled) @ ch) @ ch'"
    and left: "chain_groups ch' = groups ?left"
    using chain_items_left [OF feed, of h "Persist_Emit.plain (groups ?settled) @ ch" "[]" "[]" sd ?rec] by auto
  then have "chain_groups (snd (pipeline_chain P sd rec fcut backfill live)) = groups ?settled @ groups ?seeds @ groups ?left"
    by (simp add: pipeline_chain_def Let_def base ch)
  also have "\<dots> = groups (?krs @ ?left)"
  proof -
    have "groups ?krs = groups (?settled @ ?seeds)" by (simp only: split)
    also have "\<dots> = groups ?settled @ groups ?seeds" by (rule groups_append) (use cut in auto)
    finally have "groups ?krs = groups ?settled @ groups ?seeds" .
    moreover have "map fst ?left = map (\<lambda>pe. sort_key P (fst pe)) (events_left P live [])"
      by (rule keys_of_events [OF rows_of_events_left]) simp
    then have "set (map fst ?left) = set (map (\<lambda>pe. sort_key P (fst pe)) (events_left P live []))" by simp
    with events_left_above [OF feed, of "[]"] have "\<forall>k \<in> fst ` set ?left. tip < k" by simp
    then have "\<forall>lr \<in> set ?left. tip < fst lr" by blast
    then have "groups (?krs @ ?left) = groups ?krs @ groups ?left"
      using kt by (intro groups_append) (meson le_less_trans)
    ultimately show ?thesis by simp
  qed
  finally show ?thesis .
qed

text \<open>After an event the window buffers only what is less than the depth below it.\<close>

lemma cw_record_unripe:
  assumes order: "position_order (env_pos env)" and halt: "reobservation (env_pos env) = Halt" and wf: "cw_wf (env_pos env) win"
    and run: "cw_record (env\<lparr>env_store := logging S\<rparr>) win w p e = (d, win', w')" and healthy: "core_healthy (cw_core win')"
  shows "\<forall>b \<in> set (bt_keys (cw_pending win')). sort_key (env_pos env) p < sat_add b (cw_depth win')"
proof -
  from run healthy have h: "core_healthy (cw_core win)"
    by (cases "core_healthy (cw_core win)") (auto simp: cw_record_halted)
  from order wf h run show ?thesis
  proof (cases rule: cw_record_cases)
    case (Put r pd win1)
    then show ?thesis using halt healthy by (auto simp: flush_step_def rewound_head)
  qed (use halt healthy in auto)
qed

lemma pe_live_snoc:
  "pe_live env (feed @ [Event p e]) win w = (out, win', w') \<Longrightarrow>
     \<exists>out1 win1 w1 d. pe_live env feed win w = (out1, win1, w1) \<and> cw_record env win1 w1 p e = (d, win', w')"
proof (induction feed arbitrary: win w out rule: events_of.induct)
  case (2 q f feed)
  obtain x win1 w1 where st: "cw_record env win w q f = (x, win1, w1)" by (cases "cw_record env win w q f")
  obtain out1 win2 w2 where mid: "pe_live env feed win1 w1 = (out1, win2, w2)" by (cases "pe_live env feed win1 w1")
  from 2(2) st obtain out2 where "pe_live env (feed @ [Event p e]) win1 w1 = (out2, win', w')"
    by (auto simp: Let_def split: prod.splits)
  from 2(1) [OF this] mid st show ?case by (auto simp: Let_def)
qed (auto simp: Let_def split: prod.splits)

lemma pe_unripe:
  assumes order: "position_order (env_pos env)" and halt: "reobservation (env_pos env) = Halt" and tip: "tip < max_val"
    and bounds: "\<forall>(pos, e) \<in> set backfill. above (map_option (sort_key (env_pos env)) seed) (sort_key (env_pos env) pos)
      \<and> sort_key (env_pos env) pos \<le> tip"
    and w: "w_store w = (s, [])"
    and run: "persist_and_emit (env\<lparr>env_store := logging S\<rparr>) backfill (feed @ [Event p e]) depth (checked_sub tip depth) seed w
      = (out, settled, win, w')"
    and healthy: "core_healthy (cw_core win)"
  shows "\<forall>b \<in> set (map fst (pend_groups (cw_pending win))). sort_key (env_pos env) p < sat_add b depth"
proof -
  let ?env = "env\<lparr>env_store := logging S\<rparr>" and ?P = "env_pos env"
  from run obtain out1 settled1 win1 w1 w2 out2 where
    bf: "pe_backfill ?env (checked_sub tip depth) backfill (bw_new seed)
        (cw_new ?P depth (window_seed ?P (checked_sub tip depth) seed)) w = (out1, settled1, win1, w1)"
    and fin: "bw_finish ?env settled1 w1 = (settled, w2)"
    and lv: "pe_live ?env (feed @ [Event p e]) (pe_handover ?P settled win1) w2 = (out2, win, w')"
    by (elim persist_and_emit_phases) auto
  from pe_live_snoc [OF lv] obtain out3 win3 w3 d where
    mid: "pe_live ?env feed (pe_handover ?P settled win1) w2 = (out3, win3, w3)" and last: "cw_record ?env win3 w3 p e = (d, win, w')"
    by blast
  from pe_handover_inv [OF order halt refl tip bounds w bf fin]
  have inv: "cw_inv ?P (map_option (sort_key ?P) seed) max_val (pe_handover ?P settled win1) (snd (w_store w2))"
    and d: "cw_depth (pe_handover ?P settled win1) = depth"
    by (auto intro: cw_inv_mono)
  from pe_live_inv [OF order halt inv _ mid] have "cw_wf ?P win3" by (simp add: cw_inv_def)
  from cw_record_unripe [OF order halt this last healthy] pe_live_depth [OF lv] d show ?thesis by simp
qed

section \<open>The archive of such a feed\<close>

text \<open>
  With a SQL archive: the rows stored and the rows buffered are, one by one, the backfill and the
  events the feed left; the stored ones hold their events' texts, and after an event nothing that is
  the depth below it is still buffered.
\<close>

lemma archive_follows_feed:
  assumes archive: "sql_archive D DB view tview P" "store_sound view st" and rc: "record_ok rc"
    and halt: "reobservation P = Halt" and tip: "tip < max_val"
    and bounds: "\<forall>(pos, e) \<in> set backfill. above (map_option (sort_key P) seed) (sort_key P pos) \<and> sort_key P pos \<le> tip"
    and sorted: "sorted (map (\<lambda>pe. sort_key P (fst pe)) backfill)" and feed: "feed_ordered P tip tip live"
    and run: "persist_and_emit (plain_env P sd (sql_store P D DB)) backfill live depth (checked_sub tip depth) seed
      \<lparr>w_store = st, w_record = rc\<rparr> = (out, settled, win, w')"
    and healthy: "core_healthy (cw_core win)"
  shows "\<exists>stored buffered. stored @ buffered = backfill @ events_left P live [] \<and>
    arc_contents (view (pool (w_store w'))) (rec_table rc) = arc_contents (view (pool st)) (rec_table rc) @ map (event_cell P sd) stored \<and>
    map fst (ungrouped (pend_groups (cw_pending win))) = map (\<lambda>pe. sort_key P (fst pe)) buffered \<and>
    (\<forall>feed' p e. live = feed' @ [Event p e] \<longrightarrow> (\<forall>pe \<in> set buffered. sort_key P p < sat_add (sort_key P (fst pe)) depth))"
proof -
  have order: "position_order P" using archive(1) by (simp add: sql_archive_def position_codec_def)
  from run obtain w2 where log: "persist_and_emit (logged_env P sd (sql_store P D DB)) backfill live depth
      (checked_sub tip depth) seed \<lparr>w_store = (st, []), w_record = rc\<rparr> = (out, settled, win, w2)" and w': "w' = bare w2"
    by (rule persist_and_emit_logged)
  let ?log = "snd (w_store w2)" and ?pend = "pend_groups (cw_pending win)"
  note contract = sql_archive.sql_store_contract [OF archive(1)]
  from store_contract.pipeline_archives [OF contract log rc archive(2)]
  have agrees: "store_contract.agrees P (\<lambda>st. arc_contents (view (pool st))) (\<lambda>st. arc_mark P (view (pool st)))
      (store_sound view) st (w_store w2)" and made: "made_log (rec_table rc) ?log" by blast+
  have "log_groups P ?log @ ?pend = chain_groups (snd (pipeline_chain P sd rc (checked_sub tip depth) backfill live))"
    using pe_refines [where env = "logged_env P sd (sql_store P D DB)" and w = "\<lparr>w_store = (st, []), w_record = rc\<rparr>"
        and s = st and S = "sql_store P D DB" and w' = w2 and win = win and seed = seed and backfill = backfill and live = live
        and out = out and settled = settled and depth = depth and tip = tip]
      order halt tip bounds healthy log by simp
  also have "\<dots> = groups (keyed_rows P sd rc backfill @ rows_left P sd (record_after sd rc (map snd backfill)) live [])"
    by (rule pipeline_chain_left [OF sorted _ feed]) (use bounds in auto)
  finally have "ungrouped (log_groups P ?log @ ?pend) =
      ungrouped (groups (keyed_rows P sd rc backfill @ rows_left P sd (record_after sd rc (map snd backfill)) live []))" by simp
  then have rows: "ungrouped (log_groups P ?log) @ ungrouped ?pend =
      keyed_rows P sd rc backfill @ rows_left P sd (record_after sd rc (map snd backfill)) live []"
    by (simp only: groups_concat map_append concat_append)
  have "list_all2 (row_of_event P sd) (backfill @ events_left P live [])
      (keyed_rows P sd rc backfill @ rows_left P sd (record_after sd rc (map snd backfill)) live [])"
    by (rule list_all2_appendI [OF keyed_rows_of_events rows_of_events_left]) simp
  with rows have all: "list_all2 (row_of_event P sd) (backfill @ events_left P live []) (ungrouped (log_groups P ?log) @ ungrouped ?pend)"
    by simp
  then obtain stored buffered where es: "stored @ buffered = backfill @ events_left P live []"
    and st: "list_all2 (row_of_event P sd) stored (ungrouped (log_groups P ?log))"
    and bu: "list_all2 (row_of_event P sd) buffered (ungrouped ?pend)"
    by (auto simp: list_all2_append2)
  have full: "\<forall>kr \<in> set (ungrouped (log_groups P ?log)). snd kr \<noteq> []"
    using made_log_groups [OF made] by force
  have cells: "archived (log_groups P ?log) = map (event_cell P sd) stored"
    using cells_of_events [OF st, of max_val] full by (simp add: archived_ungrouped)
  have table: "arc_contents (view (pool (w_store w'))) (rec_table rc) = arc_contents (view (pool st)) (rec_table rc) @ archived (log_groups P ?log)"
    using made_log_rows [OF made] w' agrees [unfolded store_contract.agrees_def [OF contract]] by simp
  have buf: "map fst (ungrouped ?pend) = map (\<lambda>pe. sort_key P (fst pe)) buffered" by (rule keys_of_events [OF bu])
  have late: "\<forall>pe \<in> set buffered. sort_key P p < sat_add (sort_key P (fst pe)) depth" if "live = feed' @ [Event p e]" for feed' p e
  proof -
    have "\<forall>b \<in> set (map fst ?pend). sort_key P p < sat_add b depth"
      using pe_unripe [where env = "logged_env P sd (sql_store P D DB)" and w = "\<lparr>w_store = (st, []), w_record = rc\<rparr>"
          and s = st and S = "sql_store P D DB" and w' = w2 and win = win and seed = seed and backfill = backfill
          and out = out and settled = settled and depth = depth and tip = tip]
        order halt tip bounds healthy log that by simp
    moreover have "\<forall>kr \<in> set (ungrouped ?pend). fst kr \<in> set (map fst ?pend)" using ungrouped_keys by blast
    then have "\<forall>k \<in> set (map fst (ungrouped ?pend)). k \<in> set (map fst ?pend)" unfolding set_map by - (rule ballI, erule imageE, blast)
    then have "\<forall>k \<in> set (map (\<lambda>pe. sort_key P (fst pe)) buffered). k \<in> set (map fst ?pend)" unfolding buf .
    ultimately show ?thesis by auto
  qed
  show ?thesis
    using es table [unfolded cells] buf late by (intro exI [of _ stored] exI [of _ buffered] conjI allI impI)
qed

section \<open>The log stream of a node\<close>

text \<open>What a node announces: the decoded logs that have a block; a removed one retracts.\<close>

definition announced :: "(string + 'e \<times> log) list \<Rightarrow> ('e \<times> log) list" where
  "announced els = List.map_filter (\<lambda>el. case el of
     Ok (event, l) \<Rightarrow> if log_block l = None then None else Some (event, l) | Err e \<Rightarrow> None) els"

definition block_of :: "log \<Rightarrow> u64" where
  "block_of l = the (log_block l)"

text \<open>
  In block order above a tip: no log is announced below the newest standing block, and the removals of
  a fork are announced before the logs of the next one.
\<close>

fun announced_in_order :: "u64 \<Rightarrow> u64 \<Rightarrow> ('e \<times> log) list \<Rightarrow> bool" where
  "announced_in_order tip newest [] \<longleftrightarrow> True"
| "announced_in_order tip newest ((event, l) # ls) \<longleftrightarrow> tip < block_of l \<and>
     (if removed l then announced_in_order tip (min newest (sat_sub (block_of l) 1)) ls
      else newest \<le> block_of l \<and> announced_in_order tip (block_of l) ls)"

text \<open>The logs that stand at the end: a removal takes away its block and all above it.\<close>

fun standing :: "('e \<times> log) list \<Rightarrow> ('e \<times> log) list \<Rightarrow> ('e \<times> log) list" where
  "standing acc [] = acc"
| "standing acc ((event, l) # ls) =
     (if removed l then standing (filter (\<lambda>(event', l'). block_of l' < block_of l) acc) ls
      else standing (acc @ [(event, l)]) ls)"

definition item_of :: "'e \<times> log \<Rightarrow> (block_position, 'e) indexed" where
  "item_of el = (case el of (event, l) \<Rightarrow>
     if removed l then Retract (BlockPosition (block_of l)) else Event (BlockPosition (block_of l)) event)"

lemma item_of_simps [simp]:
  "removed l \<Longrightarrow> item_of (event, l) = Retract (BlockPosition (block_of l))"
  "\<not> removed l \<Longrightarrow> item_of (event, l) = Event (BlockPosition (block_of l)) event"
  by (simp_all add: item_of_def)

lemma live_items_announced:
  "List.map_filter (\<lambda>el. case el of Ok (event, l) \<Rightarrow> live_item event l | Err e \<Rightarrow> None) els = map item_of (announced els)"
  by (induction els) (auto simp: map_filter_simps announced_def live_item_def item_of_def block_of_def split: sum.split option.split)

lemma indexed_stream_announced:
  "indexed_stream N w = (case raw_stream N w of (Err e, w') \<Rightarrow> (Err e, w') | (Ok els, w') \<Rightarrow> (Ok (map item_of (announced els)), w'))"
  by (simp add: indexed_stream_def subscribe_filter_mapped_def live_items_announced split: prod.split sum.split)

lemma announced_feed: "feed_ordered block_position_ops tip newest (map item_of ls) = announced_in_order tip newest ls"
  by (induction tip newest ls rule: announced_in_order.induct) auto

lemma history_of_simps [simp]:
  "history_of [] = []" "history_of ((event, l) # ls) = (BlockPosition (block_of l), event) # history_of ls"
  "history_of (ls @ ms) = history_of ls @ history_of ms"
  by (simp_all add: history_of_def block_of_def)

lemma history_of_below:
  "filter (\<lambda>pe. block_number (fst pe) < b) (history_of ls) = history_of (filter (\<lambda>(event, l). block_of l < b) ls)"
  by (induction ls) auto

lemma standing_left: "events_left block_position_ops (map item_of ls) (history_of acc) = history_of (standing acc ls)"
  by (induction acc ls rule: standing.induct) (auto simp: history_of_below)

section \<open>A live subscription to an event collector\<close>

text \<open>The segments of a live subscription: the gap up to the tip, and the node's announcements.\<close>

lemma live_segments:
  assumes chain: "canonical chain" "answers_logs N chain" and tip: "\<forall>w. fst (get_block_number N w) = Ok tip" "tip < max_val"
    and cfg: "p_to_block cfg = None" "0 < p_chunk cfg"
    and run: "subscribe block_position_ops sd S (event_source N) cfg replayed s c = (Ok seg, c1)"
    and bf: "seg_backfill seg c2 = Some (ys, False, c3)" and raw: "raw_stream N c = (Ok els, c0)"
  shows "ys = between block_position_ops (history_of chain) (backfill_from block_position_ops cfg (seg_seed seg)) tip"
    and "seg_live seg = map item_of (announced els)" and "seg_cut seg = checked_sub tip (p_depth cfg)"
    and "record_ok (seg_record seg)"
    and "\<forall>(pos, e) \<in> set ys. above (map_option block_number (seg_seed seg)) (block_number pos) \<and> block_number pos \<le> tip"
    and "sorted (map (\<lambda>pe. block_number (fst pe)) ys)"
proof -
  have tips: "\<forall>c. fst (source_tip (event_source N) c) = Ok (BlockPosition tip)"
  proof
    fix c
    obtain r c' where g: "get_block_number N c = (r, c')" by fastforce
    with tip(1) have "r = Ok tip" by (metis fst_conv)
    with g show "fst (source_tip (event_source N) c) = Ok (BlockPosition tip)" by (simp add: event_source_def event_tip_def)
  qed
  have etip: "effective_tip cfg k = k" for k using cfg(1) by (simp add: effective_tip_def)
  from subscribe_gap [OF event_source_serves [OF chain] tips _ cfg(2) run, of c2] bf tip(2)
  show ys: "ys = between block_position_ops (history_of chain) (backfill_from block_position_ops cfg (seg_seed seg)) tip"
    by (auto simp: etip)
  have "seg_live seg = map item_of (announced els) \<and> seg_cut seg = checked_sub tip (p_depth cfg) \<and> record_ok (seg_record seg)"
    using run
  proof (cases rule: subscribe_OkE)
    case (1 rec items c1' tip' c2' stored events marks bf)
    from tips 1(3) have "tip' = BlockPosition tip" by (metis Inr_inject fst_conv)
    with 1 cfg(1) raw resolve_record_ok [OF 1(1)] show ?thesis
      by (auto simp: event_source_def indexed_stream_announced etip final_cut_def)
  qed
  then show "seg_live seg = map item_of (announced els)" "seg_cut seg = checked_sub tip (p_depth cfg)" "record_ok (seg_record seg)"
    by blast+
  have next_key: "x < k" if "sat_add x 1 \<le> k" "k \<le> tip" for x k :: u64
  proof -
    have "unat k < unat (max_val :: u64)" using that(2) tip(2) by (simp add: word_le_nat_alt word_less_nat_alt)
    with that(1) show ?thesis by (auto simp: word_le_nat_alt word_less_nat_alt unat_sat_add unat_max_val min_def split: if_splits)
  qed
  show "\<forall>(pos, e) \<in> set ys. above (map_option block_number (seg_seed seg)) (block_number pos) \<and> block_number pos \<le> tip"
    using next_key by (auto simp: ys between_def backfill_from_def above_def block_resume_key_def split: option.splits)
  show "sorted (map (\<lambda>pe. block_number (fst pe)) ys)"
    using event_source_serves [OF chain] by (simp add: ys serves_def between_def sorted_filter)
qed

end
