(* ===== verification/Collectors_Properties.thy ===== *)
theory Collectors_Properties
  imports Live_Feed
begin

text \<open>The properties of the collectors, each at a concrete input too.\<close>

section \<open>Polled blocks\<close>

text \<open>
  Property C36: the polling block collector spends at most three header fetches per announcement of a
  hash, whatever the node answers and however often hashes are re-announced, and delivers exactly
  the headers it fetched, in the order of the fetches.  A hash announced once is fetched until the
  first success, delivered then and never fetched again, or given up after the third failure, or
  still pending when the stream ends.
\<close>

theorem polled_blocks_settle:
  assumes "poll_blocks N (rq_new MAX_FETCH_ATTEMPTS) batches w = (results, out, q', w')"
  shows "out = delivered results \<and> length (fetches h results) \<le> 3 * count_list (concat batches) h \<and>
    (count_list (concat batches) h = 1 \<longrightarrow>
       (\<exists>k < 3. fetches h results = replicate k False @ [True]) \<or> fetches h results = replicate 3 False \<or>
       (\<exists>k < 3. fetches h results = replicate k False \<and> (h, k) \<in> set (rq_pending q')))"
proof (intro conjI impI)
  from poll_delivers [OF assms rq_ok_new] show "out = delivered results" by blast
  have fresh: "failures_of (rq_new MAX_FETCH_ATTEMPTS) h = None" by (simp add: failures_of_def rq_new_def)
  from poll_spends [OF assms rq_ok_new, of h] fresh show "length (fetches h results) \<le> 3 * count_list (concat batches) h"
    by (simp add: left_def)
  assume "count_list (concat batches) h = 1"
  from poll_once [OF assms rq_ok_new fresh this] obtain b bs
    where f: "fetches h results = b # bs" and r: "runs_out (counted_failures None b) bs (failures_of q' h)" by blast
  show "(\<exists>k < 3. fetches h results = replicate k False @ [True]) \<or> fetches h results = replicate 3 False \<or>
       (\<exists>k < 3. fetches h results = replicate k False \<and> (h, k) \<in> set (rq_pending q'))"
  proof (cases b)
    case True
    with f r show ?thesis by (auto simp: runs_out_def intro!: exI [of _ 0])
  next
    case False
    with r consider j where "1 + j < 3" "bs = replicate j False @ [True]" | j where "1 + j < 3" "bs = replicate j False"
        "failures_of q' h = Some (1 + j)" | "bs = replicate (3 - 1) False" by (auto simp: runs_out_def)
    then show ?thesis
    proof cases
      case (1 j)
      with f False have "fetches h results = replicate (1 + j) False @ [True]" by simp
      with 1 show ?thesis by blast
    next
      case (2 j)
      with f False have "fetches h results = replicate (1 + j) False" by simp
      moreover have "(h, 1 + j) \<in> set (rq_pending q')" using 2(3) map_of_SomeD by (fastforce simp: failures_of_def)
      ultimately show ?thesis using 2(1) by blast
    next
      case 3
      with f False show ?thesis by (simp add: numeral_3_eq_3)
    qed
  qed
qed

text \<open>A node that knows a block from its third request on; hash 9 is never found.\<close>

definition slow_node :: "(nat, nat) block_node" where
  "slow_node = \<lparr>
     subscribe_blocks = (\<lambda>w. (Err ''no pubsub'', w)),
     watch_blocks = (\<lambda>w. (Ok [[7, 9], [], [], []], w)),
     get_block = (\<lambda>h w. (if h = 7 \<and> 4 \<le> w then Ok (Some \<lparr>block_hash = 7, block_height = 70\<rparr>) else Ok None, Suc w))\<rparr>"

lemmas poll_simps = fetch_all.simps slow_node_def rq_new_def rq_due_def rq_record_failure_def rq_resolve_def
  MAX_FETCH_ATTEMPTS_def Let_def

lemma polled_blocks_settle_witness:
  "case poll_blocks slow_node (rq_new MAX_FETCH_ATTEMPTS) [[7, 9], [], [], []] 0 of (results, out, q', w') \<Rightarrow>
     map block_height out = [70] \<and> fetches 7 results = [False, False, True] \<and> fetches 9 results = [False, False, False] \<and>
     length (fetches 9 results) \<le> 3"
proof -
  obtain results out q' w' where run: "poll_blocks slow_node (rq_new MAX_FETCH_ATTEMPTS) [[7, 9], [], [], []] 0 = (results, out, q', w')"
    by (metis surj_pair)
  have "case poll_blocks slow_node (rq_new MAX_FETCH_ATTEMPTS) [[7, 9], [], [], []] 0 of (results, out, q', w') \<Rightarrow>
     map block_height out = [70] \<and> fetches 7 results = [False, False, True] \<and> fetches 9 results = [False, False, False]"
    by (simp add: poll_simps got_def)
  with run polled_blocks_settle [OF run, of 9] show ?thesis by simp
qed

section \<open>Events\<close>

text \<open>
  Property C37: the archive of a persisted event collector follows the node's chain through its
  reorganisations. Let the node answer log queries from a canonical chain that stands still up to a
  constant tip below the largest block while the gap is fetched, and let it announce the logs above
  that tip in block order, with the removals of an orphaned block before the logs of the next fork;
  undecodable logs and logs without a block may come in between. Take a live subscription over a SQL
  archive, over a lawful database whatever statements of it fail, in which no window of the gap failed and the writers did not
  halt. Then the rows it stored and the rows its window still buffers are exactly, each once and in
  order, the chain's events from the resume point to the tip and then the announced events that
  stand, that is those with no later removal at or below their block; a stored row has its event's
  block and JSON text; and when the last announcement is a log, every event still buffered is less
  than the confirmation depth below it. So an event taken back before it was that deep is never stored.
\<close>

theorem event_collector_follows_chain:
  assumes "sql_archive D DB view tview block_position_ops" and "store_sound view st"
    and "canonical chain" and "answers_logs N chain" and "\<forall>w. fst (get_block_number N w) = Ok tip" and "tip < max_val"
    and "p_to_block cfg = None" and "0 < p_chunk cfg"
    and "subscribe block_position_ops sd (sql_store block_position_ops D DB) (event_source N) cfg replayed st c = (Ok seg, c1)"
    and "seg_backfill seg c2 = Some (ys, False, c3)"
    and "raw_stream N c = (Ok els, c0)" and "announced_in_order tip tip (announced els)"
    and "persist_and_emit \<lparr>env_pos = block_position_ops, env_serde = sd, env_store = sql_store block_position_ops D DB\<rparr>
      ys (seg_live seg) (p_depth cfg) (seg_cut seg) (seg_seed seg) \<lparr>w_store = st, w_record = seg_record seg\<rparr> = (out, settled, win, w')"
    and "core_healthy (cw_core win)"
  shows "\<exists>stored buffered.
    stored @ buffered = between block_position_ops (history_of chain) (backfill_from block_position_ops cfg (seg_seed seg)) tip
      @ history_of (standing [] (announced els)) \<and>
    arc_contents (view (pool (w_store w'))) (rec_table (seg_record seg)) =
      arc_contents (view (pool st)) (rec_table (seg_record seg)) @ map (\<lambda>(q, e). (int (unat (block_number q)), event_text sd e)) stored \<and>
    map fst (ungrouped (pend_groups (cw_pending win))) = map (\<lambda>(q, e). block_number q) buffered \<and>
    (\<forall>ls event l. announced els = ls @ [(event, l)] \<and> \<not> removed l \<longrightarrow>
       (\<forall>(q, e) \<in> set buffered. block_of l < sat_add (block_number q) (p_depth cfg)))"
proof -
  note segs = live_segments [OF assms(3-11)]
  have feed: "feed_ordered block_position_ops tip tip (map item_of (announced els))" using assms(12) by (simp add: announced_feed)
  have left: "events_left block_position_ops (map item_of (announced els)) [] = history_of (standing [] (announced els))"
    using standing_left [of "announced els" "[]"] by simp
  have cell: "event_cell block_position_ops sd = (\<lambda>(q, e). (int (unat (block_number q)), event_text sd e))"
    by (auto simp: event_cell_def)
  from archive_follows_feed [OF assms(1,2) segs(4) _ assms(6) _ _ feed assms(13) [unfolded segs(2,3)] assms(14)] segs(5,6)
  obtain stored buffered where "stored @ buffered = ys @ history_of (standing [] (announced els))"
    "arc_contents (view (pool (w_store w'))) (rec_table (seg_record seg)) =
      arc_contents (view (pool st)) (rec_table (seg_record seg)) @ map (\<lambda>(q, e). (int (unat (block_number q)), event_text sd e)) stored"
    "map fst (ungrouped (pend_groups (cw_pending win))) = map (\<lambda>pe. block_number (fst pe)) buffered"
    and late: "\<forall>feed p e. map item_of (announced els) = feed @ [Event p e] \<longrightarrow>
      (\<forall>pe \<in> set buffered. block_number p < sat_add (block_number (fst pe)) (p_depth cfg))"
    by (auto simp: left cell)
  moreover have "\<forall>(q, e) \<in> set buffered. block_of l < sat_add (block_number q) (p_depth cfg)"
    if "announced els = ls @ [(event, l)] \<and> \<not> removed l" for ls event l
    using late [rule_format, of "map item_of ls" "BlockPosition (block_of l)" event] that by (auto simp: case_prod_beta)
  ultimately show ?thesis
    unfolding segs(1) [symmetric] by (intro exI [of _ stored] exI [of _ buffered]) (auto simp: case_prod_beta')
qed

text \<open>
  A node over HTTP at block 5, with one log on the chain: it announces a log of block 6 and takes it
  back, then another one of block 6 and one of block 8; depth 2, an empty SQLite archive.
\<close>

definition reorg_logs :: "(string + string \<times> log) list" where
  "reorg_logs = [Ok (''c'', \<lparr>log_block = Some 6, removed = False\<rparr>), Err ''bad topic'',
     Ok (''c'', \<lparr>log_block = Some 6, removed = True\<rparr>), Ok (''z'', \<lparr>log_block = None, removed = False\<rparr>),
     Ok (''d'', \<lparr>log_block = Some 6, removed = False\<rparr>), Ok (''e'', \<lparr>log_block = Some 8, removed = False\<rparr>)]"

definition short_chain :: "(string \<times> log) list" where
  "short_chain = [(''a'', \<lparr>log_block = Some 3, removed = False\<rparr>)]"

definition http_node :: "(string, nat) event_node" where
  "http_node = \<lparr>
     subscribe_events = (\<lambda>w. (Err ''no pubsub'', w)),
     watch_events = (\<lambda>w. (Ok reorg_logs, w)),
     query_events = (\<lambda>a b w. (Ok (filter (\<lambda>(event, l). a \<le> the (log_block l) \<and> the (log_block l) \<le> b) short_chain), w)),
     get_block_number = (\<lambda>w. (Ok 5, w))\<rparr>"

definition event_cfg :: persisted where
  "event_cfg = with_confirmation_depth 2 (with_backfill_chunk_size 20 (with_start_block 1 (with_table ''ev'' persisted_new)))"

lemma http_node_canonical: "canonical short_chain" "answers_logs http_node short_chain"
  by (simp_all add: canonical_def answers_logs_def http_node_def short_chain_def)

lemma reorg_announced: "announced reorg_logs = [(''c'', \<lparr>log_block = Some 6, removed = False\<rparr>), (''c'', \<lparr>log_block = Some 6, removed = True\<rparr>),
    (''d'', \<lparr>log_block = Some 6, removed = False\<rparr>), (''e'', \<lparr>log_block = Some 8, removed = False\<rparr>)]"
  by (simp add: announced_def reorg_logs_def map_filter_simps)

lemmas event_cfg_simps = event_cfg_def with_backfill_chunk_size_def with_start_block_def with_table_def with_confirmation_depth_def persisted_new_def

abbreviation sqlite_ev :: "(block_position, mem_disk sql_store) store_ops" where
  "sqlite_ev \<equiv> sql_store block_position_ops sqlite_dialect (mem_db no_faults)"

definition reorg_segments :: "(block_position, string, nat) segments" where
  "reorg_segments = \<lparr>seg_replay = [], seg_marks = False,
     seg_backfill = (\<lambda>c. Option.bind (chunk_loop block_position_ops (event_source http_node) 5 20 6 c)
       (\<lambda>(ys, poison, c). Some ((BlockPosition 3, ''a'') # ys, poison, c))),
     seg_live = tail_live, seg_record = record_inferred ''ev'', seg_cut = Some 3, seg_seed = None\<rparr>"

lemma http_node_ops:
  "raw_stream http_node c = (Ok reorg_logs, c)" "source_tip (event_source http_node) c = (Ok (BlockPosition 5), c)"
  "subscribe_indexed (event_source http_node) c = (Ok tail_live, c)"
  "query_range (event_source http_node) (BlockPosition 1) (BlockPosition 5) c = (Ok [(BlockPosition 3, ''a'')], c)"
  by (simp_all add: raw_stream_def subscribe_or_poll_def http_node_def event_source_def event_tip_def indexed_stream_announced
      reorg_announced tail_live_def item_of_def block_of_def event_query_range_def subscribe_filter_mapped_def short_chain_def
      indexed_event_def live_item_def map_filter_simps)

lemma reorg_subscribes: "subscribe block_position_ops demo_serde sqlite_ev (event_source http_node) event_cfg True blank_archive 0 = (Ok reorg_segments, 0)"
proof -
  have "stored_position sqlite_ev ''ev'' blank_archive = Ok None"
    by (simp add: sql_store_def sql_stored_position_def mem_db_def blank_archive_def sql_store_new_def)
  moreover have "rec_table (record_inferred ''ev'') = ''ev''" by (simp add: record_inferred_def)
  ultimately show ?thesis
    by (simp add: subscribe_def event_cfg_simps resolve_record_def http_node_ops effective_tip_def replay_segment_def backfill_segment_def
        backfill_from_def chunked_query_def window_end_def sat_add_def query_range_split.simps final_cut_def checked_sub_def
        reorg_segments_def del: chunk_loop.simps)
qed

lemma reorg_gap: "seg_backfill reorg_segments 0 = Some (tail_backfill, False, 0)"
  by (simp add: reorg_segments_def chunk_loop.simps tail_backfill_def)

lemma event_collector_follows_chain_witness:
  "case persist_and_emit sqlite_env tail_backfill tail_live 2 (checked_sub 5 2) None sqlite_world of
     (out, settled, win, w') \<Rightarrow>
       history_of (standing [] (announced reorg_logs)) = [(BlockPosition 6, ''d''), (BlockPosition 8, ''e'')] \<and>
       arc_contents (disk (pool (w_store w'))) ''ev'' = [(3, ''ja''), (6, ''jd'')] \<and>
       map fst (ungrouped (pend_groups (cw_pending win))) = [8]"
proof -
  obtain out settled win w' where run:
    "persist_and_emit sqlite_env tail_backfill tail_live 2 (checked_sub 5 2) None sqlite_world = (out, settled, win, w')"
    by (metis surj_pair)
  then have healthy: "core_healthy (cw_core win)" and pend: "map fst (ungrouped (pend_groups (cw_pending win))) = [8]"
    by (auto simp: sqlite_run)
  have tip: "(5 :: u64) < max_val" "\<forall>w. fst (get_block_number http_node w) = Ok 5"
    and cfg: "p_to_block event_cfg = None" "0 < p_chunk event_cfg" "p_depth event_cfg = 2"
    by (simp_all add: max_val_def http_node_def event_cfg_simps)
  have order: "announced_in_order 5 5 (announced reorg_logs)" and stands: "history_of (standing [] (announced reorg_logs)) =
      [(BlockPosition 6, ''d''), (BlockPosition 8, ''e'')]"
    by (simp_all add: reorg_announced block_of_def sat_sub_def)
  have segs: "seg_live reorg_segments = tail_live" "seg_cut reorg_segments = checked_sub 5 2" "seg_seed reorg_segments = None"
    "seg_record reorg_segments = record_inferred ''ev''" "rec_table (record_inferred ''ev'') = ''ev''"
    by (simp_all add: reorg_segments_def checked_sub_def record_inferred_def)
  have gap: "between block_position_ops (history_of short_chain) (backfill_from block_position_ops event_cfg None) 5 = [(BlockPosition 3, ''a'')]"
    by (simp add: short_chain_def block_of_def between_def backfill_from_def event_cfg_simps)
  have run': "persist_and_emit \<lparr>env_pos = block_position_ops, env_serde = demo_serde, env_store = sqlite_ev\<rparr> tail_backfill
      (seg_live reorg_segments) (p_depth event_cfg) (seg_cut reorg_segments) (seg_seed reorg_segments)
      \<lparr>w_store = blank_archive, w_record = seg_record reorg_segments\<rparr> = (out, settled, win, w')"
    using run by (simp add: segs cfg sqlite_env_def sqlite_world_def)
  from event_collector_follows_chain [OF mem_sqlite.sql_archive_axioms blank_archive_sound http_node_canonical tip(2,1) cfg(1,2)
      reorg_subscribes reorg_gap http_node_ops(1) order run' healthy]
  obtain stored buffered where es: "stored @ buffered = [(BlockPosition 3, ''a''), (BlockPosition 6, ''d''), (BlockPosition 8, ''e'')]"
    and table: "arc_contents (disk (pool (w_store w'))) ''ev'' =
      arc_contents (disk (pool blank_archive)) ''ev'' @ map (\<lambda>(q, e). (int (unat (block_number q)), event_text demo_serde e)) stored"
    and buf: "map fst (ungrouped (pend_groups (cw_pending win))) = map (\<lambda>(q, e). block_number q) buffered"
    unfolding segs stands gap by auto
  from buf pend have "length buffered = 1" by (metis length_map length_Cons list.size(3) One_nat_def)
  with es have "stored = [(BlockPosition 3, ''a''), (BlockPosition 6, ''d'')]"
    by (cases buffered rule: rev_cases) auto
  with table pend stands run show ?thesis
    by (simp add: arc_contents_def blank_archive_def sql_store_new_def event_text_def demo_serde_def)
qed

end
