(* ===== verification/Serving.thy ===== *)
theory Serving
  imports Sql_Store
begin

text \<open>
  The read-only serving layer below its routes: errors (\<open>src/src/serving/error.rs\<close>), query parameters
  and pages (\<open>rows.rs\<close>), cells as JSON (\<open>json.rs\<close>), the SQLite catalogue (\<open>catalog.rs\<close>) and the two
  storage backends (\<open>backend.rs\<close>).

  The read-only pool of sqlx is a dictionary: a statement with its arguments gives an error or rows
  and may find the database changed by its writer. Rows are read through the \<open>Cell\<close> trait. What
  \<open>serde_json\<close> makes of a number or a text is the dictionary \<open>serde_json\<close>. Strings are ASCII.
\<close>

section \<open>Errors\<close>

text \<open>An \<open>anyhow::Error\<close> is its chain of messages; a call may also panic.\<close>

type_synonym anyhow = "string list"

datatype 'a call = Gives 'a | Fails anyhow | Panics

definition context_msg :: "string \<Rightarrow> anyhow + 'a \<Rightarrow> anyhow + 'a" where
  "context_msg m r = map_err (\<lambda>e. m # e) r"

definition sqlx_anyhow :: "sqlx_error \<Rightarrow> anyhow" where
  "sqlx_anyhow e = [sqlx_message e]"

fun called :: "anyhow + 'a \<Rightarrow> 'a call" where
  "called (Err e) = Fails e"
| "called (Ok a) = Gives a"

datatype serving_error = UnknownTable string | InvalidQuery string | Database anyhow | Unavailable

fun error_response :: "serving_error \<Rightarrow> nat \<times> string" where
  "error_response (UnknownTable table) = (404, ''unknown table: '' @ table)"
| "error_response (InvalidQuery param) = (400, ''invalid query parameter: '' @ param)"
| "error_response (Database e) = (500, ''database error'')"
| "error_response Unavailable = (503, ''database unavailable'')"

section \<open>Query parameters\<close>

record rows_query_params =
  q_from_block :: "string option"
  q_to_block :: "string option"
  q_limit :: "string option"
  q_offset :: "string option"

record bounds =
  b_from_block :: u64
  b_to_block :: u64
  b_limit :: u64
  b_offset :: u64

definition is_space :: "char \<Rightarrow> bool" where
  "is_space c \<longleftrightarrow> (let n = (of_char c :: nat) in 9 \<le> n \<and> n \<le> 13 \<or> n = 32)"

definition trim :: "string \<Rightarrow> string" where
  "trim s = rev (dropWhile is_space (rev (dropWhile is_space s)))"

definition parse_param :: "string \<Rightarrow> string option \<Rightarrow> u64 \<Rightarrow> serving_error + u64" where
  "parse_param name raw default_value =
     (case raw of
        None \<Rightarrow> Ok default_value
      | Some s \<Rightarrow> map_err (\<lambda>_. InvalidQuery name) (parse_u64 (trim s)))"

text \<open>\<open>Ord::clamp\<close>, which panics unless the lower bound is at most the upper one.\<close>

definition clamp :: "u64 \<Rightarrow> u64 \<Rightarrow> u64 \<Rightarrow> u64" where
  "clamp x lo hi = (if x < lo then lo else if hi < x then hi else x)"

definition MAX_BIND :: u64 where
  "MAX_BIND = 0x7FFFFFFFFFFFFFFF"

definition resolve :: "rows_query_params \<Rightarrow> u64 \<Rightarrow> u64 \<Rightarrow> serving_error + bounds" where
  "resolve q default_limit max_limit =
     bind_res (parse_param ''from_block'' (q_from_block q) 0) (\<lambda>from_block.
     bind_res (parse_param ''to_block'' (q_to_block q) MAX_BIND) (\<lambda>to_block.
     bind_res (parse_param ''limit'' (q_limit q) default_limit) (\<lambda>limit.
     bind_res (parse_param ''offset'' (q_offset q) 0) (\<lambda>offset.
       Ok \<lparr>b_from_block = min from_block MAX_BIND, b_to_block = min to_block MAX_BIND,
           b_limit = clamp limit 1 (clamp max_limit 1 MAX_BIND), b_offset = min offset MAX_BIND\<rparr>))))"

text \<open>\<open>w as i64\<close> and \<open>i as u64\<close>.\<close>

definition as_i64_cast :: "u64 \<Rightarrow> i64" where
  "as_i64_cast w = sint w"

definition as_u64_cast :: "i64 \<Rightarrow> u64" where
  "as_u64_cast i = word_of_int i"

definition bounds_args :: "bounds \<Rightarrow> sql_value list" where
  "bounds_args b = [Integer (as_i64_cast (b_from_block b)), Integer (as_i64_cast (b_to_block b)),
     Integer (as_i64_cast (b_limit b)), Integer (as_i64_cast (b_offset b))]"

section \<open>Cells as JSON\<close>

record 'r cells =
  try_i64 :: "'r \<Rightarrow> string \<Rightarrow> anyhow + i64 option"
  try_f64 :: "'r \<Rightarrow> string \<Rightarrow> anyhow + f64 option"
  try_bytes :: "'r \<Rightarrow> string \<Rightarrow> anyhow + 8 word list option"
  try_string :: "'r \<Rightarrow> string \<Rightarrow> anyhow + string option"

record serde_json =
  number_of_i64 :: "i64 \<Rightarrow> json_number"
  number_of_f64 :: "f64 \<Rightarrow> json_number option"
  value_of_str :: "string \<Rightarrow> json option"

definition upper_char :: "char \<Rightarrow> char" where
  "upper_char c = (let n = (of_char c :: nat) in if 97 \<le> n \<and> n \<le> 122 then char_of (n - 32) else c)"

definition to_ascii_uppercase :: "string \<Rightarrow> string" where
  "to_ascii_uppercase s = map upper_char s"

definition hex_char :: "nat \<Rightarrow> char" where
  "hex_char d = (if d < 10 then char_of (48 + d) else char_of (87 + d))"

definition hex_byte :: "8 word \<Rightarrow> string" where
  "hex_byte b = [hex_char (unat b div 16), hex_char (unat b mod 16)]"

definition to_hex :: "8 word list \<Rightarrow> string" where
  "to_hex bytes = ''0x'' @ concat (map hex_byte bytes)"

definition parse_payload :: "serde_json \<Rightarrow> string \<Rightarrow> json" where
  "parse_payload J raw = (case value_of_str J raw of Some v \<Rightarrow> v | None \<Rightarrow> JString raw)"

definition cell_to_json :: "serde_json \<Rightarrow> 'r cells \<Rightarrow> 'r \<Rightarrow> string \<Rightarrow> string \<Rightarrow> anyhow + json" where
  "cell_to_json J C r name ty =
     (let ty = to_ascii_uppercase ty in
      if ty = ''INTEGER'' then
        bind_res (try_i64 C r name) (\<lambda>cell. Ok (case cell of Some i \<Rightarrow> JNumber (number_of_i64 J i) | None \<Rightarrow> JNull))
      else if ty = ''REAL'' then
        bind_res (try_f64 C r name) (\<lambda>cell. Ok (case cell of
            Some f \<Rightarrow> (case number_of_f64 J f of Some n \<Rightarrow> JNumber n | None \<Rightarrow> JNull)
          | None \<Rightarrow> JNull))
      else if ty = ''BLOB'' then
        bind_res (try_bytes C r name) (\<lambda>cell. Ok (case cell of Some bytes \<Rightarrow> JString (to_hex bytes) | None \<Rightarrow> JNull))
      else
        bind_res (try_string C r name) (\<lambda>cell. Ok (case cell of
            Some s \<Rightarrow> if name = PAYLOAD_COLUMN then parse_payload J s else JString s
          | None \<Rightarrow> JNull)))"

text \<open>A \<open>serde_json::Map\<close> is a \<open>BTreeMap\<close>.\<close>

type_synonym json_object = "(string, json) btree"

fun fill_object ::
  "serde_json \<Rightarrow> 'r cells \<Rightarrow> 'r \<Rightarrow> (string \<times> string) list \<Rightarrow> json_object \<Rightarrow> anyhow + json_object" where
  "fill_object J C r [] obj = Ok obj"
| "fill_object J C r ((name, ty) # columns) obj =
     bind_res (cell_to_json J C r name ty) (\<lambda>v. fill_object J C r columns (bt_insert name v obj))"

definition row_to_json :: "serde_json \<Rightarrow> 'r cells \<Rightarrow> (string \<times> string) list \<Rightarrow> 'r \<Rightarrow> anyhow + json_object" where
  "row_to_json J C columns r = fill_object J C r columns []"

section \<open>Reads on the pool\<close>

record ('r, 'w) ro_pool =
  fetch_rows :: "string \<Rightarrow> sql_value list \<Rightarrow> 'w \<Rightarrow> (sqlx_error + 'r list) \<times> 'w"

text \<open>A fetch whose error ends the call through \<open>?\<close>.\<close>

definition fetch_with :: "('r, 'w) ro_pool \<Rightarrow> string \<Rightarrow> sql_value list \<Rightarrow> ('r list \<Rightarrow> 'a call) \<Rightarrow> 'w \<Rightarrow> 'a call \<times> 'w" where
  "fetch_with pl sql args f w =
     (case fetch_rows pl sql args w of (Err e, w') \<Rightarrow> (Fails (sqlx_anyhow e), w') | (Ok rows, w') \<Rightarrow> (f rows, w'))"

text \<open>\<open>row.get\<close> panics where \<open>try_get\<close> fails.\<close>

definition get_string :: "'r cells \<Rightarrow> 'r \<Rightarrow> string \<Rightarrow> string option" where
  "get_string C r name = (case try_string C r name of Ok (Some s) \<Rightarrow> Some s | _ \<Rightarrow> None)"

definition get_i64 :: "'r cells \<Rightarrow> 'r \<Rightarrow> string \<Rightarrow> i64 option" where
  "get_i64 C r name = (case try_i64 C r name of Ok (Some i) \<Rightarrow> Some i | _ \<Rightarrow> None)"

definition both :: "'a option \<Rightarrow> 'b option \<Rightarrow> ('a \<times> 'b) option" where
  "both a b = (case (a, b) of (Some x, Some y) \<Rightarrow> Some (x, y) | _ \<Rightarrow> None)"

definition gathered :: "('r \<Rightarrow> 'a option) \<Rightarrow> 'r list \<Rightarrow> 'a list call" where
  "gathered g rows = (case those (map g rows) of Some xs \<Rightarrow> Gives xs | None \<Rightarrow> Panics)"

definition watermarks_of :: "dialect \<Rightarrow> ('r, 'w) ro_pool \<Rightarrow> 'r cells \<Rightarrow> string \<Rightarrow> 'w \<Rightarrow> (string \<times> i64) list call \<times> 'w" where
  "watermarks_of D pl C sql w =
     (case fetch_rows pl sql [] w of
        (Ok rows, w') \<Rightarrow> (gathered (\<lambda>r. both (get_string C r ''table_name'') (get_i64 C r ''last_block'')) rows, w')
      | (Err e, w') \<Rightarrow> (if is_undefined_table D e then Gives [] else Fails (sqlx_anyhow e), w'))"

definition health_probe :: "('r, 'w) ro_pool \<Rightarrow> 'w \<Rightarrow> unit call \<times> 'w" where
  "health_probe pl = fetch_with pl ''SELECT 1'' []
     (\<lambda>rows. if rows = [] then Fails [''no rows returned by a query that expected to return at least one row''] else Gives ())"

text \<open>A page: the columns first, then the range query, every row decoded by its columns.\<close>

definition page_of ::
  "serde_json \<Rightarrow> 'r cells \<Rightarrow> ('r, 'w) ro_pool \<Rightarrow> string \<Rightarrow> ('w \<Rightarrow> (string \<times> string) list call \<times> 'w) \<Rightarrow> bounds
     \<Rightarrow> 'w \<Rightarrow> json_object list call \<times> 'w" where
  "page_of J C pl sql table_columns b w =
     (case table_columns w of
        (Gives columns, w') \<Rightarrow>
          fetch_with pl sql (bounds_args b) (\<lambda>rows. called (collect_res (map (row_to_json J C columns) rows))) w'
      | (Fails e, w') \<Rightarrow> (Fails e, w')
      | (Panics, w') \<Rightarrow> (Panics, w'))"

section \<open>The SQLite catalogue\<close>

definition LIST_TABLES_SQL :: string where
  "LIST_TABLES_SQL =
     ''SELECT name FROM sqlite_master WHERE type = 'table' AND name <> ? AND name NOT LIKE 'sqlite_%' ORDER BY name''"

definition list_tables :: "('r, 'w) ro_pool \<Rightarrow> 'r cells \<Rightarrow> 'w \<Rightarrow> string list call \<times> 'w" where
  "list_tables pl C = fetch_with pl LIST_TABLES_SQL [Text PROGRESS_TABLE] (gathered (\<lambda>r. get_string C r ''name''))"

definition TABLE_EXISTS_SQL :: string where
  "TABLE_EXISTS_SQL =
     ''SELECT 1 FROM sqlite_master WHERE type = 'table' AND name = ? AND name <> ? AND name NOT LIKE 'sqlite_%'' @ [CHR 0x27]"

definition table_exists :: "('r, 'w) ro_pool \<Rightarrow> string \<Rightarrow> 'w \<Rightarrow> bool call \<times> 'w" where
  "table_exists pl table = fetch_with pl TABLE_EXISTS_SQL [Text table, Text PROGRESS_TABLE] (\<lambda>rows. Gives (rows \<noteq> []))"

definition normalize_type :: "string \<Rightarrow> string" where
  "normalize_type declared =
     (let up = to_ascii_uppercase declared in if up = ''NUMERIC'' then ''TEXT'' else up)"

definition table_info_sql :: "string \<Rightarrow> string" where
  "table_info_sql table = ''PRAGMA table_info('' @ quote_ident table @ '')''"

definition table_columns :: "('r, 'w) ro_pool \<Rightarrow> 'r cells \<Rightarrow> string \<Rightarrow> 'w \<Rightarrow> (string \<times> string) list call \<times> 'w" where
  "table_columns pl C table = fetch_with pl (table_info_sql table) []
     (gathered (\<lambda>r. both (get_string C r ''name'') (map_option normalize_type (get_string C r ''type''))))"

definition WATERMARKS_SQL :: string where
  "WATERMARKS_SQL = ''SELECT table_name, last_block FROM _artemis_progress ORDER BY table_name''"

definition table_watermarks :: "('r, 'w) ro_pool \<Rightarrow> 'r cells \<Rightarrow> 'w \<Rightarrow> (string \<times> i64) list call \<times> 'w" where
  "table_watermarks pl C = watermarks_of sqlite_dialect pl C WATERMARKS_SQL"

definition query_rows ::
  "serde_json \<Rightarrow> ('r, 'w) ro_pool \<Rightarrow> 'r cells \<Rightarrow> string \<Rightarrow> bounds \<Rightarrow> 'w \<Rightarrow> json_object list call \<times> 'w" where
  "query_rows J pl C table = page_of J C pl (range_query table None sqlite_dialect) (table_columns pl C table)"

section \<open>The PostgreSQL catalogue\<close>

definition PG_LIST_TABLES_SQL :: string where
  "PG_LIST_TABLES_SQL = ''SELECT table_name FROM information_schema.tables WHERE table_schema = 'public' '' @
     ''AND table_type = 'BASE TABLE' AND table_name <> $1 ORDER BY table_name''"

definition PG_TABLE_EXISTS_SQL :: string where
  "PG_TABLE_EXISTS_SQL = ''SELECT 1 FROM information_schema.tables WHERE table_schema = 'public' '' @
     ''AND table_type = 'BASE TABLE' AND table_name = $1 AND table_name <> $2''"

definition PG_TABLE_COLUMNS_SQL :: string where
  "PG_TABLE_COLUMNS_SQL = ''SELECT column_name, data_type FROM information_schema.columns '' @
     ''WHERE table_schema = 'public' AND table_name = $1 ORDER BY ordinal_position''"

definition watermarks_sql :: string where
  "watermarks_sql = ''SELECT table_name, last_block FROM public.'' @ PROGRESS_TABLE @ '' ORDER BY table_name''"

definition range_query_public :: "string \<Rightarrow> string" where
  "range_query_public table = range_query table (Some ''public'') pg_dialect"

definition pg_normalize_type :: "string \<Rightarrow> string" where
  "pg_normalize_type data_type =
     (if data_type = ''bigint'' then ''INTEGER''
      else if data_type = ''double precision'' then ''REAL''
      else if data_type = ''bytea'' then ''BLOB''
      else if data_type = ''text'' then ''TEXT''
      else to_ascii_uppercase data_type)"

definition pg_list_tables :: "('r, 'w) ro_pool \<Rightarrow> 'r cells \<Rightarrow> 'w \<Rightarrow> string list call \<times> 'w" where
  "pg_list_tables pl C = fetch_with pl PG_LIST_TABLES_SQL [Text PROGRESS_TABLE] (gathered (\<lambda>r. get_string C r ''table_name''))"

definition pg_table_exists :: "('r, 'w) ro_pool \<Rightarrow> string \<Rightarrow> 'w \<Rightarrow> bool call \<times> 'w" where
  "pg_table_exists pl table = fetch_with pl PG_TABLE_EXISTS_SQL [Text table, Text PROGRESS_TABLE] (\<lambda>rows. Gives (rows \<noteq> []))"

definition pg_table_columns :: "('r, 'w) ro_pool \<Rightarrow> 'r cells \<Rightarrow> string \<Rightarrow> 'w \<Rightarrow> (string \<times> string) list call \<times> 'w" where
  "pg_table_columns pl C table = fetch_with pl PG_TABLE_COLUMNS_SQL [Text table]
     (gathered (\<lambda>r. both (get_string C r ''column_name'') (map_option pg_normalize_type (get_string C r ''data_type''))))"

definition pg_query_rows ::
  "serde_json \<Rightarrow> ('r, 'w) ro_pool \<Rightarrow> 'r cells \<Rightarrow> string \<Rightarrow> bounds \<Rightarrow> 'w \<Rightarrow> json_object list call \<times> 'w" where
  "pg_query_rows J pl C table = page_of J C pl (range_query_public table) (pg_table_columns pl C table)"

section \<open>The backends\<close>

record 'w serving_backend =
  sb_health :: "'w \<Rightarrow> unit call \<times> 'w"
  sb_list_tables :: "'w \<Rightarrow> string list call \<times> 'w"
  sb_table_exists :: "string \<Rightarrow> 'w \<Rightarrow> bool call \<times> 'w"
  sb_table_columns :: "string \<Rightarrow> 'w \<Rightarrow> (string \<times> string) list call \<times> 'w"
  sb_query_rows :: "string \<Rightarrow> bounds \<Rightarrow> 'w \<Rightarrow> json_object list call \<times> 'w"
  sb_watermarks :: "'w \<Rightarrow> (string \<times> i64) list call \<times> 'w"

definition sqlite_backend :: "serde_json \<Rightarrow> 'r cells \<Rightarrow> ('r, 'w) ro_pool \<Rightarrow> 'w serving_backend" where
  "sqlite_backend J C pl = \<lparr>
     sb_health = health_probe pl,
     sb_list_tables = list_tables pl C,
     sb_table_exists = table_exists pl,
     sb_table_columns = table_columns pl C,
     sb_query_rows = query_rows J pl C,
     sb_watermarks = table_watermarks pl C\<rparr>"

definition pg_backend :: "serde_json \<Rightarrow> 'r cells \<Rightarrow> ('r, 'w) ro_pool \<Rightarrow> 'w serving_backend" where
  "pg_backend J C pl = \<lparr>
     sb_health = health_probe pl,
     sb_list_tables = pg_list_tables pl C,
     sb_table_exists = pg_table_exists pl,
     sb_table_columns = pg_table_columns pl C,
     sb_query_rows = pg_query_rows J pl C,
     sb_watermarks = watermarks_of pg_dialect pl C watermarks_sql\<rparr>"

end
