(* ===== verification/Serving_Routes.thy ===== *)
theory Serving_Routes
  imports Serving
begin

text \<open>
  The routes of the serving layer (\<open>src/src/serving/routes.rs\<close>), its builder and the choice of a
  backend (\<open>mod.rs\<close>), and the opening of a read-only SQLite pool (\<open>pool.rs\<close>).

  A handler gives a response, or none when it panics. What axum does with a request before its
  handler and with a body after it, and what sqlx does to connect, are left to them; connecting is
  the dictionary \<open>drivers\<close>.
\<close>

section \<open>Responses\<close>

datatype body =
    Health_body string
  | Tables_body "string list"
  | Schema_body string "(string \<times> string) list"
  | Rows_body "json_object list" u64 u64
  | Status_body "(string \<times> u64) list"
  | Error_body string

type_synonym response = "nat \<times> body"

definition into_response :: "serving_error \<Rightarrow> response" where
  "into_response e = (case error_response e of (status, message) \<Rightarrow> (status, Error_body message))"

definition database_error :: "anyhow \<Rightarrow> response" where
  "database_error e = into_response (Database e)"

fun respond :: "('a \<Rightarrow> response) \<Rightarrow> 'a call \<times> 'w \<Rightarrow> response option \<times> 'w" where
  "respond f (Gives a, w) = (Some (f a), w)"
| "respond f (Fails e, w) = (Some (database_error e), w)"
| "respond f (Panics, w) = (None, w)"

section \<open>Handlers\<close>

record app_state =
  st_default_limit :: u64
  st_max_limit :: u64

definition get_health_handler :: "'w serving_backend \<Rightarrow> 'w \<Rightarrow> response option \<times> 'w" where
  "get_health_handler B w =
     (case sb_health B w of
        (Gives _, w') \<Rightarrow> (Some (200, Health_body ''ok''), w')
      | (Fails e, w') \<Rightarrow> (Some (into_response Unavailable), w')
      | (Panics, w') \<Rightarrow> (None, w'))"

definition list_tables_handler :: "'w serving_backend \<Rightarrow> 'w \<Rightarrow> response option \<times> 'w" where
  "list_tables_handler B w = respond (\<lambda>tables. (200, Tables_body tables)) (sb_list_tables B w)"

text \<open>The guard of the two table routes.\<close>

definition guarded :: "'w serving_backend \<Rightarrow> string \<Rightarrow> ('w \<Rightarrow> response option \<times> 'w) \<Rightarrow> 'w \<Rightarrow> response option \<times> 'w" where
  "guarded B table rest w =
     (case sb_table_exists B table w of
        (Gives True, w') \<Rightarrow> rest w'
      | (Gives False, w') \<Rightarrow> (Some (into_response (UnknownTable table)), w')
      | (Fails e, w') \<Rightarrow> (Some (database_error e), w')
      | (Panics, w') \<Rightarrow> (None, w'))"

definition get_schema_handler :: "'w serving_backend \<Rightarrow> string \<Rightarrow> 'w \<Rightarrow> response option \<times> 'w" where
  "get_schema_handler B table =
     guarded B table (\<lambda>w. respond (\<lambda>cols. (200, Schema_body table cols)) (sb_table_columns B table w))"

definition query_rows_handler ::
  "'w serving_backend \<Rightarrow> app_state \<Rightarrow> string \<Rightarrow> rows_query_params \<Rightarrow> 'w \<Rightarrow> response option \<times> 'w" where
  "query_rows_handler B st table params =
     guarded B table (\<lambda>w.
       (case resolve params (st_default_limit st) (st_max_limit st) of
          Err e \<Rightarrow> (Some (into_response e), w)
        | Ok b \<Rightarrow> respond (\<lambda>rows. (200, Rows_body rows (b_limit b) (b_offset b))) (sb_query_rows B table b w)))"

definition get_status_handler :: "'w serving_backend \<Rightarrow> 'w \<Rightarrow> response option \<times> 'w" where
  "get_status_handler B w =
     respond (\<lambda>watermarks. (200, Status_body (map (\<lambda>(table, last_block). (table, as_u64_cast last_block)) watermarks)))
       (sb_watermarks B w)"

text \<open>The routes by the segments of the path; a path without a route is axum's to answer.\<close>

definition router ::
  "'w serving_backend \<Rightarrow> app_state \<Rightarrow> string list \<Rightarrow> rows_query_params \<Rightarrow> ('w \<Rightarrow> response option \<times> 'w) option" where
  "router B st path params =
     (case path of
        [a] \<Rightarrow>
          if a = ''health'' then Some (get_health_handler B)
          else if a = ''tables'' then Some (list_tables_handler B)
          else if a = ''status'' then Some (get_status_handler B)
          else None
      | [a, table, c] \<Rightarrow>
          if a = ''tables'' \<and> c = ''schema'' then Some (get_schema_handler B table)
          else if a = ''tables'' \<and> c = ''rows'' then Some (query_rows_handler B st table params)
          else None
      | _ \<Rightarrow> None)"

section \<open>The read-only pool\<close>

record sqlite_options =
  opt_url :: string
  opt_read_only :: bool
  opt_create_if_missing :: bool
  opt_busy_timeout :: nat

text \<open>
  Connecting: \<open>SqliteConnectOptions::from_str\<close>, the two pools with the number of connections, and for
  PostgreSQL the statements every new connection runs.
\<close>

record ('s, 'p, 'w) drivers =
  sqlite_from_str :: "string \<Rightarrow> anyhow + sqlite_options"
  sqlite_connect :: "sqlite_options \<Rightarrow> u32 \<Rightarrow> 'w \<Rightarrow> (anyhow + 's) \<times> 'w"
  pg_connect :: "string list \<Rightarrow> string \<Rightarrow> u32 \<Rightarrow> 'w \<Rightarrow> (anyhow + 'p) \<times> 'w"

definition starts_with :: "string \<Rightarrow> string \<Rightarrow> bool" where
  "starts_with p s \<longleftrightarrow> take (length p) s = p"

definition strip_prefix :: "string \<Rightarrow> string \<Rightarrow> string option" where
  "strip_prefix p s = (if starts_with p s then Some (drop (length p) s) else None)"

definition sqlite_path :: "string \<Rightarrow> string" where
  "sqlite_path url =
     (case strip_prefix ''sqlite://'' url of
        Some path \<Rightarrow> path
      | None \<Rightarrow> (case strip_prefix ''sqlite:'' url of Some path \<Rightarrow> path | None \<Rightarrow> url))"

definition open_read_only_pool :: "('s, 'p, 'w) drivers \<Rightarrow> string \<Rightarrow> u32 \<Rightarrow> 'w \<Rightarrow> (anyhow + 's) \<times> 'w" where
  "open_read_only_pool N url max_connections w =
     (let path = sqlite_path url in
      if path = '':memory:'' \<or> contains_str ''mode=memory'' path
      then (Err [''in-memory databases are not supported by the serving layer''], w)
      else
        (case sqlite_from_str N url of
           Err e \<Rightarrow> (Err e, w)
         | Ok opts \<Rightarrow>
             sqlite_connect N (opts\<lparr>opt_read_only := True, opt_create_if_missing := False, opt_busy_timeout := 5 * 10 ^ 9\<rparr>)
               max_connections w))"

definition connect_pg_backend :: "('s, 'p, 'w) drivers \<Rightarrow> string \<Rightarrow> u32 \<Rightarrow> 'w \<Rightarrow> (anyhow + 'p) \<times> 'w" where
  "connect_pg_backend N url max_connections = pg_connect N [''SET default_transaction_read_only = on''] url max_connections"

section \<open>The layer\<close>

datatype 'p backend_source = Url string | InjectedPg 'p

record 'p serving_layer =
  sl_source :: "'p backend_source"
  sl_addr :: string
  sl_max_connections :: u32
  sl_default_limit :: u64
  sl_max_limit :: u64

definition with_source :: "'p backend_source \<Rightarrow> string \<Rightarrow> 'p serving_layer" where
  "with_source src addr = \<lparr>sl_source = src, sl_addr = addr, sl_max_connections = 4, sl_default_limit = 100, sl_max_limit = 1000\<rparr>"

definition serving_layer_new :: "string \<Rightarrow> string \<Rightarrow> 'p serving_layer" where
  "serving_layer_new database_url addr = with_source (Url database_url) addr"

definition from_pg_pool :: "'p \<Rightarrow> string \<Rightarrow> 'p serving_layer" where
  "from_pg_pool p addr = with_source (InjectedPg p) addr"

definition with_max_connections :: "u32 \<Rightarrow> 'p serving_layer \<Rightarrow> 'p serving_layer" where
  "with_max_connections n l = l\<lparr>sl_max_connections := n\<rparr>"

definition with_default_limit :: "u64 \<Rightarrow> 'p serving_layer \<Rightarrow> 'p serving_layer" where
  "with_default_limit n l = l\<lparr>sl_default_limit := n\<rparr>"

definition with_max_limit :: "u64 \<Rightarrow> 'p serving_layer \<Rightarrow> 'p serving_layer" where
  "with_max_limit n l = l\<lparr>sl_max_limit := n\<rparr>"

datatype ('s, 'p) opened = Sqlite_pool 's | Pg_pool 'p

text \<open>\<open>build_backend\<close>, with the \<open>postgres\<close> feature on or off.\<close>

definition build_backend ::
  "('s, 'p, 'w) drivers \<Rightarrow> bool \<Rightarrow> 'p serving_layer \<Rightarrow> 'w \<Rightarrow> (anyhow + ('s, 'p) opened) \<times> 'w" where
  "build_backend N postgres l w =
     (case sl_source l of
        InjectedPg p \<Rightarrow> (Ok (Pg_pool p), w)
      | Url url \<Rightarrow>
          if starts_with ''postgres://'' url \<or> starts_with ''postgresql://'' url then
            if postgres then
              (case connect_pg_backend N url (sl_max_connections l) w of
                 (r, w') \<Rightarrow> (context_msg ''cannot start serving layer'' (map_sum id Pg_pool r), w'))
            else (Err [''PostgreSQL serving requires the `postgres` feature to be enabled''], w)
          else if starts_with ''sqlite:'' url \<or> \<not> contains_str ''://'' url then
            (case open_read_only_pool N url (sl_max_connections l) w of
               (r, w') \<Rightarrow> (context_msg ''cannot start serving layer'' (map_sum id Sqlite_pool r), w'))
          else (Err [''unsupported database URL scheme: '' @ url], w))"

definition opened_backend ::
  "serde_json \<Rightarrow> 'r cells \<Rightarrow> 'q cells \<Rightarrow> (('r, 'w) ro_pool, ('q, 'w) ro_pool) opened \<Rightarrow> 'w serving_backend" where
  "opened_backend J sqlite_row pg_row opened =
     (case opened of Sqlite_pool pl \<Rightarrow> sqlite_backend J sqlite_row pl | Pg_pool pl \<Rightarrow> pg_backend J pg_row pl)"

definition into_router ::
  "serde_json \<Rightarrow> 'r cells \<Rightarrow> 'q cells \<Rightarrow> (('r, 'w) ro_pool, ('q, 'w) ro_pool, 'w) drivers \<Rightarrow> bool \<Rightarrow> ('q, 'w) ro_pool serving_layer
     \<Rightarrow> 'w \<Rightarrow> (anyhow + (string list \<Rightarrow> rows_query_params \<Rightarrow> ('w \<Rightarrow> response option \<times> 'w) option)) \<times> 'w" where
  "into_router J sqlite_row pg_row N postgres l w =
     (case build_backend N postgres l w of
        (Err e, w') \<Rightarrow> (Err e, w')
      | (Ok opened, w') \<Rightarrow>
          (Ok (router (opened_backend J sqlite_row pg_row opened)
             \<lparr>st_default_limit = sl_default_limit l, st_max_limit = sl_max_limit l\<rparr>), w'))"

end
