(* ===== verification/Serving_Archive.thy ===== *)
theory Serving_Archive
  imports Serving_Routes Sql_Contract
begin

text \<open>
  What the serving layer relies on of the database it reads, as a locale over the archive of
  \<^theory_text>\<open>Sql_Contract\<close>, and the pages it then serves.
\<close>

section \<open>Bounds\<close>

definition param_value :: "string option \<Rightarrow> u64 \<Rightarrow> u64" where
  "param_value raw d = (case raw of None \<Rightarrow> d | Some s \<Rightarrow> (case parse_u64 (trim s) of Ok v \<Rightarrow> v | Err e \<Rightarrow> d))"

definition readable :: "string option \<Rightarrow> bool" where
  "readable raw \<longleftrightarrow> (case raw of None \<Rightarrow> True | Some s \<Rightarrow> is_ok (parse_u64 (trim s)))"

lemma parse_param_readable:
  "parse_param name raw d = (if readable raw then Ok (param_value raw d) else Err (InvalidQuery name))"
  by (auto simp: parse_param_def readable_def param_value_def map_err_def is_ok_def split: option.split sum.splits)

lemma resolve_names: "resolve q d m = Err e \<Longrightarrow> \<exists>name. e = InvalidQuery name"
  by (auto simp: resolve_def parse_param_readable bind_res_def split: if_splits)

lemma unat_max_bind: "unat MAX_BIND = 2 ^ 63 - 1"
  by (simp add: MAX_BIND_def)

lemma cast_below: "x \<le> MAX_BIND \<Longrightarrow> as_i64_cast x = int (unat x)"
proof -
  assume "x \<le> MAX_BIND"
  then have "unat x \<le> 2 ^ 63 - 1" using unat_max_bind by (simp add: word_le_nat_alt)
  then have "int (unat x) \<le> int (2 ^ 63 - 1)" by (simp only: of_nat_le_iff)
  also have "\<dots> < 2 ^ 63" by simp
  finally have "signed_take_bit 63 (int (unat x)) = int (unat x)" by (simp add: signed_take_bit_int_eq_self_iff order_trans [OF _ uint_ge_0])
  then show ?thesis by (simp add: as_i64_cast_def sint_uint)
qed

lemma clamp_between: "lo \<le> hi \<Longrightarrow> lo \<le> clamp x lo hi \<and> clamp x lo hi \<le> hi"
  by (auto simp: clamp_def)

lemma unat_clamp: "lo \<le> hi \<Longrightarrow> unat (clamp x lo hi) = max (unat lo) (min (unat x) (unat hi))"
  by (auto simp: clamp_def word_less_nat_alt word_le_nat_alt)

lemma one_le_bind: "1 \<le> MAX_BIND"
  by (simp add: MAX_BIND_def)

section \<open>The statements that concern a table\<close>

text \<open>The two backends by whether they are PostgreSQL's, with the statements that concern a table.\<close>

definition backend_of :: "bool \<Rightarrow> serde_json \<Rightarrow> 'r cells \<Rightarrow> ('r, 'w) ro_pool \<Rightarrow> 'w serving_backend" where
  "backend_of pg J C pl = (if pg then pg_backend J C pl else sqlite_backend J C pl)"

definition exists_sql :: "bool \<Rightarrow> string" where
  "exists_sql pg = (if pg then PG_TABLE_EXISTS_SQL else TABLE_EXISTS_SQL)"

definition columns_sql :: "bool \<Rightarrow> string \<Rightarrow> string" where
  "columns_sql pg t = (if pg then PG_TABLE_COLUMNS_SQL else table_info_sql t)"

definition columns_args :: "bool \<Rightarrow> string \<Rightarrow> sql_value list" where
  "columns_args pg t = (if pg then [Text t] else [])"

definition page_sql :: "bool \<Rightarrow> string \<Rightarrow> string" where
  "page_sql pg t = (if pg then range_query_public t else range_query t None sqlite_dialect)"

definition columns_of :: "bool \<Rightarrow> 'r cells \<Rightarrow> 'r list \<Rightarrow> (string \<times> string) list call" where
  "columns_of pg C = gathered (\<lambda>r.
     if pg then both (get_string C r ''column_name'') (map_option pg_normalize_type (get_string C r ''data_type''))
     else both (get_string C r ''name'') (map_option normalize_type (get_string C r ''type'')))"

lemma backend_exists:
  "sb_table_exists (backend_of pg J C pl) t = fetch_with pl (exists_sql pg) [Text t, Text PROGRESS_TABLE] (\<lambda>rows. Gives (rows \<noteq> []))"
  by (simp add: backend_of_def pg_backend_def sqlite_backend_def table_exists_def pg_table_exists_def exists_sql_def)

lemma backend_columns:
  "sb_table_columns (backend_of pg J C pl) t = fetch_with pl (columns_sql pg t) (columns_args pg t) (columns_of pg C)"
  by (simp add: backend_of_def pg_backend_def sqlite_backend_def table_columns_def pg_table_columns_def columns_sql_def
      columns_args_def columns_of_def)

lemma backend_rows:
  "sb_query_rows (backend_of pg J C pl) t = page_of J C pl (page_sql pg t) (sb_table_columns (backend_of pg J C pl) t)"
  by (simp add: backend_of_def pg_backend_def sqlite_backend_def query_rows_def pg_query_rows_def page_sql_def)

section \<open>The laws of a served archive\<close>

definition declared_integer :: "bool \<Rightarrow> string" where
  "declared_integer pg = (if pg then ''bigint'' else ''INTEGER'')"

definition declared_text :: "bool \<Rightarrow> string" where
  "declared_text pg = (if pg then ''text'' else ''TEXT'')"

definition column_cells :: "bool \<Rightarrow> 'r cells \<Rightarrow> 'r \<Rightarrow> (string \<times> string) option" where
  "column_cells pg C r =
     (if pg then both (get_string C r ''column_name'') (get_string C r ''data_type'')
      else both (get_string C r ''name'') (get_string C r ''type''))"

text \<open>A row that answers for a block number and a payload cell.\<close>

definition row_of :: "'r cells \<Rightarrow> 'r \<Rightarrow> i64 \<times> sql_value \<Rightarrow> bool" where
  "row_of C r kv \<longleftrightarrow> try_i64 C r BLOCK_NUMBER_COLUMN = Ok (Some (fst kv)) \<and>
     (case try_string C r PAYLOAD_COLUMN of Ok x \<Rightarrow> x = (case snd kv of Text j \<Rightarrow> Some j | _ \<Rightarrow> None) | Err e \<Rightarrow> True)"

definition in_range :: "int \<Rightarrow> int \<Rightarrow> int \<times> 'v \<Rightarrow> bool" where
  "in_range a b kv \<longleftrightarrow> a \<le> fst kv \<and> fst kv \<le> b"

locale served_archive =
  fixes pg :: bool and C :: "'r cells" and pl :: "('r, 'w) ro_pool" and view :: "'w \<Rightarrow> archive"
    and listing :: "archive \<Rightarrow> string \<Rightarrow> int \<Rightarrow> int \<Rightarrow> (i64 \<times> sql_value) list"
  assumes quiet: "fetch_rows pl sql args w = (answer, w') \<Longrightarrow> view w' = view w"
    and exists_ok: "fetch_rows pl (exists_sql pg) [Text t, Text PROGRESS_TABLE] w = (Ok (found # rest), w') \<Longrightarrow>
      arc_tables (view w) t \<noteq> None"
    and columns_ok: "fetch_rows pl (columns_sql pg t) (columns_args pg t) w = (Ok rows, w') \<Longrightarrow> arc_tables (view w) t \<noteq> None \<Longrightarrow>
      distinct (map (map_option fst \<circ> column_cells pg C) rows) \<and>
      Some (BLOCK_NUMBER_COLUMN, declared_integer pg) \<in> set (map (column_cells pg C) rows) \<and>
      Some (PAYLOAD_COLUMN, declared_text pg) \<in> set (map (column_cells pg C) rows)"
    and listing_ok: "arc_tables A t = Some old \<Longrightarrow>
      sorted (map fst (listing A t a b)) \<and> mset (listing A t a b) = mset (filter (in_range a b) old)"
    and page_ok: "fetch_rows pl (page_sql pg t) [Integer a, Integer b, Integer l, Integer off] w = (Ok rows, w') \<Longrightarrow>
      arc_tables (view w) t \<noteq> None \<Longrightarrow> 0 \<le> l \<Longrightarrow> 0 \<le> off \<Longrightarrow>
      list_all2 (row_of C) rows (take (nat l) (drop (nat off) (listing (view w) t a b)))"

section \<open>The objects of a page\<close>

lemma fill_object_cells:
  "fill_object J C r cols obj = Ok obj' \<Longrightarrow> distinct (map fst cols) \<Longrightarrow> bt_wf obj \<Longrightarrow>
     bt_wf obj' \<and> (\<forall>x. bt_get obj' x = (case map_of cols x of
        None \<Rightarrow> bt_get obj x
      | Some ty \<Rightarrow> (case cell_to_json J C r x ty of Ok v \<Rightarrow> Some v | Err e \<Rightarrow> None))) \<and>
     (\<forall>x ty. map_of cols x = Some ty \<longrightarrow> is_ok (cell_to_json J C r x ty))"
proof (induction cols arbitrary: obj)
  case (Cons c cols)
  obtain name ty where c: "c = (name, ty)" by fastforce
  with Cons.prems(1) obtain v where v: "cell_to_json J C r name ty = Ok v"
    and rest: "fill_object J C r cols (bt_insert name v obj) = Ok obj'" by (auto simp: bind_res_Ok_iff)
  from Cons.prems(2) c have fresh: "map_of cols name = None" "distinct (map fst cols)" by (auto simp: map_of_eq_None_iff)
  from Cons.IH [OF rest fresh(2) bt_wf_insert [OF Cons.prems(3)]] v fresh(1) c Cons.prems(3) show ?case
    by (auto simp: bt_get_insert split: option.splits)
qed simp

definition renders :: "serde_json \<Rightarrow> json_object \<Rightarrow> stored_row \<Rightarrow> bool" where
  "renders J obj kj \<longleftrightarrow> bt_get obj BLOCK_NUMBER_COLUMN = Some (JNumber (number_of_i64 J (fst kj))) \<and>
     (bt_get obj PAYLOAD_COLUMN = Some (parse_payload J (snd kj)) \<or> snd kj = [] \<and> bt_get obj PAYLOAD_COLUMN = Some JNull)"

definition as_stored :: "i64 \<times> sql_value \<Rightarrow> stored_row" where
  "as_stored kv = (fst kv, text_of (snd kv))"

lemma row_renders:
  assumes "row_to_json J C cols r = Ok obj" "distinct (map fst cols)" "row_of C r kv"
    and "(BLOCK_NUMBER_COLUMN, ''INTEGER'') \<in> set cols" "(PAYLOAD_COLUMN, ''TEXT'') \<in> set cols"
  shows "renders J obj (as_stored kv)"
proof -
  from assms(2,4,5) have "map_of cols BLOCK_NUMBER_COLUMN = Some ''INTEGER''" "map_of cols PAYLOAD_COLUMN = Some ''TEXT''"
    by simp_all
  with fill_object_cells [OF assms(1) [unfolded row_to_json_def] assms(2)] bt_wf_Nil
  have cells: "cell_to_json J C r BLOCK_NUMBER_COLUMN ''INTEGER'' = Ok v1 \<Longrightarrow> bt_get obj BLOCK_NUMBER_COLUMN = Some v1"
    "\<exists>v2. cell_to_json J C r PAYLOAD_COLUMN ''TEXT'' = Ok v2 \<and> bt_get obj PAYLOAD_COLUMN = Some v2" for v1
    by (auto simp: is_ok_def split: sum.splits)
  have upper: "to_ascii_uppercase ''INTEGER'' = ''INTEGER''" "to_ascii_uppercase ''TEXT'' = ''TEXT''"
    by (simp_all add: to_ascii_uppercase_def upper_char_def)
  have "bt_get obj BLOCK_NUMBER_COLUMN = Some (JNumber (number_of_i64 J (fst kv)))"
    using assms(3) by (intro cells(1)) (simp add: cell_to_json_def upper row_of_def)
  with cells(2) assms(3) show ?thesis
    by (auto simp: cell_to_json_def upper row_of_def renders_def as_stored_def bind_res_def
        split: sum.splits option.splits sql_value.splits)
qed

lemma those_map_Some: "those (map g rows) = Some xs \<Longrightarrow> map g rows = map Some xs"
  by (induction rows arbitrary: xs) (auto split: option.splits)

definition normalized :: "bool \<Rightarrow> string \<times> string \<Rightarrow> string \<times> string" where
  "normalized pg c = (fst c, if pg then pg_normalize_type (snd c) else normalize_type (snd c))"

lemma map_option_those: "map (map_option f) xs = map Some ys \<Longrightarrow> \<exists>zs. xs = map Some zs \<and> ys = map f zs"
proof (induction xs arbitrary: ys)
  case (Cons x xs)
  then obtain y ys' where "ys = y # ys'" "map_option f x = Some y" "map (map_option f) xs = map Some ys'" by (cases ys) auto
  with Cons.IH obtain z zs where "x = Some z" "y = f z" "xs = map Some zs" "ys' = map f zs" by blast
  with \<open>ys = y # ys'\<close> show ?case by (intro exI [of _ "z # zs"]) simp
qed simp

lemma columns_of_cells:
  assumes "columns_of pg C rows = Gives cols"
  shows "\<exists>raw. map (column_cells pg C) rows = map Some raw \<and> cols = map (normalized pg) raw"
proof -
  let ?g = "\<lambda>r. if pg then both (get_string C r ''column_name'') (map_option pg_normalize_type (get_string C r ''data_type''))
     else both (get_string C r ''name'') (map_option normalize_type (get_string C r ''type''))"
  have g: "?g r = map_option (normalized pg) (column_cells pg C r)" for r
    by (simp add: column_cells_def both_def normalized_def split: option.split)
  from assms have "those (map ?g rows) = Some cols"
    by (simp add: columns_of_def gathered_def split: option.splits)
  from those_map_Some [OF this] have "map (map_option (normalized pg)) (map (column_cells pg C) rows) = map Some cols"
    by (simp only: g map_map comp_def)
  from map_option_those [OF this] show ?thesis by blast
qed

lemma normalized_types:
  "normalized pg (n, declared_integer pg) = (n, ''INTEGER'')" "normalized pg (n, declared_text pg) = (n, ''TEXT'')"
  by (simp_all add: normalized_def declared_integer_def declared_text_def pg_normalize_type_def normalize_type_def
      to_ascii_uppercase_def upper_char_def)

lemma typed_columns:
  assumes "columns_of pg C rows = Gives cols"
    and "distinct (map (map_option fst \<circ> column_cells pg C) rows)"
    and "Some (BLOCK_NUMBER_COLUMN, declared_integer pg) \<in> set (map (column_cells pg C) rows)"
    and "Some (PAYLOAD_COLUMN, declared_text pg) \<in> set (map (column_cells pg C) rows)"
  shows "distinct (map fst cols) \<and> (BLOCK_NUMBER_COLUMN, ''INTEGER'') \<in> set cols \<and> (PAYLOAD_COLUMN, ''TEXT'') \<in> set cols"
proof -
  from columns_of_cells [OF assms(1)] obtain raw where raw: "map (column_cells pg C) rows = map Some raw"
    and cols: "cols = map (normalized pg) raw" by blast
  have "map (map_option fst \<circ> column_cells pg C) rows = map Some (map fst raw)"
    by (simp only: map_map [symmetric] raw) simp
  with assms(2) have "distinct (map fst raw)" by (simp add: distinct_map inj_on_def)
  moreover have "map fst cols = map fst raw" by (simp add: cols normalized_def)
  moreover from assms(3,4) have "(BLOCK_NUMBER_COLUMN, declared_integer pg) \<in> set raw" "(PAYLOAD_COLUMN, declared_text pg) \<in> set raw"
    unfolding raw by auto
  then have "normalized pg (BLOCK_NUMBER_COLUMN, declared_integer pg) \<in> set cols" "normalized pg (PAYLOAD_COLUMN, declared_text pg) \<in> set cols"
    by (simp_all add: cols)
  ultimately show ?thesis by (simp add: normalized_types)
qed

section \<open>Pages\<close>

lemma map_eq_list_all2: "map f xs = map g ys \<longleftrightarrow> list_all2 (\<lambda>x y. f x = g y) xs ys"
proof (induction xs arbitrary: ys)
  case (Cons x xs)
  then show ?case by (cases ys) auto
qed auto

context served_archive begin

lemma page_renders:
  assumes "sb_query_rows (backend_of pg J C pl) t b w = (Gives objs, w')" "arc_tables (view w) t \<noteq> None"
    and "bounds_args b = [Integer x, Integer y, Integer (int l), Integer (int off)]"
  shows "list_all2 (renders J) objs (map as_stored (take l (drop off (listing (view w) t x y))))"
proof -
  from assms(1) obtain cols w1 where cols: "sb_table_columns (backend_of pg J C pl) t w = (Gives cols, w1)"
    and "fetch_with pl (page_sql pg t) (bounds_args b) (\<lambda>rows. called (collect_res (map (row_to_json J C cols) rows))) w1 = (Gives objs, w')"
    by (auto simp: backend_rows page_of_def split: prod.splits call.splits)
  then obtain rows where page: "fetch_rows pl (page_sql pg t) (bounds_args b) w1 = (Ok rows, w')"
    and objs: "called (collect_res (map (row_to_json J C cols) rows)) = Gives objs"
    by (auto simp: fetch_with_def split: prod.splits sum.splits)
  from cols obtain crows where crows: "fetch_rows pl (columns_sql pg t) (columns_args pg t) w = (Ok crows, w1)"
    and gives: "columns_of pg C crows = Gives cols"
    by (auto simp: backend_columns fetch_with_def split: prod.splits sum.splits)
  have same: "view w1 = view w" by (rule quiet [OF crows])
  from columns_ok [OF crows assms(2)] typed_columns [OF gives]
  have typed: "distinct (map fst cols)" "(BLOCK_NUMBER_COLUMN, ''INTEGER'') \<in> set cols" "(PAYLOAD_COLUMN, ''TEXT'') \<in> set cols"
    by blast+
  from objs have "collect_res (map (row_to_json J C cols) rows) = Ok objs"
    by (cases "collect_res (map (row_to_json J C cols) rows)") simp_all
  then have each: "list_all2 (\<lambda>obj r. row_to_json J C cols r = Ok obj) objs rows"
    by (simp add: collect_res_Ok_iff map_eq_list_all2 list_all2_conv_all_nth)
  from page_ok [OF page [unfolded assms(3)]] assms(2) same
  have kept: "list_all2 (row_of C) rows (take l (drop off (listing (view w) t x y)))" by simp
  show ?thesis
    unfolding list_all2_map2
    by (rule list_all2_trans [OF _ each kept]) (rule row_renders [OF _ typed(1) _ typed(2,3)])
qed

text \<open>A page that is answered with success.\<close>

lemma answered_page:
  assumes "query_rows_handler (backend_of pg J C pl) st t q w = (Some (200, Rows_body objs l' off'), w')"
    and "resolve q (st_default_limit st) (st_max_limit st) = Ok b"
    and "bounds_args b = [Integer x, Integer y, Integer (int l), Integer (int off)]"
  shows "arc_tables (view w) t \<noteq> None \<and> list_all2 (renders J) objs (map as_stored (take l (drop off (listing (view w) t x y))))"
proof -
  let ?probe = "fetch_rows pl (exists_sql pg) [Text t, Text PROGRESS_TABLE] w"
  from assms(1) obtain found rest w1 where probe: "?probe = (Ok (found # rest), w1)"
    and rows: "respond (\<lambda>rows. (200, Rows_body rows (b_limit b) (b_offset b))) (sb_query_rows (backend_of pg J C pl) t b w1)
      = (Some (200, Rows_body objs l' off'), w')"
    using assms(2) by (auto simp: query_rows_handler_def guarded_def backend_exists fetch_with_def into_response_def database_error_def
        neq_Nil_conv split: prod.splits sum.splits call.splits bool.splits)
  have there: "arc_tables (view w) t \<noteq> None" and same: "view w1 = view w"
    by (rule exists_ok [OF probe]) (rule quiet [OF probe])
  obtain c w2 where c: "sb_query_rows (backend_of pg J C pl) t b w1 = (c, w2)" by fastforce
  with rows have "c = Gives objs" by (cases c) (auto simp: database_error_def into_response_def)
  from page_renders [OF c [unfolded this] _ assms(3)] same there show ?thesis by simp
qed

end

end
