(* ===== verification/Serving_Memory.thy ===== *)
theory Serving_Memory
  imports Serving_Archive
begin

text \<open>
  A database in memory that answers the statements of the serving layer from an archive, reading the
  table's name back out of the text it is sent; it keeps the laws of \<^theory_text>\<open>Serving_Archive\<close> for both
  backends. A row is the list of its named cells, and a cell is read as sqlx documents \<open>try_get\<close>: an
  unknown name or a cell of another type is an error, and NULL is no value.
\<close>

section \<open>Rows of named cells\<close>

type_synonym named_row = "(string \<times> sql_value) list"

definition try_cell :: "(sql_value \<Rightarrow> 'a option) \<Rightarrow> named_row \<Rightarrow> string \<Rightarrow> anyhow + 'a option" where
  "try_cell read r name =
     (case map_of r name of
        None \<Rightarrow> Err [''no column found for name: '' @ name]
      | Some Null \<Rightarrow> Ok None
      | Some v \<Rightarrow> (case read v of Some a \<Rightarrow> Ok (Some a) | None \<Rightarrow> Err [''mismatched types'']))"

definition named_cells :: "named_row cells" where
  "named_cells = \<lparr>
     try_i64 = try_cell (\<lambda>v. case v of Integer i \<Rightarrow> Some i | _ \<Rightarrow> None),
     try_f64 = try_cell (\<lambda>v. case v of Real f \<Rightarrow> Some f | _ \<Rightarrow> None),
     try_bytes = try_cell (\<lambda>v. case v of Blob b \<Rightarrow> Some b | _ \<Rightarrow> None),
     try_string = try_cell (\<lambda>v. case v of Text s \<Rightarrow> Some s | _ \<Rightarrow> None)\<rparr>"

section \<open>Reading the statements\<close>

text \<open>\<open>LIKE 'sqlite_%'\<close>: case is ignored, and the underscore stands for any character.\<close>

definition like_sqlite :: "string \<Rightarrow> bool" where
  "like_sqlite t \<longleftrightarrow> to_ascii_uppercase (take 6 t) = ''SQLITE'' \<and> 7 \<le> length t"

definition listed :: "bool \<Rightarrow> string \<Rightarrow> bool" where
  "listed pg t \<longleftrightarrow> pg \<or> \<not> like_sqlite t"

definition page_prefix :: "bool \<Rightarrow> string" where
  "page_prefix pg = ''SELECT * FROM '' @ (if pg then quote_ident ''public'' @ ''.'' else [])"

definition columns_table :: "bool \<Rightarrow> string \<Rightarrow> sql_value list \<Rightarrow> string option" where
  "columns_table pg sql args =
     (if pg then (if sql = PG_TABLE_COLUMNS_SQL then (case args of [Text t] \<Rightarrow> Some t | _ \<Rightarrow> None) else None)
      else if starts_with ''PRAGMA table_info('' sql then map_option fst (read_ident (drop 18 sql)) else None)"

definition page_table :: "bool \<Rightarrow> string \<Rightarrow> string option" where
  "page_table pg sql =
     (if starts_with (page_prefix pg) sql then map_option fst (read_ident (drop (length (page_prefix pg)) sql)) else None)"

section \<open>Answers\<close>

definition no_such_table :: "bool \<Rightarrow> sqlx_error" where
  "no_such_table pg = (if pg then Sqlx_database ''relation does not exist'' (Some ''42P01'') else Sqlx_database ''no such table'' (Some ''1''))"

definition not_understood :: sqlx_error where
  "not_understood = Sqlx_database ''syntax error'' None"

definition mem_columns :: "bool \<Rightarrow> named_row list" where
  "mem_columns pg = map (\<lambda>(n, ty). if pg then [(''column_name'', Text n), (''data_type'', Text ty)] else [(''name'', Text n), (''type'', Text ty)])
     [(BLOCK_NUMBER_COLUMN, declared_integer pg), (PAYLOAD_COLUMN, declared_text pg)]"

definition mem_row :: "i64 \<times> sql_value \<Rightarrow> named_row" where
  "mem_row kv = [(BLOCK_NUMBER_COLUMN, Integer (fst kv)), (PAYLOAD_COLUMN, snd kv)]"

definition mem_listing :: "archive \<Rightarrow> string \<Rightarrow> int \<Rightarrow> int \<Rightarrow> (i64 \<times> sql_value) list" where
  "mem_listing A t a b = (case arc_tables A t of None \<Rightarrow> [] | Some old \<Rightarrow> linorder_class.sort_key fst (filter (in_range a b) old))"

definition mem_page :: "archive \<Rightarrow> string \<Rightarrow> sql_value list \<Rightarrow> sqlx_error + named_row list" where
  "mem_page A t args =
     (case args of
        [Integer a, Integer b, Integer l, Integer off] \<Rightarrow> Ok (map mem_row (take (nat l) (drop (nat off) (mem_listing A t a b))))
      | _ \<Rightarrow> Err not_understood)"

definition mem_answer :: "bool \<Rightarrow> string \<Rightarrow> sql_value list \<Rightarrow> archive \<Rightarrow> sqlx_error + named_row list" where
  "mem_answer pg sql args A =
     (if sql = exists_sql pg then
        (case args of
           [Text t, Text hidden] \<Rightarrow> Ok (if t \<noteq> hidden \<and> listed pg t \<and> arc_tables A t \<noteq> None then [[(''1'', Integer 1)]] else [])
         | _ \<Rightarrow> Err not_understood)
      else
        (case columns_table pg sql args of
           Some t \<Rightarrow> Ok (if arc_tables A t = None then [] else mem_columns pg)
         | None \<Rightarrow>
             (case page_table pg sql of
                Some t \<Rightarrow> if arc_tables A t = None then Err (no_such_table pg) else mem_page A t args
              | None \<Rightarrow> Err not_understood)))"

definition mem_pool :: "bool \<Rightarrow> (named_row, archive) ro_pool" where
  "mem_pool pg = \<lparr>fetch_rows = (\<lambda>sql args A. (mem_answer pg sql args A, A))\<rparr>"

section \<open>The texts are read back as they were meant\<close>

lemma columns_table_reads: "columns_table pg (columns_sql pg t) (columns_args pg t) = Some t"
  by (simp add: columns_table_def columns_sql_def columns_args_def table_info_sql_def starts_with_def read_ident_quote dquote_def)

lemma page_table_reads: "page_table pg (page_sql pg t) = Some t"
proof -
  have "\<exists>rest. page_sql pg t = page_prefix pg @ quote_ident t @ CHR '' '' # rest"
    by (simp add: page_sql_def page_prefix_def range_query_public_def range_query_def Let_def)
  then obtain rest where "page_sql pg t = page_prefix pg @ quote_ident t @ CHR '' '' # rest" ..
  then show ?thesis by (simp add: page_table_def starts_with_def read_ident_quote dquote_def)
qed

lemma other_texts:
  "columns_sql pg t \<noteq> exists_sql pg" "page_sql pg t \<noteq> exists_sql pg" "columns_table pg (page_sql pg t) args = None"
  by (simp_all add: columns_sql_def exists_sql_def page_sql_def table_info_sql_def TABLE_EXISTS_SQL_def PG_TABLE_EXISTS_SQL_def
      PG_TABLE_COLUMNS_SQL_def range_query_public_def range_query_def Let_def columns_table_def starts_with_def)

lemma mem_answers:
  "mem_answer pg (exists_sql pg) [Text t, Text PROGRESS_TABLE] A =
     Ok (if t \<noteq> PROGRESS_TABLE \<and> listed pg t \<and> arc_tables A t \<noteq> None then [[(''1'', Integer 1)]] else [])"
  "mem_answer pg (columns_sql pg t) (columns_args pg t) A = Ok (if arc_tables A t = None then [] else mem_columns pg)"
  "mem_answer pg (page_sql pg t) args A = (if arc_tables A t = None then Err (no_such_table pg) else mem_page A t args)"
  by (simp_all add: mem_answer_def other_texts columns_table_reads page_table_reads)

lemma named_cells_simps [simp]:
  "try_i64 named_cells = try_cell (\<lambda>v. case v of Integer i \<Rightarrow> Some i | _ \<Rightarrow> None)"
  "try_string named_cells = try_cell (\<lambda>v. case v of Text s \<Rightarrow> Some s | _ \<Rightarrow> None)"
  by (simp_all add: named_cells_def)

lemma column_names_differ [simp]: "BLOCK_NUMBER_COLUMN \<noteq> PAYLOAD_COLUMN" "PAYLOAD_COLUMN \<noteq> BLOCK_NUMBER_COLUMN"
  by (simp_all add: BLOCK_NUMBER_COLUMN_def PAYLOAD_COLUMN_def)

lemma mem_row_of: "row_of named_cells (mem_row kv) kv"
  by (simp add: row_of_def mem_row_def try_cell_def split: sql_value.split)

lemma mem_column_cells:
  "map (column_cells pg named_cells) (mem_columns pg) =
     [Some (BLOCK_NUMBER_COLUMN, declared_integer pg), Some (PAYLOAD_COLUMN, declared_text pg)]"
  by (simp add: mem_columns_def column_cells_def get_string_def try_cell_def both_def)

interpretation mem_served: served_archive pg named_cells "mem_pool pg" "\<lambda>A. A" mem_listing for pg
proof unfold_locales
  show "arc_tables w t \<noteq> None"
    if "fetch_rows (mem_pool pg) (exists_sql pg) [Text t, Text PROGRESS_TABLE] w = (Ok (found # rest), w')" for t w found rest w'
    using that by (auto simp: mem_pool_def mem_answers split: if_splits)
  show "distinct (map (map_option fst \<circ> column_cells pg named_cells) rows) \<and>
      Some (BLOCK_NUMBER_COLUMN, declared_integer pg) \<in> set (map (column_cells pg named_cells) rows) \<and>
      Some (PAYLOAD_COLUMN, declared_text pg) \<in> set (map (column_cells pg named_cells) rows)"
    if "fetch_rows (mem_pool pg) (columns_sql pg t) (columns_args pg t) w = (Ok rows, w')" "arc_tables w t \<noteq> None" for t w rows w'
  proof -
    from that have "rows = mem_columns pg" by (simp add: mem_pool_def mem_answers)
    then show ?thesis by (simp only: map_map [symmetric] mem_column_cells) simp
  qed
  show "sorted (map fst (mem_listing A t a b)) \<and> mset (mem_listing A t a b) = mset (filter (in_range a b) old)"
    if "arc_tables A t = Some old" for A t old a b
    using that by (simp add: mem_listing_def)
  show "list_all2 (row_of named_cells) rows (take (nat l) (drop (nat off) (mem_listing w t a b)))"
    if "fetch_rows (mem_pool pg) (page_sql pg t) [Integer a, Integer b, Integer l, Integer off] w = (Ok rows, w')"
      "arc_tables w t \<noteq> None" "0 \<le> l" "0 \<le> off" for t a b l off w rows w'
  proof -
    from that have "rows = map mem_row (take (nat l) (drop (nat off) (mem_listing w t a b)))"
      by (auto simp: mem_pool_def mem_answers mem_page_def)
    then show ?thesis by (simp add: list_all2_map1 list.rel_refl mem_row_of)
  qed
qed (simp add: mem_pool_def)

text \<open>The guard hides more than the internal tables: the underscore of the pattern is a wildcard.\<close>

lemma upper_sqlite: "to_ascii_uppercase ''sqlite'' = ''SQLITE''"
  by code_simp

lemma guard_hides_table:
  "fetch_rows (mem_pool False) (exists_sql False) [Text ''sqlitems'', Text PROGRESS_TABLE] A = (Ok [], A)"
  by (simp add: mem_pool_def mem_answers listed_def like_sqlite_def upper_sqlite)

end
