(* ===== verification/Serving_Json.thy ===== *)
theory Serving_Json
  imports Serving
begin

text \<open>
  What a client makes of a served object: hex text read back to bytes, numbers to the cells they stand
  for, and the laws of \<open>serde_json\<close>'s numbers this rests on. A client knows the type of a column from
  the schema route.
\<close>

section \<open>Hex text\<close>

definition hex_value :: "char \<Rightarrow> nat option" where
  "hex_value c = (let n = (of_char c :: nat) in
     if 48 \<le> n \<and> n \<le> 57 then Some (n - 48) else if 97 \<le> n \<and> n \<le> 102 then Some (n - 87) else None)"

fun hex_bytes :: "string \<Rightarrow> 8 word list option" where
  "hex_bytes [] = Some []"
| "hex_bytes [c] = None"
| "hex_bytes (c # d # cs) =
     (case (hex_value c, hex_value d, hex_bytes cs) of
        (Some x, Some y, Some bs) \<Rightarrow> Some (of_nat (16 * x + y) # bs) | _ \<Rightarrow> None)"

definition from_hex :: "string \<Rightarrow> 8 word list option" where
  "from_hex s = (if take 2 s = ''0x'' then hex_bytes (drop 2 s) else None)"

lemma hex_value_char: "d < 16 \<Longrightarrow> hex_value (hex_char d) = Some d"
  by (simp add: hex_value_def hex_char_def of_char_of Let_def)

lemma hex_bytes_hex: "hex_bytes (concat (map hex_byte bs)) = Some bs"
proof (induction bs)
  case (Cons b bs)
  have "unat b div 16 < 16" using unat_lt2p [of b] by simp
  then have "hex_value (hex_char (unat b div 16)) = Some (unat b div 16)" "hex_value (hex_char (unat b mod 16)) = Some (unat b mod 16)"
    by (simp_all add: hex_value_char)
  moreover have "16 * (unat b div 16) + unat b mod 16 = unat b" by simp
  then have "(of_nat (16 * (unat b div 16) + unat b mod 16) :: 8 word) = b" by simp
  ultimately show ?case using Cons by (simp add: hex_byte_def)
qed simp

lemma from_to_hex: "from_hex (to_hex bs) = Some bs"
  by (simp add: from_hex_def to_hex_def hex_bytes_hex)

section \<open>Cells through JSON\<close>

definition f64_finite :: "f64 \<Rightarrow> bool" where
  "f64_finite b \<longleftrightarrow> b AND 0x7FF0000000000000 \<noteq> 0x7FF0000000000000"

definition json_numbers :: "serde_json \<Rightarrow> bool" where
  "json_numbers J \<longleftrightarrow> (\<forall>i. is_i64 i \<longrightarrow> as_i64 (number_of_i64 J i) = Some i) \<and>
     (\<forall>f. if f64_finite f then \<exists>n. number_of_f64 J f = Some n \<and> as_f64 n = Some f else number_of_f64 J f = None)"

definition client_value :: "string \<Rightarrow> json \<Rightarrow> sql_value option" where
  "client_value ty j =
     (case j of
        JNull \<Rightarrow> Some Null
      | JNumber n \<Rightarrow>
          if to_ascii_uppercase ty = ''INTEGER'' then map_option Integer (as_i64 n)
          else if to_ascii_uppercase ty = ''REAL'' then map_option Real (as_f64 n)
          else None
      | JString s \<Rightarrow> if to_ascii_uppercase ty = ''BLOB'' then map_option Blob (from_hex s) else Some (Text s)
      | _ \<Rightarrow> None)"

text \<open>A row whose cell of the column is this value, of the column's type.\<close>

definition holds_cell :: "'r cells \<Rightarrow> 'r \<Rightarrow> string \<times> string \<Rightarrow> sql_value \<Rightarrow> bool" where
  "holds_cell C r c v =
     (let ty = to_ascii_uppercase (snd c) in
      if ty = ''INTEGER'' then (case v of Null \<Rightarrow> try_i64 C r (fst c) = Ok None
        | Integer i \<Rightarrow> is_i64 i \<and> try_i64 C r (fst c) = Ok (Some i) | _ \<Rightarrow> False)
      else if ty = ''REAL'' then (case v of Null \<Rightarrow> try_f64 C r (fst c) = Ok None
        | Real f \<Rightarrow> try_f64 C r (fst c) = Ok (Some f) | _ \<Rightarrow> False)
      else if ty = ''BLOB'' then (case v of Null \<Rightarrow> try_bytes C r (fst c) = Ok None
        | Blob b \<Rightarrow> try_bytes C r (fst c) = Ok (Some b) | _ \<Rightarrow> False)
      else (case v of Null \<Rightarrow> try_string C r (fst c) = Ok None
        | Text s \<Rightarrow> try_string C r (fst c) = Ok (Some s) | _ \<Rightarrow> False))"

text \<open>JSON has no number for a cell that is not finite.\<close>

definition as_served :: "sql_value \<Rightarrow> sql_value" where
  "as_served v = (case v of Real f \<Rightarrow> if f64_finite f then v else Null | _ \<Rightarrow> v)"

definition shows_cell :: "serde_json \<Rightarrow> string \<times> string \<Rightarrow> sql_value \<Rightarrow> json \<Rightarrow> bool" where
  "shows_cell J c v j = (case v of
       Text s \<Rightarrow> j = (if fst c = PAYLOAD_COLUMN then parse_payload J s else JString s)
     | _ \<Rightarrow> client_value (snd c) j = Some (as_served v))"

lemma client_value_simps [simp]:
  "client_value ty JNull = Some Null"
  "client_value ty (JString s) = (if to_ascii_uppercase ty = ''BLOB'' then map_option Blob (from_hex s) else Some (Text s))"
  by (simp_all add: client_value_def)

lemma cell_shown:
  assumes "json_numbers J" "holds_cell C r (name, ty) v"
  shows "\<exists>j. cell_to_json J C r name ty = Ok j \<and> shows_cell J (name, ty) v j"
proof -
  consider (integer) "to_ascii_uppercase ty = ''INTEGER''" | (real) "to_ascii_uppercase ty = ''REAL''"
    | (blob) "to_ascii_uppercase ty = ''BLOB''"
    | (other) "to_ascii_uppercase ty \<noteq> ''INTEGER''" "to_ascii_uppercase ty \<noteq> ''REAL''" "to_ascii_uppercase ty \<noteq> ''BLOB''" by blast
  then show ?thesis
  proof cases
    case integer
    with assms show ?thesis
      by (auto simp: holds_cell_def cell_to_json_def shows_cell_def as_served_def json_numbers_def client_value_def split: sql_value.splits)
  next
    case real
    with assms(2) consider "v = Null" "try_f64 C r name = Ok None" | f where "v = Real f" "try_f64 C r name = Ok (Some f)"
      by (auto simp: holds_cell_def split: sql_value.splits)
    then show ?thesis
    proof cases
      case (2 f)
      then show ?thesis
        using real assms(1) [unfolded json_numbers_def, THEN conjunct2, rule_format, of f]
        by (auto simp: cell_to_json_def shows_cell_def as_served_def client_value_def split: if_splits)
    qed (simp add: real cell_to_json_def shows_cell_def as_served_def)
  next
    case blob
    with assms(2) show ?thesis
      by (auto simp: holds_cell_def cell_to_json_def shows_cell_def as_served_def from_to_hex split: sql_value.splits)
  next
    case other
    with assms(2) show ?thesis
      by (auto simp: holds_cell_def cell_to_json_def shows_cell_def as_served_def split: sql_value.splits)
  qed
qed

section \<open>The columns of both backends\<close>

text \<open>The name \<open>information_schema\<close> has for a column type is its lower case.\<close>

definition pg_data_type :: "sql_type \<Rightarrow> string" where
  "pg_data_type ty = map to_ascii_lowercase (pg_column_type ty)"

lemma keywords_agree: "normalize_type (sql_keyword ty) = pg_normalize_type (pg_data_type ty)"
proof (cases ty)
  case SqlInteger
  show ?thesis unfolding SqlInteger by code_simp
next
  case SqlReal
  show ?thesis unfolding SqlReal by code_simp
next
  case SqlText
  show ?thesis unfolding SqlText by code_simp
next
  case SqlBlob
  show ?thesis unfolding SqlBlob by code_simp
next
  case SqlNumeric
  show ?thesis unfolding SqlNumeric by code_simp
qed

end
