(* ===== verification/Serving_Properties.thy ===== *)
theory Serving_Properties
  imports Serving_Memory Serving_Json Sql_Properties
begin

text \<open>The properties of the serving layer, each at a concrete input too.\<close>

section \<open>Query parameters\<close>

definition named_params :: "rows_query_params \<Rightarrow> (string \<times> string option) list" where
  "named_params q = [(''from_block'', q_from_block q), (''to_block'', q_to_block q), (''limit'', q_limit q), (''offset'', q_offset q)]"

text \<open>
  Property C40: the bounds of a row query: the query is refused exactly when some parameter is not
  an unsigned decimal number, and then names the first such parameter; otherwise the four values
  bound to the statement are the numbers asked for or their defaults, capped at \<open>i64::MAX\<close> so that
  no cast wraps, with a limit of at least one and at most the larger of one and the maximum.
\<close>

theorem served_bounds:
  "case resolve q default_limit max_limit of
     Err e \<Rightarrow> (\<exists>pre name raw post. named_params q = pre @ (name, raw) # post \<and> list_all (readable \<circ> snd) pre \<and>
        \<not> readable raw \<and> e = InvalidQuery name)
   | Ok b \<Rightarrow> list_all (readable \<circ> snd) (named_params q) \<and>
       bounds_args b = map (\<lambda>n. Integer (int n))
         [min (unat (param_value (q_from_block q) 0)) (2 ^ 63 - 1),
          min (unat (param_value (q_to_block q) MAX_BIND)) (2 ^ 63 - 1),
          max 1 (min (unat (param_value (q_limit q) default_limit)) (min (unat max_limit) (2 ^ 63 - 1))),
          min (unat (param_value (q_offset q) 0)) (2 ^ 63 - 1)]"
proof -
  have hi: "1 \<le> clamp max_limit 1 MAX_BIND" "clamp max_limit 1 MAX_BIND \<le> MAX_BIND"
    using clamp_between [OF one_le_bind] by blast+
  then have lim: "clamp x 1 (clamp max_limit 1 MAX_BIND) \<le> MAX_BIND" for x
    using clamp_between [OF hi(1)] order_trans by blast
  have size: "unat (clamp x 1 (clamp max_limit 1 MAX_BIND)) = max 1 (min (unat x) (min (unat max_limit) (2 ^ 63 - 1)))" for x
    by (simp only: unat_clamp [OF hi(1)] unat_clamp [OF one_le_bind] unat_max_bind) (simp add: max_def min_def)
  note casts = cast_below [OF lim] cast_below [OF min.cobounded2]
  show ?thesis
  proof (cases "list_all (readable \<circ> snd) (named_params q)")
    case True
    then show ?thesis
      by (simp add: resolve_def parse_param_readable named_params_def bounds_args_def casts size word_min_unat unat_max_bind)
  next
    case False
    then consider "\<not> readable (q_from_block q)" | "readable (q_from_block q)" "\<not> readable (q_to_block q)"
      | "readable (q_from_block q)" "readable (q_to_block q)" "\<not> readable (q_limit q)"
      | "readable (q_from_block q)" "readable (q_to_block q)" "readable (q_limit q)" "\<not> readable (q_offset q)"
      by (auto simp: named_params_def)
    then show ?thesis
    proof cases
      case 1
      then show ?thesis by (simp add: resolve_def parse_param_readable named_params_def, intro exI [of _ "[]"]) simp
    next
      case 2
      then show ?thesis by (simp add: resolve_def parse_param_readable named_params_def,
            intro exI [of _ "[(''from_block'', q_from_block q)]"]) simp
    next
      case 3
      then show ?thesis by (simp add: resolve_def parse_param_readable named_params_def,
            intro exI [of _ "[(''from_block'', q_from_block q), (''to_block'', q_to_block q)]"]) simp
    next
      case 4
      then show ?thesis by (simp add: resolve_def parse_param_readable named_params_def,
            intro exI [of _ "[(''from_block'', q_from_block q), (''to_block'', q_to_block q), (''limit'', q_limit q)]"]) simp
    qed
  qed
qed

section \<open>The guard of the table routes\<close>

text \<open>A pool that also keeps the statements sent.\<close>

definition watched :: "('r, 'w) ro_pool \<Rightarrow> ('r, 'w \<times> string list) ro_pool" where
  "watched pl = \<lparr>fetch_rows = (\<lambda>sql args (w, log). case fetch_rows pl sql args w of (r, w') \<Rightarrow> (r, (w', log @ [sql])))\<rparr>"

lemma fetch_watched:
  "fetch_with (watched pl) sql args f (w, log) =
     (case fetch_rows pl sql args w of
        (Err e, w') \<Rightarrow> (Fails (sqlx_anyhow e), (w', log @ [sql])) | (Ok rows, w') \<Rightarrow> (f rows, (w', log @ [sql])))"
  by (simp add: fetch_with_def watched_def split: prod.split sum.split)

abbreviation opaque_error :: response where
  "opaque_error \<equiv> (500, Error_body ''database error'')"

lemma respond_watched: "respond f (c, x) = (case c of Gives a \<Rightarrow> Some (f a) | Fails e \<Rightarrow> Some opaque_error | Panics \<Rightarrow> None, x)"
  by (cases c) (simp_all add: database_error_def into_response_def)

lemma called_cases: "(case called r of Gives a \<Rightarrow> f a | Fails e \<Rightarrow> g e | Panics \<Rightarrow> p) = (case r of Err e \<Rightarrow> g e | Ok a \<Rightarrow> f a)"
  by (cases r) simp_all

lemma guarded_watched:
  "guarded (backend_of pg J C (watched pl)) t rest (w, log) =
     (case fetch_rows pl (exists_sql pg) [Text t, Text PROGRESS_TABLE] w of
        (Err e, w') \<Rightarrow> (Some opaque_error, (w', log @ [exists_sql pg]))
      | (Ok [], w') \<Rightarrow> (Some (404, Error_body (''unknown table: '' @ t)), (w', log @ [exists_sql pg]))
      | (Ok (r # rs), w') \<Rightarrow> rest (w', log @ [exists_sql pg]))"
  by (simp add: guarded_def backend_exists fetch_watched into_response_def database_error_def
      split: prod.split sum.split list.split)

lemma columns_watched:
  "sb_table_columns (backend_of pg J C (watched pl)) t (w, log) =
     (case fetch_rows pl (columns_sql pg t) (columns_args pg t) w of
        (Err e, w') \<Rightarrow> (Fails (sqlx_anyhow e), (w', log @ [columns_sql pg t]))
      | (Ok rows, w') \<Rightarrow> (columns_of pg C rows, (w', log @ [columns_sql pg t])))"
  by (simp add: backend_columns fetch_watched)

lemma columns_never_fail: "columns_of pg C rows \<noteq> Fails e"
  by (simp add: columns_of_def gathered_def split: option.split)

text \<open>The name of the first parameter that is not an unsigned decimal number.\<close>

definition bad_param :: "rows_query_params \<Rightarrow> string option" where
  "bad_param q = map_option fst (find (Not \<circ> readable \<circ> snd) (named_params q))"

lemma resolve_bad_param:
  "case bad_param q of Some name \<Rightarrow> resolve q d m = Err (InvalidQuery name) | None \<Rightarrow> \<exists>b. resolve q d m = Ok b"
  by (simp add: bad_param_def named_params_def resolve_def parse_param_readable)

text \<open>
  Property C38: a table route answers by what its statements gave, in their order. First the existence
  probe, alone: when it fails the response is a 500 that says nothing but "database error", and when it
  finds nothing a 404 that names the table. Then, for a row query with a bad parameter, a 400 that
  names the first bad one, without a statement that concerns the table. Then the column query: when it
  fails, the same 500; when it answers, the schema route gives exactly the columns read, and the row
  route sends the page query with the bounds asked for: when that fails, or a row cannot be
  decoded, the same 500 again, and otherwise exactly the rows it gave, decoded, with limit and offset.
  Nothing else is sent in any case; only a catalogue row without the two text cells ends the request
  without a response.
\<close>

theorem routes_are_guarded:
  assumes "router (backend_of pg J C (watched pl)) st [''tables'', t, leaf] q = Some handler"
    and "handler (w, []) = (resp, (w', log))"
  shows "case fetch_rows pl (exists_sql pg) [Text t, Text PROGRESS_TABLE] w of
      (Err e, w0) \<Rightarrow> log = [exists_sql pg] \<and> resp = Some opaque_error
    | (Ok [], w0) \<Rightarrow> log = [exists_sql pg] \<and> resp = Some (404, Error_body (''unknown table: '' @ t))
    | (Ok (r # rs), w0) \<Rightarrow>
        (case (if leaf = ''rows'' then bad_param q else None) of
           Some name \<Rightarrow> log = [exists_sql pg] \<and> resp = Some (400, Error_body (''invalid query parameter: '' @ name))
         | None \<Rightarrow>
             (case fetch_rows pl (columns_sql pg t) (columns_args pg t) w0 of
                (Err e, w1) \<Rightarrow> log = [exists_sql pg, columns_sql pg t] \<and> resp = Some opaque_error
              | (Ok found, w1) \<Rightarrow>
                  (case columns_of pg C found of
                     Gives columns \<Rightarrow>
                       if leaf = ''rows'' then
                         (\<exists>b. resolve q (st_default_limit st) (st_max_limit st) = Ok b \<and>
                            log = [exists_sql pg, columns_sql pg t, page_sql pg t] \<and>
                            resp = (case fst (fetch_rows pl (page_sql pg t) (bounds_args b) w1) of
                              Err e \<Rightarrow> Some opaque_error
                            | Ok rows \<Rightarrow> (case collect_res (map (row_to_json J C columns) rows) of
                                Err e \<Rightarrow> Some opaque_error
                              | Ok objs \<Rightarrow> Some (200, Rows_body objs (b_limit b) (b_offset b)))))
                       else log = [exists_sql pg, columns_sql pg t] \<and> resp = Some (200, Schema_body t columns)
                   | _ \<Rightarrow> log = [exists_sql pg, columns_sql pg t] \<and> resp = None)))"
proof -
  let ?B = "backend_of pg J C (watched pl)"
  consider (schema) "leaf = ''schema''" "handler = get_schema_handler ?B t" | (rows) "leaf = ''rows''" "handler = query_rows_handler ?B st t q"
    using assms(1) by (auto simp: router_def split: if_splits)
  then show ?thesis
  proof cases
    case schema
    with assms(2) show ?thesis
      by (auto simp: get_schema_handler_def guarded_watched columns_watched respond_watched columns_never_fail
          split: prod.splits sum.splits list.splits call.splits)
  next
    case rows
    show ?thesis
    proof (cases "bad_param q")
      case (Some name)
      with resolve_bad_param [of q "st_default_limit st" "st_max_limit st"] rows assms(2) show ?thesis
        by (auto simp: query_rows_handler_def guarded_watched into_response_def split: prod.splits sum.splits list.splits)
    next
      case None
      with resolve_bad_param [of q "st_default_limit st" "st_max_limit st"] obtain b
        where "resolve q (st_default_limit st) (st_max_limit st) = Ok b" by auto
      with None rows assms(2) show ?thesis
        by (auto simp: query_rows_handler_def guarded_watched backend_rows page_of_def columns_watched fetch_watched respond_watched
            columns_never_fail called_cases intro!: exI [of _ b] split: prod.splits sum.splits list.splits call.split_asm call.split)
    qed
  qed
qed

text \<open>A table name with a quote in it that nobody wrote.\<close>

definition demo_archive :: archive where
  "demo_archive = \<lparr>arc_progress = None, arc_tables = [''ev'' \<mapsto> [(7, Text ''ja''), (9, Text ''jb''), (8, Text ''jc'')]]\<rparr>"

definition demo_json :: serde_json where
  "demo_json = \<lparr>number_of_i64 = (\<lambda>i. \<lparr>as_i64 = Some i, as_u64 = None, as_f64 = None\<rparr>), number_of_f64 = (\<lambda>f. None),
     value_of_str = (\<lambda>s. if s = [] then None else Some (JString (tl s)))\<rparr>"

definition demo_limits :: app_state where
  "demo_limits = \<lparr>st_default_limit = 100, st_max_limit = 1000\<rparr>"

definition no_params :: rows_query_params where
  "no_params = \<lparr>q_from_block = None, q_to_block = None, q_limit = None, q_offset = None\<rparr>"

text \<open>A pool whose page queries fail, with what the database says in its error.\<close>

definition broken_pages :: "(named_row, archive) ro_pool" where
  "broken_pages = \<lparr>fetch_rows = (\<lambda>sql args A.
     if sql = page_sql False ''ev'' then (Err (Sqlx_database ''disk I/O error: /var/lib/artemis.db'' None), A)
     else fetch_rows (mem_pool False) sql args A)\<rparr>"

lemma mem_columns_of: "columns_of pg named_cells (mem_columns pg) = Gives [(BLOCK_NUMBER_COLUMN, ''INTEGER''), (PAYLOAD_COLUMN, ''TEXT'')]"
  using normalized_types [of True n] normalized_types [of False n]
  by (cases pg) (simp_all add: columns_of_def gathered_def mem_columns_def get_string_def try_cell_def both_def normalized_def)

lemma page_differs: "columns_sql False t \<noteq> page_sql False t" "exists_sql False \<noteq> page_sql False t"
  by (simp_all add: columns_sql_def exists_sql_def page_sql_def table_info_sql_def TABLE_EXISTS_SQL_def range_query_def Let_def)

lemma routes_are_guarded_witness:
  "\<exists>handler. router (backend_of False demo_json named_cells (watched broken_pages)) demo_limits
       [''tables'', ''ev'', ''rows''] no_params = Some handler \<and>
     fst (handler (demo_archive, [])) = Some (500, Error_body ''database error'') \<and>
     snd (snd (handler (demo_archive, []))) = [TABLE_EXISTS_SQL, table_info_sql ''ev'', page_sql False ''ev'']"
proof -
  let ?h = "query_rows_handler (backend_of False demo_json named_cells (watched broken_pages)) demo_limits ''ev'' no_params"
  have route: "router (backend_of False demo_json named_cells (watched broken_pages)) demo_limits [''tables'', ''ev'', ''rows''] no_params = Some ?h"
    by (simp add: router_def)
  obtain resp w' log where run: "?h (demo_archive, []) = (resp, (w', log))" by (metis surj_pair)
  have ev: "''ev'' \<noteq> PROGRESS_TABLE" "listed False ''ev''" "bad_param no_params = None"
    by (simp_all add: PROGRESS_TABLE_def listed_def like_sqlite_def bad_param_def named_params_def no_params_def readable_def)
  have found: "fetch_rows broken_pages (exists_sql False) [Text ''ev'', Text PROGRESS_TABLE] demo_archive =
      (Ok [[(''1'', Integer 1)]], demo_archive)"
    and cols: "fetch_rows broken_pages (columns_sql False ''ev'') (columns_args False ''ev'') demo_archive = (Ok (mem_columns False), demo_archive)"
    using other_texts [of False "''ev''"] ev
    by (simp_all add: broken_pages_def mem_pool_def mem_answers demo_archive_def page_differs)
  have page: "fst (fetch_rows broken_pages (page_sql False ''ev'') args w) = Err (Sqlx_database ''disk I/O error: /var/lib/artemis.db'' None)" for args w
    by (simp add: broken_pages_def)
  from routes_are_guarded [OF route run] have "log = [exists_sql False, columns_sql False ''ev'', page_sql False ''ev''] \<and>
      resp = Some (500, Error_body ''database error'')"
    by (simp add: found cols page ev mem_columns_of)
  with route run show ?thesis by (simp add: exists_sql_def columns_sql_def)
qed

section \<open>Choosing a backend\<close>

text \<open>What the drivers are asked to open.\<close>

definition asked :: "('s, 'p, 'w) drivers \<Rightarrow> ('s, 'p, 'w \<times> (sqlite_options + string list) list) drivers" where
  "asked N = \<lparr>sqlite_from_str = sqlite_from_str N,
     sqlite_connect = (\<lambda>opts n (w, log). case sqlite_connect N opts n w of (r, w') \<Rightarrow> (r, (w', log @ [Inl opts]))),
     pg_connect = (\<lambda>sets url n (w, log). case pg_connect N sets url n w of (r, w') \<Rightarrow> (r, (w', log @ [Inr sets])))\<rparr>"

text \<open>Every pool the layer opens itself is read-only; an injected one is taken as it is.\<close>

lemma opens_read_only:
  assumes "build_backend (asked N) postgres l (w, []) = (r, (w', log))"
  shows "(\<forall>x \<in> set log. case x of Inl opts \<Rightarrow> opt_read_only opts \<and> \<not> opt_create_if_missing opts
      | Inr sets \<Rightarrow> sets = [''SET default_transaction_read_only = on'']) \<and>
    length log \<le> 1 \<and> (log = [] \<longrightarrow> \<not> is_ok r \<or> (\<exists>p. sl_source l = InjectedPg p \<and> r = Ok (Pg_pool p)))"
  using assms
  by (auto simp: build_backend_def asked_def open_read_only_pool_def connect_pg_backend_def context_msg_def map_err_def Let_def
      split: backend_source.splits if_splits prod.splits sum.splits)

text \<open>The guard against in-memory databases compares the whole path, so a query after it passes.\<close>

lemma memory_url_passes:
  "open_read_only_pool N ''sqlite::memory:'' n w = (Err [''in-memory databases are not supported by the serving layer''], w)"
  "open_read_only_pool N ''sqlite::memory:?cache=shared'' n w =
     (case sqlite_from_str N ''sqlite::memory:?cache=shared'' of Err e \<Rightarrow> (Err e, w)
      | Ok opts \<Rightarrow> sqlite_connect N (opts\<lparr>opt_read_only := True, opt_create_if_missing := False, opt_busy_timeout := 5 * 10 ^ 9\<rparr>) n w)"
  by (simp_all add: open_read_only_pool_def sqlite_path_def strip_prefix_def starts_with_def)

section \<open>What is served is what was written\<close>

text \<open>A page of rows: its parameters as text.\<close>

definition page_params :: "u64 \<Rightarrow> u64 \<Rightarrow> u64 \<Rightarrow> u64 \<Rightarrow> rows_query_params" where
  "page_params a b l off = \<lparr>q_from_block = Some (u64_to_string a), q_to_block = Some (u64_to_string b),
     q_limit = Some (u64_to_string l), q_offset = Some (u64_to_string off)\<rparr>"

lemma digit_not_space: "to_digit c \<noteq> None \<Longrightarrow> \<not> is_space c"
  by (auto simp: to_digit_def is_space_def Let_def split: if_splits)

lemma dropWhile_id: "(\<And>x. x \<in> set xs \<Longrightarrow> \<not> p x) \<Longrightarrow> dropWhile p xs = xs"
  by (cases xs) auto

lemma trim_digits: "trim (u64_to_string x) = u64_to_string x"
proof -
  have "\<not> is_space c" if "c \<in> set (u64_to_string x)" for c
    using dec_string_digits that by (intro digit_not_space) (simp add: u64_to_string_def)
  then have "dropWhile is_space (u64_to_string x) = u64_to_string x" "dropWhile is_space (rev (u64_to_string x)) = rev (u64_to_string x)"
    by (auto intro: dropWhile_id)
  then show ?thesis by (simp add: trim_def)
qed

lemma resolve_page:
  assumes "a \<le> MAX_BIND" "b \<le> MAX_BIND" "1 \<le> l" "l \<le> m" "l \<le> MAX_BIND" "off \<le> MAX_BIND"
  shows "\<exists>bd. resolve (page_params a b l off) d m = Ok bd \<and>
    bounds_args bd = [Integer (int (unat a)), Integer (int (unat b)), Integer (int (unat l)), Integer (int (unat off))]"
proof -
  have "clamp l 1 (clamp m 1 MAX_BIND) = l" using assms(3,4,5) by (auto simp: clamp_def)
  with assms show ?thesis
    by (simp add: resolve_def page_params_def parse_param_def trim_digits parse_u64_to_string map_err_def bounds_args_def cast_below
        min_absorb1)
qed

lemma pages_concat:
  "\<forall>k<n. list_all2 R (objs k) (take l (drop (k * l) xs)) \<Longrightarrow> list_all2 R (concat (map objs [0..<n])) (take (n * l) xs)"
proof (induction n)
  case (Suc n)
  then have "list_all2 R (concat (map objs [0..<n])) (take (n * l) xs)" "list_all2 R (objs n) (take l (drop (n * l) xs))" by simp_all
  then have "list_all2 R (concat (map objs [0..<n]) @ objs n) (take (n * l) xs @ take l (drop (n * l) xs))"
    by (rule list_all2_appendI)
  then show ?case by (simp add: take_add [symmetric] add.commute)
qed simp

lemma arc_contents_stored: "arc_tables A t = Some old \<Longrightarrow> arc_contents A t = map as_stored old"
  by (simp add: arc_contents_def as_stored_def case_prod_beta)

lemma in_range_stored: "filter (in_range a b) (map as_stored old) = map as_stored (filter (in_range a b) old)"
  by (induction old) (simp_all add: in_range_def as_stored_def)

lemma unat_small: "m < 2 ^ 63 \<Longrightarrow> unat (of_nat m :: u64) = m"
  by (simp add: unat_of_nat take_bit_nat_eq_self)

text \<open>All pages of a range, each asked for at a moment when the database holds the archive.\<close>

context served_archive begin

lemma pages_render:
  assumes "a \<le> MAX_BIND" "b \<le> MAX_BIND" "1 \<le> l" "l \<le> st_max_limit lim" "l \<le> MAX_BIND" "n * unat l < 2 ^ 63"
    and "\<forall>k<n. view (world k) = A \<and> fst (query_rows_handler (backend_of pg J C pl) lim t
      (page_params a b l (of_nat (k * unat l))) (world k)) = Some (200, Rows_body (objs k) (l' k) (off' k))"
    and "length (filter (in_range (int (unat a)) (int (unat b))) (arc_contents A t)) \<le> n * unat l"
  shows "\<exists>out. sorted (map fst out) \<and> mset out = mset (filter (in_range (int (unat a)) (int (unat b))) (arc_contents A t)) \<and>
    list_all2 (renders J) (concat (map objs [0..<n])) out"
proof -
  let ?x = "int (unat a)" and ?y = "int (unat b)"
  have page: "arc_tables A t \<noteq> None \<and> list_all2 (renders J) (objs k) (map as_stored (take (unat l) (drop (k * unat l) (listing A t ?x ?y))))"
    if "k < n" for k
  proof -
    have "k * unat l \<le> n * unat l" using that by simp
    with assms(6) have "k * unat l < 2 ^ 63" by linarith
    then have off: "unat (of_nat (k * unat l) :: u64) = k * unat l" by (rule unat_small)
    have "unat (of_nat (k * unat l) :: u64) \<le> unat MAX_BIND" unfolding off unat_max_bind using \<open>k * unat l < 2 ^ 63\<close> by linarith
    then have "of_nat (k * unat l) \<le> MAX_BIND" by (simp only: word_le_nat_alt)
    from resolve_page [OF assms(1-5) this, of "st_default_limit lim"] obtain bd
      where bd: "resolve (page_params a b l (of_nat (k * unat l))) (st_default_limit lim) (st_max_limit lim) = Ok bd"
      "bounds_args bd = [Integer ?x, Integer ?y, Integer (int (unat l)), Integer (int (k * unat l))]" unfolding off by blast
    from assms(7) that obtain w' where "query_rows_handler (backend_of pg J C pl) lim t (page_params a b l (of_nat (k * unat l))) (world k) =
        (Some (200, Rows_body (objs k) (l' k) (off' k)), w')" and A: "view (world k) = A" by (metis prod.collapse)
    from answered_page [OF this(1) bd] A show ?thesis by simp
  qed
  show ?thesis
  proof (cases "arc_tables A t")
    case None
    with page have "n = 0" by auto
    with assms(8) show ?thesis by simp
  next
    case (Some old)
    note order = listing_ok [OF Some, of ?x ?y]
    let ?out = "map as_stored (listing A t ?x ?y)"
    from order have rows: "mset ?out = mset (filter (in_range ?x ?y) (arc_contents A t))"
      unfolding arc_contents_stored [OF Some] in_range_stored by (simp only: mset_map)
    then have "length ?out \<le> n * unat l" using assms(8) by (metis size_mset)
    moreover have "list_all2 (renders J) (concat (map objs [0..<n])) (take (n * unat l) ?out)"
      by (rule pages_concat) (use page in \<open>simp add: take_map drop_map\<close>)
    moreover have "sorted (map fst ?out)" using order by (simp add: comp_def as_stored_def)
    ultimately have "list_all2 (renders J) (concat (map objs [0..<n])) ?out \<and> sorted (map fst ?out)" by simp
    with rows show ?thesis by blast
  qed
qed

end

lemma written_contents:
  assumes "sql_archive D DB view tview P" "store_sound view st0" "fitting ws" "run_writes (sql_store P D DB) ws st0 = (st, log)"
  shows "arc_contents (view (pool st)) t = arc_contents (view (pool st0)) t @ log_rows P t log"
proof -
  note contract = sql_archive.sql_store_contract [OF assms(1)]
  from store_contract.run_writes_agree [OF contract assms(3) store_contract.agrees_start [OF contract assms(2)]] assms(4)
  have "store_contract.agrees P (\<lambda>st. arc_contents (view (pool st))) (\<lambda>st. arc_mark P (view (pool st)))
      (store_sound view) st0 (st, log)" by (simp add: run_writes_def)
  from this [unfolded store_contract.agrees_def [OF contract], simplified] show ?thesis by simp
qed

text \<open>
  Property C29: what a run of writes left in the archive is what the serving layer serves: when a
  client asks for the consecutive pages of a block range of a table until they cover it, and every
  page is answered, then the objects of the pages together are, in ascending block order and each
  exactly once, the rows of the range that were there or were written by a successful write, with
  their block number and their payload parsed.  This holds for either backend over any database
  that keeps its documented laws and changes no more while the pages are read.
\<close>

theorem archive_is_served:
  assumes "sql_archive D DB view tview P" and "store_sound view st0" and "fitting ws"
    and "run_writes (sql_store P D DB) ws st0 = (st, log)"
    and "served_archive pg C pl sview listing"
    and "a \<le> MAX_BIND" and "b \<le> MAX_BIND" and "1 \<le> l" and "l \<le> st_max_limit lim" and "l \<le> MAX_BIND" and "n * unat l < 2 ^ 63"
    and "\<forall>k<n. sview (world k) = view (pool st) \<and> fst (query_rows_handler (backend_of pg J C pl) lim t
      (page_params a b l (of_nat (k * unat l))) (world k)) = Some (200, Rows_body (objs k) (l' k) (off' k))"
    and "length (filter (in_range (int (unat a)) (int (unat b))) (arc_contents (view (pool st)) t)) \<le> n * unat l"
  shows "\<exists>out. sorted (map fst out) \<and> list_all2 (renders J) (concat (map objs [0..<n])) out \<and>
    mset out = mset (filter (in_range (int (unat a)) (int (unat b))) (arc_contents (view (pool st0)) t @ log_rows P t log))"
  using served_archive.pages_render [OF assms(5-13)] unfolding written_contents [OF assms(1-4)] by blast

text \<open>The database in memory answers every page of a table whose payload cells are text.\<close>

lemma upper_types: "to_ascii_uppercase ''INTEGER'' = ''INTEGER''" "to_ascii_uppercase ''TEXT'' = ''TEXT''"
  by code_simp+

definition mem_object :: "serde_json \<Rightarrow> i64 \<times> sql_value \<Rightarrow> json_object" where
  "mem_object J kv = bt_insert PAYLOAD_COLUMN (parse_payload J (text_of (snd kv)))
     (bt_insert BLOCK_NUMBER_COLUMN (JNumber (number_of_i64 J (fst kv))) [])"

lemma mem_row_json:
  "\<exists>j. snd kv = Text j \<Longrightarrow> row_to_json J named_cells [(BLOCK_NUMBER_COLUMN, ''INTEGER''), (PAYLOAD_COLUMN, ''TEXT'')] (mem_row kv) = Ok (mem_object J kv)"
  by (auto simp: row_to_json_def cell_to_json_def upper_types mem_row_def try_cell_def mem_object_def)

lemma mem_page_answered:
  assumes "arc_tables A t = Some old" "t \<noteq> PROGRESS_TABLE" "listed pg t" "\<forall>kv \<in> set old. \<exists>j. snd kv = Text j"
    and "a \<le> MAX_BIND" "b \<le> MAX_BIND" "1 \<le> l" "l \<le> st_max_limit lim" "l \<le> MAX_BIND" "off \<le> MAX_BIND"
  shows "\<exists>l' off'. query_rows_handler (backend_of pg J named_cells (mem_pool pg)) lim t (page_params a b l off) A =
    (Some (200, Rows_body (map (mem_object J) (take (unat l) (drop (unat off) (mem_listing A t (int (unat a)) (int (unat b)))))) l' off'), A)"
proof -
  let ?rows = "take (unat l) (drop (unat off) (mem_listing A t (int (unat a)) (int (unat b))))"
  from resolve_page [OF assms(5-10), of "st_default_limit lim"] obtain bd
    where bd: "resolve (page_params a b l off) (st_default_limit lim) (st_max_limit lim) = Ok bd"
    "bounds_args bd = [Integer (int (unat a)), Integer (int (unat b)), Integer (int (unat l)), Integer (int (unat off))]" by blast
  have "set ?rows \<subseteq> set old"
    using assms(1) by (auto simp: mem_listing_def dest!: in_set_takeD in_set_dropD)
  with assms(4) have "map (row_to_json J named_cells [(BLOCK_NUMBER_COLUMN, ''INTEGER''), (PAYLOAD_COLUMN, ''TEXT'')]) (map mem_row ?rows)
      = map Ok (map (mem_object J) ?rows)"
    by (auto intro!: mem_row_json simp del: split_paired_All)
  then have "collect_res (map (row_to_json J named_cells [(BLOCK_NUMBER_COLUMN, ''INTEGER''), (PAYLOAD_COLUMN, ''TEXT'')]) (map mem_row ?rows))
      = Ok (map (mem_object J) ?rows)" by (simp only: collect_res_map_Ok)
  with assms(1,2,3) bd show ?thesis
    by (simp add: query_rows_handler_def guarded_def backend_exists backend_rows backend_columns page_of_def fetch_with_def mem_pool_def
        mem_answers mem_columns_of mem_page_def)
qed

text \<open>The archive of \<^theory_text>\<open>Sql_Properties\<close> after its restart, read in two pages of one row each.\<close>

definition left_archive :: archive where
  "left_archive = disk (pool demo_after)"

lemma left_archive_rows: "arc_tables left_archive ''ev'' = Some [(7, Text ''ja''), (8, Text ''jb'')]"
  by (simp add: left_archive_def demo_after_def)

lemma left_archive_listing: "mem_listing left_archive ''ev'' 0 100 = [(7, Text ''ja''), (8, Text ''jb'')]"
  by (simp add: mem_listing_def left_archive_rows in_range_def)

definition demo_page :: "nat \<Rightarrow> json_object list" where
  "demo_page k = map (mem_object demo_json) (take 1 (drop k [(7, Text ''ja''), (8, Text ''jb'')]))"

lemma demo_pages_answered:
  assumes "k < 2"
  shows "\<exists>l' off'. fst (query_rows_handler (backend_of True demo_json named_cells (mem_pool True)) demo_limits ''ev''
    (page_params 0 100 1 (of_nat (k * unat (1 :: u64)))) left_archive) = Some (200, Rows_body (demo_page k) l' off')"
proof -
  have off: "unat (of_nat k :: u64) = k" by (rule unat_small) (use assms in simp)
  then have "of_nat k \<le> MAX_BIND" using assms by (simp add: word_le_nat_alt unat_max_bind)
  moreover have "''ev'' \<noteq> PROGRESS_TABLE" "listed True ''ev''" "(100 :: u64) \<le> MAX_BIND" "(1 :: u64) \<le> st_max_limit demo_limits"
    by (simp_all add: PROGRESS_TABLE_def listed_def MAX_BIND_def demo_limits_def)
  ultimately obtain l' off' where "query_rows_handler (backend_of True demo_json named_cells (mem_pool True)) demo_limits ''ev''
      (page_params 0 100 1 (of_nat k)) left_archive = (Some (200, Rows_body (map (mem_object demo_json)
        (take (unat (1 :: u64)) (drop (unat (of_nat k :: u64)) (mem_listing left_archive ''ev'' (int (unat (0 :: u64))) (int (unat (100 :: u64)))))))
        l' off'), left_archive)"
    using mem_page_answered [OF left_archive_rows, of True 0 100 1 demo_limits "of_nat k" demo_json] one_le_bind by auto
  then show ?thesis by (simp add: off left_archive_listing demo_page_def)
qed

lemma archive_is_served_witness:
  "\<exists>out. sorted (map fst out) \<and> list_all2 (renders demo_json) (concat (map demo_page [0..<2])) out \<and>
     mset out = {#(7, ''ja''), (8, ''jb'')#}"
proof -
  have fitting: "fitting demo_writes" by (simp add: fitting_def demo_writes_def demo_rows_fit)
  let ?st = "demo_after\<lparr>pool := (pool demo_after)\<lparr>attempts := 3\<rparr>\<rparr>"
  from demo_pages_answered obtain l' off' where pages: "\<forall>k<2. left_archive = disk (pool ?st) \<and>
      fst (query_rows_handler (backend_of True demo_json named_cells (mem_pool True)) demo_limits ''ev''
        (page_params 0 100 1 (of_nat (k * unat (1 :: u64)))) left_archive) = Some (200, Rows_body (demo_page k) (l' k) (off' k))"
    by (simp add: left_archive_def) metis
  have rows: "arc_contents (disk (pool ?st)) ''ev'' = [(7, ''ja''), (8, ''jb'')]"
    using left_archive_rows by (simp add: arc_contents_def left_archive_def)
  have sizes: "(0 :: u64) \<le> MAX_BIND" "(100 :: u64) \<le> MAX_BIND" "(1 :: u64) \<le> 1" "1 \<le> st_max_limit demo_limits" "(1 :: u64) \<le> MAX_BIND"
    "2 * unat (1 :: u64) < 2 ^ 63"
    by (simp_all add: MAX_BIND_def demo_limits_def)
  have enough: "length (filter (in_range (int (unat (0 :: u64))) (int (unat (100 :: u64)))) (arc_contents (disk (pool ?st)) ''ev''))
      \<le> 2 * unat (1 :: u64)" unfolding rows by (simp add: in_range_def)
  have "arc_contents (disk (pool (sql_store_new demo_legacy))) ''ev'' @ log_rows block_position_ops ''ev'' [(demo_schema, BlockPosition 8, [demo_row ''b''])]
      = [(7, ''ja''), (8, ''jb'')]"
    using written_contents [OF mem_pg.sql_archive_axioms demo_legacy_sound fitting restart_run, of "''ev''"] rows by simp
  then have "mset (filter (in_range (int (unat (0 :: u64))) (int (unat (100 :: u64))))
      (arc_contents (disk (pool (sql_store_new demo_legacy))) ''ev'' @ log_rows block_position_ops ''ev'' [(demo_schema, BlockPosition 8, [demo_row ''b''])]))
      = {#(7, ''ja''), (8, ''jb'')#}" by (simp add: in_range_def)
  with archive_is_served [OF mem_pg.sql_archive_axioms demo_legacy_sound fitting restart_run mem_served.served_archive_axioms
      sizes pages enough] show ?thesis by simp
qed

section \<open>Rows read back\<close>

text \<open>A row whose cells fit its columns fills every column.\<close>

lemma fill_object_fits:
  assumes "json_numbers J" "list_all2 (holds_cell C r) cols vals"
  shows "\<exists>obj'. fill_object J C r cols obj = Ok obj'"
  using assms(2)
proof (induction cols vals arbitrary: obj rule: list_all2_induct)
  case (Cons c cols v vals)
  from cell_shown [OF assms(1), of C r "fst c" "snd c" v] Cons.hyps(1)
  obtain j where "cell_to_json J C r (fst c) (snd c) = Ok j" by auto
  with Cons.IH [of "bt_insert (fst c) j obj"] show ?case by (cases c) simp
qed simp

text \<open>
  Property C39: a stored row whose cells are of their columns' types always becomes an object, with
  exactly the columns as keys, and a client that knows the types reads the stored cells back from
  it: integers, finite reals and NULL as they are, blobs from their hex text, texts as they are; a
  real that is not finite is read as NULL, and the payload column is its parsed text, or the text
  itself where it is no JSON.
\<close>

theorem rows_read_back:
  assumes "json_numbers J" and "distinct (map fst cols)" and "list_all2 (holds_cell C r) cols vals"
  shows "\<exists>obj. row_to_json J C cols r = Ok obj \<and> set (bt_keys obj) = set (map fst cols) \<and>
    list_all2 (\<lambda>c v. \<exists>j. bt_get obj (fst c) = Some j \<and> shows_cell J c v j) cols vals"
proof -
  from fill_object_fits [OF assms(1,3)] obtain obj where obj: "fill_object J C r cols [] = Ok obj" by blast
  note cells = fill_object_cells [OF obj assms(2) bt_wf_Nil]
  have keys: "bt_get obj x = None \<longleftrightarrow> x \<notin> set (map fst cols)" for x
  proof (cases "map_of cols x")
    case None
    with cells have "bt_get obj x = None" by (simp add: bt_get_def)
    with None show ?thesis by (simp add: map_of_eq_None_iff)
  next
    case (Some ty)
    with cells obtain v where "cell_to_json J C r x ty = Ok v" by (metis is_ok_simps(2) obj_sumE)
    with cells Some have "bt_get obj x \<noteq> None" by simp
    moreover from Some have "x \<in> set (map fst cols)" by (metis map_of_eq_None_iff option.distinct(1) set_map)
    ultimately show ?thesis by blast
  qed
  have "\<exists>j. bt_get obj (fst c) = Some j \<and> shows_cell J c v j" if "(c, v) \<in> set (zip cols vals)" for c v
  proof -
    from that assms(3) have "holds_cell C r (fst c, snd c) v" by (auto simp: list_all2_iff)
    from cell_shown [OF assms(1) this] obtain j where "cell_to_json J C r (fst c) (snd c) = Ok j" "shows_cell J c v j" by auto
    moreover from that assms(2) have "map_of cols (fst c) = Some (snd c)"
      by (cases c) (auto dest: set_zip_leftD)
    ultimately show ?thesis using cells by auto
  qed
  with assms(3) have "list_all2 (\<lambda>c v. \<exists>j. bt_get obj (fst c) = Some j \<and> shows_cell J c v j) cols vals"
    by (simp add: list_all2_iff case_prod_beta)
  moreover have "set (bt_keys obj) = set (map fst cols)"
    using keys by (auto simp: bt_keys_def bt_get_def map_of_eq_None_iff)
  ultimately show ?thesis using obj by (auto simp: row_to_json_def)
qed

text \<open>A row of every type; a real that is infinite.\<close>

definition exact_json :: serde_json where
  "exact_json = \<lparr>number_of_i64 = (\<lambda>i. \<lparr>as_i64 = Some i, as_u64 = None, as_f64 = None\<rparr>),
     number_of_f64 = (\<lambda>f. if f64_finite f then Some \<lparr>as_i64 = None, as_u64 = None, as_f64 = Some f\<rparr> else None),
     value_of_str = (\<lambda>s. if s = [] then None else Some (JString (tl s)))\<rparr>"

definition typed_columns_demo :: "(string \<times> string) list" where
  "typed_columns_demo = [(''n'', ''INTEGER''), (''ratio'', ''REAL''), (''raw'', ''BLOB''), (''note'', ''TEXT''), (''_payload'', ''TEXT'')]"

definition typed_row_demo :: named_row where
  "typed_row_demo = [(''n'', Integer (- 5)), (''ratio'', Real 0x7FF0000000000000), (''raw'', Blob [0, 255]), (''note'', Null),
     (''_payload'', Text ''j1'')]"

lemma rows_read_back_witness:
  "\<exists>obj. row_to_json exact_json named_cells typed_columns_demo typed_row_demo = Ok obj \<and>
     (\<exists>j. bt_get obj ''ratio'' = Some j \<and> client_value ''REAL'' j = Some Null) \<and>
     (\<exists>j. bt_get obj ''raw'' = Some j \<and> client_value ''BLOB'' j = Some (Blob [0, 255])) \<and>
     bt_get obj ''_payload'' = Some (JString ''1'')"
proof -
  have upper: "to_ascii_uppercase ''REAL'' = ''REAL''" "to_ascii_uppercase ''BLOB'' = ''BLOB''" by code_simp+
  have laws: "json_numbers exact_json" by (simp add: json_numbers_def exact_json_def)
  have columns: "distinct (map fst typed_columns_demo)" by (simp add: typed_columns_demo_def)
  have inf: "\<not> f64_finite 0x7FF0000000000000" by (simp add: f64_finite_def)
  have "list_all2 (holds_cell named_cells typed_row_demo) typed_columns_demo (map snd typed_row_demo)"
    by (simp add: typed_columns_demo_def typed_row_demo_def holds_cell_def upper upper_types named_cells_def try_cell_def is_i64_def i64_max_def)
  from rows_read_back [OF laws columns this] obtain obj where "row_to_json exact_json named_cells typed_columns_demo typed_row_demo = Ok obj"
    "list_all2 (\<lambda>c v. \<exists>j. bt_get obj (fst c) = Some j \<and> shows_cell exact_json c v j) typed_columns_demo (map snd typed_row_demo)" by blast
  then show ?thesis
    by (auto simp: typed_columns_demo_def typed_row_demo_def shows_cell_def as_served_def inf PAYLOAD_COLUMN_def parse_payload_def exact_json_def)
qed

end
