(* ===== verification/Archive_Properties.thy ===== *)
theory Archive_Properties
  imports Archive_Runs Serving_Properties Node_Collectors
begin

text \<open>What an archive holds after any number of runs of a bounded indexer.\<close>

section \<open>The gap-free prefix\<close>

lemma blocks_resume_next: "resumes_next block_position_ops"
  by (simp add: resumes_next_def block_resume_key_def)

lemma block_cells: "event_cell block_position_ops sd = (\<lambda>(q, e). (int (unat (block_number q)), event_text sd e))"
  by (auto simp: event_cell_def)

text \<open>The invariant of a life that starts with an empty table.\<close>

lemma indexer_gap_free:
  assumes "sql_archive D DB view tview block_position_ops" and "store_sound view st0" and "sorted (map fst history)"
    and "arc_contents (view (pool st0)) t = []" and "arc_mark block_position_ops (view (pool st0)) t = None"
    and "lifetime block_position_ops sd (sql_store block_position_ops D DB) (\<lambda>st. sql_store_new (pool st)) srcs history t start st0 st"
  shows "store_sound view st \<and> gap_free block_position_ops sd history start (arc_contents (view (pool st)) t)
    (arc_mark block_position_ops (view (pool st)) t)"
  using store_contract.lifetime_gap_free [OF sql_archive.sql_store_contract [OF assms(1)] assms(6) block.position_order_axioms _
      blocks_resume_next] assms(2-5) sorted_block_numbers [of history]
  by (auto simp: gap_free_def stored_history_def store_sound_def sql_store_new_def)

text \<open>
  Property C1: the promise of the persistence layer for a block-like collector in bounded mode, over
  its whole life: start with an empty table; subscribe any number of times, with any bounds and
  window sizes, over sources that serve the history up to their tips; let windows fail, the store
  fail, migrations race, the process be killed after any event, and the archive be reopened. The table then holds
  exactly the events of the history from the start block to the resume point, each once, in
  order, with its block and its JSON text: nothing is missing below the resume point and nothing
  is stored above it. What a new subscription reads as the stored position is that resume point.
\<close>

theorem archive_stays_gap_free:
  assumes "sql_archive D DB view tview block_position_ops" and "store_sound view st0"
    and "sorted (map fst history)"
    and "arc_contents (view (pool st0)) t = []" and "arc_mark block_position_ops (view (pool st0)) t = None"
    and "lifetime block_position_ops sd (sql_store block_position_ops D DB) (\<lambda>st. sql_store_new (pool st)) srcs history t start st0 st"
  shows "arc_contents (view (pool st)) t =
      (case arc_mark block_position_ops (view (pool st)) t of
         None \<Rightarrow> []
       | Some p \<Rightarrow> map (\<lambda>(q, e). (int (unat (block_number q)), event_text sd e))
           (filter (\<lambda>(q, e). start \<le> block_number q \<and> block_number q \<le> block_number p) history)) \<and>
    (\<forall>m. sql_stored_position block_position_ops D DB t st = Ok m \<longrightarrow> m = arc_mark block_position_ops (view (pool st)) t)"
proof -
  from indexer_gap_free [OF assms] have sound: "store_sound view st" and gaps: "gap_free block_position_ops sd history start
      (arc_contents (view (pool st)) t) (arc_mark block_position_ops (view (pool st)) t)" by blast+
  have "stored_history block_position_ops history start m =
      (case m of None \<Rightarrow> [] | Some p \<Rightarrow> filter (\<lambda>(q, e). start \<le> block_number q \<and> block_number q \<le> block_number p) history)" for m
    by (auto simp: stored_history_def between_def case_prod_unfold split: option.split)
  with gaps sql_archive.stored_position_mark [OF assms(1) sound, of t] show ?thesis
    by (auto simp: gap_free_def block_cells split: option.splits)
qed

text \<open>
  Event collectors are such sources: a bounded subscription of one whose node answers log queries
  from the canonical chain up to its tip is a session over the history of the chain.
\<close>

lemma event_collector_session:
  assumes "canonical chain" and "answers_logs N (filter (\<lambda>(event, l). the (log_block l) \<le> tip) chain)"
    and "\<forall>w b. fst (get_block_number N w) = Ok b \<longrightarrow> b = tip"
    and "p_to_block cfg = Some bound" and "min bound tip < max_val" and "0 < p_chunk cfg"
    and "p_schema cfg = None" and "p_table cfg = Some t"
  shows "bounded_session block_position_ops (event_source N) (history_of chain) cfg t (p_start_block cfg)"
proof -
  let ?upto = "filter (\<lambda>(event, l). the (log_block l) \<le> tip) chain"
  have "canonical ?upto"
    using assms(1) sorted_filter [of "\<lambda>(event, l). the (log_block l)" chain] by (auto simp: canonical_def)
  moreover have "history_of ?upto = filter (\<lambda>pe. sort_key block_position_ops (fst pe) \<le> sort_key block_position_ops (BlockPosition tip)) (history_of chain)"
    by (simp add: history_of_def filter_map comp_def case_prod_unfold)
  ultimately have "serves block_position_ops (event_source N)
      (filter (\<lambda>pe. sort_key block_position_ops (fst pe) \<le> sort_key block_position_ops (BlockPosition tip)) (history_of chain))"
    using event_source_serves [OF _ assms(2)] by simp
  moreover have "\<forall>c p. fst (source_tip (event_source N) c) = Ok p \<longrightarrow> p = BlockPosition tip"
  proof (intro allI impI)
    fix c p assume p: "fst (source_tip (event_source N) c) = Ok p"
    obtain r c' where "get_block_number N c = (r, c')" by fastforce
    moreover from this assms(3) have "r = Ok b \<Longrightarrow> b = tip" for b by (metis fst_conv)
    ultimately show "p = BlockPosition tip" using p by (cases r) (auto simp: event_source_def event_tip_def)
  qed
  ultimately show ?thesis
    using assms(4-8) unfolding bounded_session_def
    by (intro conjI exI [of _ "BlockPosition tip"]) (auto simp: effective_tip_def resolve_record_def record_inferred_def)
qed

text \<open>
  An empty SQLite archive and a node with blocks up to 9: a run bounded at 5, a reopened archive, and
  a second run bounded at 20 that stops at the tip.
\<close>

definition bounded_cfg :: "u64 \<Rightarrow> persisted" where
  "bounded_cfg b = with_to_block b demo_cfg"

abbreviation sqlite :: "(block_position, mem_disk sql_store) store_ops" where
  "sqlite \<equiv> sql_store block_position_ops sqlite_dialect (mem_db no_faults)"

lemma bounded_demo:
  "b < max_val \<Longrightarrow> bounded_session block_position_ops (block_source 2 9 demo_history) demo_history (bounded_cfg b) ''ev'' 1"
proof -
  assume b: "b < max_val"
  have up_to: "filter (\<lambda>pe. block_number (fst pe) \<le> 9) demo_history = demo_history" by (simp add: demo_history_def)
  have "effective_tip (bounded_cfg b) 9 < max_val"
    by (simp add: bounded_cfg_def with_to_block_def effective_tip_def b [unfolded max_val_def] max_val_def min_def)
  moreover have "\<forall>c p. fst (source_tip (block_source 2 9 demo_history) c) = Ok p \<longrightarrow> p = BlockPosition 9" by (simp add: block_source_def)
  ultimately show ?thesis
    unfolding bounded_session_def using block_source_serves [OF demo_history_sorted, of 2 9]
    by (intro conjI exI [of _ "BlockPosition 9"])
      (simp_all add: up_to bounded_cfg_def with_to_block_def subscribe_simps)
qed

lemma write_2: "sql_write block_position_ops sqlite_dialect (mem_db no_faults) demo_schema (BlockPosition 2) [demo_row ''a''] blank_archive =
    (Ok (), filled (Suc 0) 2 [(2, Text ''ja'')])"
  by (simp add: sql_write_def sql_simps blank_archive_def filled_def)

lemma write_3: "sql_write block_position_ops sqlite_dialect (mem_db no_faults) demo_schema (BlockPosition 3) [demo_row ''b'']
    (filled (Suc 0) 2 [(2, Text ''ja'')]) = (Ok (), filled 2 3 [(2, Text ''ja''), (3, Text ''jb'')])"
  by (simp add: sql_write_def sql_simps filled_def block_decode_encode)

lemma write_7: "sql_write block_position_ops sqlite_dialect (mem_db no_faults) demo_schema (BlockPosition 7) [demo_row ''c'']
    (sql_store_new (pool (filled 2 3 [(2, Text ''ja''), (3, Text ''jb'')]))) =
    (Ok (), filled 3 7 [(2, Text ''ja''), (3, Text ''jb''), (7, Text ''jc'')])"
  by (simp add: sql_write_def sql_simps filled_def block_decode_encode)

lemma sqlite_ops: "store_write sqlite = sql_write block_position_ops sqlite_dialect (mem_db no_faults)"
  "stored_position sqlite = sql_stored_position block_position_ops sqlite_dialect (mem_db no_faults)"
  by (simp_all add: sql_store_def)

lemma inferred_table: "rec_table (record_inferred t) = t"
  by (simp add: record_inferred_def)

lemmas archive_run_simps = run_simps sqlite_ops inferred_table Sql_Properties.demo_schema_def [symmetric] write_2 write_3 write_7
  consume_def bounded_cfg_def with_to_block_def subscribe_def demo_cfg_def with_backfill_chunk_size_def with_start_block_def
  with_table_def persisted_new_def resolve_record_def block_source_def effective_tip_def replay_segment_def
  backfill_segment_def backfill_from_def chunked_query_def window_end_def query_range_split.simps is_response_size_error_def
  size_error_marks_def to_ascii_lowercase_def is_ascii_uppercase_def midpoint_def final_cut_def chunk_loop.simps
  demo_history_def between_def

lemma blank_position: "sql_stored_position block_position_ops sqlite_dialect (mem_db no_faults) ''ev'' blank_archive = Ok None"
  by (simp add: sql_stored_position_def mem_db_def blank_archive_def sql_store_new_def)

lemma filled_position: "sql_stored_position block_position_ops sqlite_dialect (mem_db no_faults) ''ev''
    (sql_store_new (pool (filled n k rows))) = Ok (Some (BlockPosition k))"
  by (simp add: sql_stored_position_def mem_db_def filled_def sql_store_new_def position_rows_def cell_def map_err_def block_decode_encode)

lemma first_run:
  "\<exists>seg c1 out c3. subscribe block_position_ops demo_serde sqlite (block_source 2 9 demo_history) (bounded_cfg 5) True blank_archive 0 = (Ok seg, c1) \<and>
     consume block_position_ops demo_serde sqlite (bounded_cfg 5) True seg blank_archive c1 =
       Some (out, True, filled 2 3 [(2, Text ''ja''), (3, Text ''jb'')], c3)"
  by (simp add: archive_run_simps blank_position)

abbreviation half_filled :: "mem_disk sql_store" where
  "half_filled \<equiv> sql_store_new (pool (filled 2 3 [(2, Text ''ja''), (3, Text ''jb'')]))"

definition second_segments :: "(block_position, string, nat) segments" where
  "second_segments = \<lparr>seg_replay = [], seg_marks = False,
     seg_backfill = chunk_loop block_position_ops (block_source 2 9 demo_history) 9 3 7,
     seg_live = [], seg_record = record_inferred ''ev'', seg_cut = Some 9, seg_seed = Some (BlockPosition 3)\<rparr>"

lemma second_subscribes: "subscribe block_position_ops demo_serde sqlite (block_source 2 9 demo_history) (bounded_cfg 20) True half_filled 0 =
    (Ok second_segments, 3)"
  by (simp add: archive_run_simps filled_position block_resume_key_def second_segments_def del: chunk_loop.simps)

lemma second_chunks: "chunk_loop block_position_ops (block_source 2 9 demo_history) 9 3 7 c = Some ([(BlockPosition 7, ''c'')], False, c + 3)"
  by (simp add: archive_run_simps)

lemma second_emits: "persist_and_emit (plain_env block_position_ops demo_serde sqlite) [(BlockPosition 7, ''c'')] [] 1 (Some 9) (Some (BlockPosition 3))
      \<lparr>w_store = half_filled, w_record = record_inferred ''ev''\<rparr> =
    ([''c''], \<lparr>bw_core = \<lparr>core_schema = Some demo_schema, core_healthy = True\<rparr>, bw_buffer = [], bw_current = None,
        bw_watermark = Some (BlockPosition 7)\<rparr>,
      \<lparr>cw_core = \<lparr>core_schema = None, core_healthy = True\<rparr>, cw_depth = 1, cw_pending = [], cw_head = None,
        cw_flushed = Some 9, cw_watermark = Some (BlockPosition 9)\<rparr>,
      \<lparr>w_store = filled 3 7 [(2, Text ''ja''), (3, Text ''jb''), (7, Text ''jc'')], w_record = demo_frozen\<rparr>)"
  by (simp add: archive_run_simps del: chunk_loop.simps)

lemma second_run:
  "consume block_position_ops demo_serde sqlite (bounded_cfg 20) True second_segments half_filled 3 =
     Some ([''c''], True, filled 3 7 [(2, Text ''ja''), (3, Text ''jb''), (7, Text ''jc'')], 6)"
proof -
  have "p_depth (bounded_cfg 20) = 1" by (simp add: bounded_cfg_def with_to_block_def demo_cfg_def with_backfill_chunk_size_def
      with_start_block_def with_table_def persisted_new_def)
  then show ?thesis by (simp add: consume_def second_segments_def second_chunks second_emits)
qed

lemma demo_half_life: "lifetime block_position_ops demo_serde sqlite (\<lambda>st. sql_store_new (pool st)) {block_source 2 9 demo_history}
    demo_history ''ev'' 1 blank_archive half_filled"
proof -
  let ?src = "block_source 2 9 demo_history" and ?A = "filled 2 3 [(2, Text ''ja''), (3, Text ''jb'')]"
  from first_run obtain seg c1 out c3 where
    "subscribe block_position_ops demo_serde sqlite ?src (bounded_cfg 5) True blank_archive 0 = (Ok seg, c1)"
    "consume block_position_ops demo_serde sqlite (bounded_cfg 5) True seg blank_archive c1 = Some (out, True, ?A, c3)" by blast
  from session.finished [OF _ bounded_demo this, of "{?src}"]
  have "session block_position_ops demo_serde sqlite {?src} demo_history ''ev'' 1 blank_archive ?A" by (simp add: max_val_def)
  from lifetime.reopened [OF lifetime.indexed [OF lifetime.created this]] show ?thesis .
qed

lemma demo_life: "lifetime block_position_ops demo_serde sqlite (\<lambda>st. sql_store_new (pool st)) {block_source 2 9 demo_history}
    demo_history ''ev'' 1 blank_archive (filled 3 7 [(2, Text ''ja''), (3, Text ''jb''), (7, Text ''jc'')])"
  by (rule lifetime.indexed [OF demo_half_life session.finished [OF _ bounded_demo second_subscribes second_run]])
    (simp_all add: max_val_def)

lemma demo_history_in_order: "sorted (map fst demo_history)"
  using demo_history_sorted by (simp add: sorted_block_numbers)

lemma blank_start: "arc_contents (disk (pool blank_archive)) ''ev'' = []" "arc_mark block_position_ops (disk (pool blank_archive)) ''ev'' = None"
  by (simp_all add: arc_contents_def arc_mark_def blank_archive_def sql_store_new_def)

lemma archive_stays_gap_free_witness:
  "\<exists>st. lifetime block_position_ops demo_serde sqlite (\<lambda>st. sql_store_new (pool st)) {block_source 2 9 demo_history}
      demo_history ''ev'' 1 blank_archive st \<and>
    arc_mark block_position_ops (disk (pool st)) ''ev'' = Some (BlockPosition 7) \<and>
    arc_contents (disk (pool st)) ''ev'' = [(2, ''ja''), (3, ''jb''), (7, ''jc'')]"
proof -
  let ?st = "filled 3 7 [(2, Text ''ja''), (3, Text ''jb''), (7, Text ''jc'')]"
  have mark: "arc_mark block_position_ops (disk (pool ?st)) ''ev'' = Some (BlockPosition 7)"
    by (simp add: arc_mark_def filled_def entry_text_def decoded_def block_decode_encode)
  from archive_stays_gap_free [OF mem_sqlite.sql_archive_axioms blank_archive_sound demo_history_in_order blank_start demo_life] mark
  have "arc_contents (disk (pool ?st)) ''ev'' = [(2, ''ja''), (3, ''jb''), (7, ''jc'')]"
    by (simp add: demo_history_def event_text_def demo_serde_def)
  with mark demo_life show ?thesis by blast
qed

section \<open>Completeness\<close>

text \<open>
  Property C2: a bounded run that meets no failure finishes the job, whatever happened before it: in
  an archive that earlier runs left behind (complete, cut short or killed), when no window of this run fails
  and its writer stays healthy, every event of the gap is delivered, and the rows of the table up
  to the bound are then exactly the events of the history from the start block to the bound.
\<close>

theorem clean_run_completes:
  assumes "sql_archive D DB view tview block_position_ops" and "store_sound view st0"
    and "sorted (map fst history)"
    and "arc_contents (view (pool st0)) t = []" and "arc_mark block_position_ops (view (pool st0)) t = None"
    and "lifetime block_position_ops sd (sql_store block_position_ops D DB) (\<lambda>st. sql_store_new (pool st)) srcs history t start st0 st"
    and "bounded_session block_position_ops src history cfg t start"
    and "subscribe block_position_ops sd (sql_store block_position_ops D DB) src cfg replayed st c = (Ok seg, c1)"
    and "seg_backfill seg c2 = Some (ys, False, c3)" and "seg_cut seg = Some bound"
    and "persist_and_emit \<lparr>env_pos = block_position_ops, env_serde = sd, env_store = sql_store block_position_ops D DB\<rparr>
      ys [] (p_depth cfg) (Some bound) (seg_seed seg) \<lparr>w_store = st, w_record = seg_record seg\<rparr> = (out, settled, win, w')"
    and "core_healthy (bw_core settled)"
  shows "out = map snd ys \<and>
    filter (\<lambda>kv. fst kv \<le> int (unat bound)) (arc_contents (view (pool (w_store w'))) t) =
      map (\<lambda>(q, e). (int (unat (block_number q)), event_text sd e))
        (filter (\<lambda>(q, e). start \<le> block_number q \<and> block_number q \<le> bound) history)"
proof -
  from indexer_gap_free [OF assms(1-6)] have sound: "store_sound view st" and gaps: "gap_free block_position_ops sd history start
      (arc_contents (view (pool st)) t) (arc_mark block_position_ops (view (pool st)) t)" by blast+
  have sorted: "sorted (map (\<lambda>pe. sort_key block_position_ops (fst pe)) history)"
    using assms(3) by (simp add: sorted_block_numbers)
  from store_contract.clean_run_fills [OF sql_archive.sql_store_contract [OF assms(1)] block.position_order_axioms _ blocks_resume_next sorted
      assms(7-12) sound gaps]
  show ?thesis by (simp add: block_cells between_def case_prod_unfold)
qed

lemma clean_run_completes_witness:
  "case persist_and_emit \<lparr>env_pos = block_position_ops, env_serde = demo_serde, env_store = sqlite\<rparr> [(BlockPosition 7, ''c'')] [] 1 (Some 9)
      (Some (BlockPosition 3)) \<lparr>w_store = half_filled, w_record = record_inferred ''ev''\<rparr> of (out, settled, win, w') \<Rightarrow>
    out = [''c''] \<and> filter (\<lambda>kv. fst kv \<le> 9) (arc_contents (disk (pool (w_store w'))) ''ev'') = [(2, ''ja''), (3, ''jb''), (7, ''jc'')]"
proof -
  obtain out settled win w' where run: "persist_and_emit \<lparr>env_pos = block_position_ops, env_serde = demo_serde, env_store = sqlite\<rparr>
      [(BlockPosition 7, ''c'')] [] 1 (Some 9) (Some (BlockPosition 3)) \<lparr>w_store = half_filled, w_record = record_inferred ''ev''\<rparr> = (out, settled, win, w')"
    by (metis surj_pair)
  then have healthy: "core_healthy (bw_core settled)" by (auto simp: second_emits)
  have depth: "p_depth (bounded_cfg 20) = 1" by (simp add: bounded_cfg_def with_to_block_def demo_cfg_def with_backfill_chunk_size_def
      with_start_block_def with_table_def persisted_new_def)
  have session: "bounded_session block_position_ops (block_source 2 9 demo_history) demo_history (bounded_cfg 20) ''ev'' 1"
    by (rule bounded_demo) (simp add: max_val_def)
  have chunks: "seg_backfill second_segments 0 = Some ([(BlockPosition 7, ''c'')], False, 3)" and cut: "seg_cut second_segments = Some 9"
    by (simp_all add: second_segments_def second_chunks)
  have run': "persist_and_emit \<lparr>env_pos = block_position_ops, env_serde = demo_serde, env_store = sqlite\<rparr> [(BlockPosition 7, ''c'')] []
      (p_depth (bounded_cfg 20)) (Some 9) (seg_seed second_segments) \<lparr>w_store = half_filled, w_record = seg_record second_segments\<rparr>
      = (out, settled, win, w')" using run by (simp add: depth second_segments_def)
  from clean_run_completes [OF mem_sqlite.sql_archive_axioms blank_archive_sound demo_history_in_order blank_start demo_half_life session
      second_subscribes chunks cut run' healthy]
  have "out = [''c'']" "filter (\<lambda>kv. fst kv \<le> 9) (arc_contents (disk (pool (w_store w'))) ''ev'') = [(2, ''ja''), (3, ''jb''), (7, ''jc'')]"
    by (simp_all add: demo_history_def event_text_def demo_serde_def)
  with run show ?thesis by simp
qed

section \<open>From the chain to the client\<close>

text \<open>The events up to the resume point in a range of blocks, as the archive holds them.\<close>

definition indexed_events :: "'e serde \<Rightarrow> (block_position \<times> 'e) list \<Rightarrow> u64 \<Rightarrow> block_position option \<Rightarrow> u64 \<Rightarrow> u64 \<Rightarrow> stored_row list" where
  "indexed_events sd history start m a b = (case m of
     None \<Rightarrow> []
   | Some p \<Rightarrow> map (\<lambda>(q, e). (int (unat (block_number q)), event_text sd e))
       (filter (\<lambda>(q, e). max start a \<le> block_number q \<and> block_number q \<le> min b (block_number p)) history))"

lemma in_range_events:
  "filter (in_range (uint a) (uint b)) (map (\<lambda>(q, e). (uint (block_number q), event_text sd e)) pes) =
     map (\<lambda>(q, e). (uint (block_number q), event_text sd e)) (filter (\<lambda>(q, e). a \<le> block_number q \<and> block_number q \<le> b) pes)"
  by (simp add: filter_map comp_def in_range_def case_prod_unfold word_le_def)

text \<open>
  Property C3: from the chain to the client: after any life of a bounded indexer over an archive, when
  a client of the serving layer asks for the consecutive pages of a block range, and all are
  answered, the objects of the pages together are exactly the events of the history in the range,
  from the start block to the resume point: each event once, in ascending block order, with its block
  number and its JSON.
\<close>

theorem indexed_events_are_served:
  assumes "sql_archive D DB view tview block_position_ops" and "store_sound view st0" and "sorted (map fst history)"
    and "arc_contents (view (pool st0)) t = []" and "arc_mark block_position_ops (view (pool st0)) t = None"
    and "lifetime block_position_ops sd (sql_store block_position_ops D DB) (\<lambda>st. sql_store_new (pool st)) srcs history t start st0 st"
    and "served_archive pg C pl sview listing"
    and "a \<le> MAX_BIND" and "b \<le> MAX_BIND" and "1 \<le> l" and "l \<le> st_max_limit lim" and "l \<le> MAX_BIND" and "n * unat l < 2 ^ 63"
    and "\<forall>k<n. sview (world k) = view (pool st) \<and> fst (query_rows_handler (backend_of pg J C pl) lim t
      (page_params a b l (of_nat (k * unat l))) (world k)) = Some (200, Rows_body (objs k) (l' k) (off' k))"
    and "length history \<le> n * unat l"
  shows "\<exists>out. sorted (map fst out) \<and> list_all2 (renders J) (concat (map objs [0..<n])) out \<and>
    mset out = mset (indexed_events sd history start (arc_mark block_position_ops (view (pool st)) t) a b)"
proof -
  from indexer_gap_free [OF assms(1-6)] have gaps: "gap_free block_position_ops sd history start
      (arc_contents (view (pool st)) t) (arc_mark block_position_ops (view (pool st)) t)" by blast
  have range: "filter (in_range (int (unat a)) (int (unat b))) (arc_contents (view (pool st)) t) =
      indexed_events sd history start (arc_mark block_position_ops (view (pool st)) t) a b"
  proof (cases "arc_mark block_position_ops (view (pool st)) t")
    case None
    with gaps show ?thesis by (simp add: gap_free_def stored_history_def indexed_events_def)
  next
    case (Some p)
    have "filter (\<lambda>(q, e). a \<le> block_number q \<and> block_number q \<le> b) (between block_position_ops history start (block_number p)) =
        filter (\<lambda>(q, e). max start a \<le> block_number q \<and> block_number q \<le> min b (block_number p)) history"
      by (auto simp: between_def intro!: filter_cong)
    with gaps Some show ?thesis
      by (simp add: gap_free_def stored_history_def indexed_events_def block_cells in_range_events)
  qed
  have "length (indexed_events sd history start m a b) \<le> length history" for m
    by (simp add: indexed_events_def split: option.split)
  then have "length (filter (in_range (int (unat a)) (int (unat b))) (arc_contents (view (pool st)) t)) \<le> n * unat l"
    unfolding range using assms(15) by (rule order_trans)
  from served_archive.pages_render [OF assms(7-14) this] show ?thesis unfolding range by blast
qed

text \<open>The archive of the indexer above, read from SQLite in two pages of two rows.\<close>

abbreviation indexed_archive :: archive where
  "indexed_archive \<equiv> disk (pool (filled 3 7 [(2, Text ''ja''), (3, Text ''jb''), (7, Text ''jc'')]))"

definition indexed_page :: "nat \<Rightarrow> json_object list" where
  "indexed_page k = map (mem_object demo_json) (take 2 (drop (k * 2) [(2, Text ''ja''), (3, Text ''jb''), (7, Text ''jc'')]))"

lemma indexed_rows: "arc_tables indexed_archive ''ev'' = Some [(2, Text ''ja''), (3, Text ''jb''), (7, Text ''jc'')]"
  by (simp add: filled_def)

lemma indexed_listing: "mem_listing indexed_archive ''ev'' 0 100 = [(2, Text ''ja''), (3, Text ''jb''), (7, Text ''jc'')]"
  by (simp add: mem_listing_def indexed_rows in_range_def)

lemma indexed_mark: "arc_mark block_position_ops indexed_archive ''ev'' = Some (BlockPosition 7)"
  by (simp add: arc_mark_def filled_def entry_text_def decoded_def block_decode_encode)

lemma indexed_pages_answered:
  assumes "k < 2"
  shows "\<exists>l' off'. fst (query_rows_handler (backend_of False demo_json named_cells (mem_pool False)) demo_limits ''ev''
    (page_params 0 100 2 (of_nat (k * unat (2 :: u64)))) indexed_archive) = Some (200, Rows_body (indexed_page k) l' off')"
proof -
  have off: "unat (of_nat (k * 2) :: u64) = k * 2" by (rule unat_small) (use assms in simp)
  then have "of_nat (k * 2) \<le> MAX_BIND" using assms by (simp add: word_le_nat_alt unat_max_bind del: of_nat_mult)
  moreover have "''ev'' \<noteq> PROGRESS_TABLE" "listed False ''ev''" "(100 :: u64) \<le> MAX_BIND" "(2 :: u64) \<le> MAX_BIND" "(2 :: u64) \<le> st_max_limit demo_limits"
    by (simp_all add: PROGRESS_TABLE_def listed_def like_sqlite_def MAX_BIND_def demo_limits_def)
  ultimately obtain l' off' where "query_rows_handler (backend_of False demo_json named_cells (mem_pool False)) demo_limits ''ev''
      (page_params 0 100 2 (of_nat (k * 2))) indexed_archive = (Some (200, Rows_body (map (mem_object demo_json)
        (take (unat (2 :: u64)) (drop (unat (of_nat (k * 2) :: u64)) (mem_listing indexed_archive ''ev'' (int (unat (0 :: u64))) (int (unat (100 :: u64)))))))
        l' off'), indexed_archive)"
    using mem_page_answered [OF indexed_rows, of False 0 100 2 demo_limits "of_nat (k * 2)" demo_json] by auto
  then show ?thesis by (simp add: off indexed_listing indexed_page_def del: of_nat_mult)
qed

lemma indexed_events_are_served_witness:
  "\<exists>out. sorted (map fst out) \<and> list_all2 (renders demo_json) (concat (map indexed_page [0..<2])) out \<and>
     mset out = {#(2, ''ja''), (3, ''jb''), (7, ''jc'')#}"
proof -
  from indexed_pages_answered obtain l' off' where pages: "\<forall>k<2. indexed_archive = indexed_archive \<and>
      fst (query_rows_handler (backend_of False demo_json named_cells (mem_pool False)) demo_limits ''ev''
        (page_params 0 100 2 (of_nat (k * unat (2 :: u64)))) indexed_archive) = Some (200, Rows_body (indexed_page k) (l' k) (off' k))"
    by metis
  have sizes: "(0 :: u64) \<le> MAX_BIND" "(100 :: u64) \<le> MAX_BIND" "(1 :: u64) \<le> 2" "2 \<le> st_max_limit demo_limits" "(2 :: u64) \<le> MAX_BIND"
    "2 * unat (2 :: u64) < 2 ^ 63" "length demo_history \<le> 2 * unat (2 :: u64)"
    by (simp_all add: MAX_BIND_def demo_limits_def demo_history_def)
  have "indexed_events demo_serde demo_history 1 (Some (BlockPosition 7)) 0 100 = [(2, ''ja''), (3, ''jb''), (7, ''jc'')]"
    by (simp add: indexed_events_def demo_history_def event_text_def demo_serde_def)
  with indexed_events_are_served [OF mem_sqlite.sql_archive_axioms blank_archive_sound demo_history_in_order blank_start demo_life
      mem_served.served_archive_axioms sizes(1-6) pages sizes(7)] indexed_mark
  show ?thesis by simp
qed

end
