(* ===== verification/Connections.thy ===== *)
theory Connections
  imports Sql_Contract Reconnect
begin

text \<open>
  How the SQL stores are opened (\<open>src/src/persistence/sqlite.rs\<close>, \<open>postgres.rs\<close>). The URL parsers,
  the defaults of the option types and the pools are sqlx's and form a dictionary; what the crate
  adds are the options it sets and the order of the steps.
\<close>

datatype journal_mode = Delete | Truncate | Persist | Memory | Wal | Off

datatype synchronous = Sync_off | Normal | Full | Extra

record sqlite_connect_options =
  so_filename :: string
  so_create_if_missing :: bool
  so_journal_mode :: "journal_mode option"
  so_synchronous :: "synchronous option"
  so_busy_timeout :: duration

record pool_tuning =
  po_max_connections :: u32
  po_min_connections :: u32
  po_idle_timeout :: "duration option"
  po_max_lifetime :: "duration option"

record ('o, 'd, 'w) sqlx_drivers =
  pool_options_new :: pool_tuning
  sqlite_options_from_str :: "string \<Rightarrow> sqlx_error + sqlite_connect_options"
  sqlite_connect_with :: "pool_tuning \<Rightarrow> sqlite_connect_options \<Rightarrow> 'w \<Rightarrow> (sqlx_error + 'd) \<times> 'w"
  pg_options_from_str :: "string \<Rightarrow> sqlx_error + 'o"
  pg_connect_with :: "pool_tuning \<Rightarrow> 'o \<Rightarrow> 'w \<Rightarrow> (sqlx_error + 'd) \<times> 'w"

definition pool_options :: "('o, 'd, 'w) sqlx_drivers \<Rightarrow> pool_tuning" where
  "pool_options N = (pool_options_new N)\<lparr>
     po_max_connections := 1, po_min_connections := 1, po_idle_timeout := None, po_max_lifetime := None\<rparr>"

definition sqlite_store_connect :: "('o, 'd, 'w) sqlx_drivers \<Rightarrow> string \<Rightarrow> 'w \<Rightarrow> (sqlx_error + 'd sql_store) \<times> 'w" where
  "sqlite_store_connect N url w =
     (case sqlite_options_from_str N url of
        Err e \<Rightarrow> (Err e, w)
      | Ok opts \<Rightarrow>
          let opts = opts\<lparr>so_create_if_missing := True, so_journal_mode := Some Wal,
                so_synchronous := Some Normal, so_busy_timeout := from_secs 5\<rparr> in
          (case sqlite_connect_with N (pool_options N) opts w of
             (Err e, w') \<Rightarrow> (Err e, w')
           | (Ok p, w') \<Rightarrow> (Ok (sql_store_new p), w')))"

definition postgres_store_connect :: "('o, 'd, 'w) sqlx_drivers \<Rightarrow> string \<Rightarrow> 'w \<Rightarrow> (sqlx_error + 'd sql_store) \<times> 'w" where
  "postgres_store_connect N url w =
     (case pg_options_from_str N url of
        Err e \<Rightarrow> (Err e, w)
      | Ok opts \<Rightarrow>
          (case pg_connect_with N ((pool_options_new N)\<lparr>po_max_connections := 1\<rparr>) opts w of
             (Err e, w') \<Rightarrow> (Err e, w')
           | (Ok p, w') \<Rightarrow> (Ok (sql_store_new p), w')))"

definition with_pool :: "'d \<Rightarrow> 'd sql_store" where
  "with_pool p = sql_store_new p"

text \<open>A pool that keeps exactly one connection, for good.\<close>

definition pinned :: "pool_tuning \<Rightarrow> bool" where
  "pinned p \<longleftrightarrow> po_max_connections p = 1 \<and> po_min_connections p = 1 \<and> po_idle_timeout p = None \<and> po_max_lifetime p = None"

text \<open>
  A SQLite store is only ever opened on a pinned pool, in WAL mode with a busy timeout: what the
  driver would do with other options does not matter.
\<close>

lemma sqlite_connect_pinned:
  assumes "\<And>p opts w. pinned p \<Longrightarrow> so_journal_mode opts = Some Wal \<Longrightarrow> so_busy_timeout opts = 5 * 10 ^ 9 \<Longrightarrow>
      sqlite_connect_with N p opts w = sqlite_connect_with M p opts w"
    and "pool_options_new N = pool_options_new M" "sqlite_options_from_str N = sqlite_options_from_str M"
  shows "sqlite_store_connect N url w = sqlite_store_connect M url w"
proof -
  have "pinned (pool_options N)" by (simp add: pinned_def pool_options_def)
  moreover have "pool_options M = pool_options N" using assms(2) by (simp add: pool_options_def)
  ultimately show ?thesis
    using assms(1,3) by (simp add: sqlite_store_connect_def from_secs_def Let_def split: sum.split)
qed

text \<open>
  Whatever is opened, by URL or around a pool of the caller's, is a sound store as soon as the
  database behind it is: it has checked no migration yet.
\<close>

lemma opened_store_sound:
  assumes "archive_ok (view d)"
  shows "store_sound view (with_pool d)"
    and "sqlite_store_connect N url w = (Ok st, w') \<Longrightarrow> pool st = d \<Longrightarrow> store_sound view st"
    and "postgres_store_connect N url w = (Ok st, w') \<Longrightarrow> pool st = d \<Longrightarrow> store_sound view st"
  using assms
  by (auto simp: with_pool_def store_sound_def sql_store_new_def sqlite_store_connect_def postgres_store_connect_def Let_def
      split: sum.splits prod.splits)

end
