(* ===== verification/Spec2Isabelle.thy ===== *)
theory Spec2Isabelle
  imports Prelude Writer_Properties Persisted_Properties Engine_Properties Executors_Properties Mempool_Properties
    Sql_Properties Adapters_Properties Collectors_Properties Record_Properties
    Serving_Properties Pipeline_Properties Archive_Properties Connections
begin

text \<open>
  \<^bold>\<open>artemis-light\<close>: a verification development of the crate under \<open>src/src/\<close>.

  \<^bold>\<open>The program.\<close> The crate is a framework for event-driven bots. An engine connects collectors,
  which turn a node into streams of events, with strategies, which turn events into actions, and
  executors, which carry the actions out. A persisted collector wraps a collector so that its
  events reach a database exactly as the chain has them, are backfilled after a gap and replayed
  after a restart; a read-only HTTP layer serves what was stored.

  \<^bold>\<open>Theories and sources.\<close> Paths are under \<open>src/src/\<close>; names of definitions are those of the
  code, qualified where two functions share one.

  \<^item> \<open>Prelude\<close>, \<open>Decimal\<close>, \<open>BTree_Map\<close>: integers of fixed width as words with the saturating and checked
    operations of the standard library, \<open>Result\<close> as a sum (\<open>Err\<close>, \<open>Ok\<close>), decimal text, \<open>BTreeMap\<close> as a
    sorted association list behind the locale \<open>ordered_map\<close>.
  \<^item> Persistence data: \<open>Position\<close> (\<open>persistence/position.rs\<close>; the trait as the dictionary
    \<open>position_ops\<close>, its laws as locales, \<open>BlockPosition\<close> and \<open>TimeFrontier\<close> as interpretations), \<open>Schema\<close>
    (\<open>schema.rs\<close>), \<open>Event_Record\<close> (\<open>record.rs\<close>), \<open>Store\<close> (\<open>store.rs\<close>; the trait as the dictionary \<open>store_ops\<close> and
    the locale \<open>store_contract\<close>, which says what a store promises).
  \<^item> The write pipeline: \<open>Gap_Free\<close> and \<open>Persist_Emit\<close> (\<open>writer/mod.rs\<close>), \<open>Block_Writer\<close> (\<open>writer/block.rs\<close>),
    \<open>Confirmation_Window\<close> (\<open>writer/window.rs\<close>). \<open>Chain\<close> is its abstract specification, the canonical
    chain of groups with no depth and no flushing; \<open>Dedupe\<close> its accounting for append-only sources.
  \<^item> \<open>Persisted\<close> (\<open>persisted.rs\<close>): the builder, the subscription with its segments (replay, backfill in
    windows with bisection, live tail).
  \<^item> The SQL store: \<open>Query\<close> (\<open>dialect.rs\<close>, \<open>query.rs\<close>: every statement as its text), \<open>Sql_Store\<close>
    (\<open>sqlstore.rs\<close>), \<open>Sql_Contract\<close> (the laws of a database as the locale \<open>sql_backend\<close> over an abstract
    archive, and the proof that the store keeps \<open>store_contract\<close>, by triples over transactions),
    \<open>Sql_Memory\<close> (a database in memory with a schedule of faults that interprets the locale),
    \<open>Connections\<close> (\<open>sqlite.rs\<close>, \<open>postgres.rs\<close>: how a store is opened).
  \<^item> From end to end: \<open>Pipeline_Store\<close> (what the pipeline hands to its store is rows its record made, so
    that what such writes keep holds after a run), \<open>Unlogged\<close> (the logging store of the pipeline's
    lemmas is only an observer), \<open>Pipeline_Properties\<close> (pipeline, record and SQL store together),
    \<open>Archive_Runs\<close> (the life of a bounded indexer as inductive relations: sessions that end or are
    killed, reopened archives), \<open>Live_Feed\<close> (a live feed that retracts what reorganisations removed, the
    event collector as such a feed, and the archive it leaves).
  \<^item> The engine: \<open>Reconnect\<close> (\<open>backoff.rs\<close>, \<open>engine/reconnect.rs\<close>), \<open>Driver\<close> (\<open>engine/driver.rs\<close>, a step
    relation of all drivers over the shared tokens), \<open>Engine\<close> (\<open>engine.rs\<close>, \<open>engine/channel.rs\<close>, \<open>types.rs\<close>).
  \<^item> Collectors: \<open>Collectors\<close> and \<open>Node_Collectors\<close> (\<open>collectors/\<close>), \<open>Collector_Ext\<close> (\<open>collector_ext/\<close>).
  \<^item> Strategies and executors: \<open>Strategy_Ext\<close> (\<open>strategy_ext/\<close>), \<open>Executors_Ext\<close> (\<open>executor_ext/\<close>), \<open>Pricing\<close>
    and \<open>Mempool_Executor\<close> (\<open>executors/\<close>).
  \<^item> Serving: \<open>Serving\<close> and \<open>Serving_Routes\<close> (\<open>serving/\<close>), \<open>Serving_Archive\<close> (the laws of the database it reads,
    the locale \<open>served_archive\<close>), \<open>Serving_Json\<close> (what a client reads), \<open>Serving_Memory\<close> (a database in
    memory that parses the statements it is sent and interprets the locale for both backends).
  \<^item> The properties stand in the theories named \<open>_Properties\<close>, \<open>Fixtures\<close> holds shared concrete parameters.

  \<^bold>\<open>How state and effects are modelled.\<close> A struct is a record and a method a function from the
  record, and the world it acts on, to its result and the new ones; every early return and every
  error is a branch. A trait is a dictionary of such functions. What the crate only calls (a
  node behind alloy, a database behind sqlx, \<open>serde_json\<close>, tokio's channels, timers and tokens) is an
  argument of the definitions: a dictionary, a list of what it answered, or the labels of a step
  relation; its documented laws are the assumptions of a locale or a predicate, and each is shown
  to hold of a concrete instance. Streams are the lists of the items they deliver; what a stream does
  while it is consumed is done when it is built, except where the order matters (the action
  streams of strategies are trees of polls, a segment of a subscription is run when it is consumed).
  So a source that never ends is seen through its finite prefixes only. A check and the call it guards
  are one instant of the clock.
  An \<open>f64\<close> is its bit pattern. Strings are ASCII.

  \<^bold>\<open>What the lemmas show.\<close>

  \<^item> Write pipeline: what reaches the store is ascending, above the resume point and buried by the
    confirmation depth; a healthy window refines the abstract chain, forks included; a
    failure stops writes and never delivery; a run of an append-only source that meets no failure
    delivers nothing twice. What is said of order and burial is said of block-like sources.
  \<^item> From end to end: a SQL archive ends up holding the payloads of that chain, up to the groups
    still buffered; over the whole life of a bounded indexer it holds exactly the events from the
    start block to the resume point, a run that meets no failure brings it to the bound, and the
    serving layer gives a client exactly those events.
  \<^item> Persisted: a subscription's backfill ends and covers the gap; bisection is exact; history is
    replayed once; at the largest key the window loop does not end.
  \<^item> Records and the SQL store: all rows of a record fit one schema; a write is one transaction that
    appends its rows and advances the resume point or changes nothing, over any lawful database;
    a restart resumes and replays exactly what was written; inserts bind every row; a store
    resumes from what its progress row says and from nothing else: only a missing row is nothing
    stored, and a row without a usable point is an error.
  \<^item> Engine: the verdict of the reconnect policy follows the streak of failures, a fatal failure is
    visible as such, cancelled drivers return, collectors start last, and strategies and
    executors see every event and decision in order, but for those a channel dropped.
  \<^item> Executors: the submission rate, deadlines, the circuit breaker and the retries of the stack; the
    mempool executor's submissions, sweep of receipts and escalation, and what they leave of the bid's
    share of the profit: it bounds the first price at the estimated gas, replacements and the
    headroom of the gas limit can go above it, by bounded factors.
  \<^item> Collectors and adapters: fetches of the polling block collector; a persisted event collector's
    archive, which follows the chain through its reorganisations; fallback, merge, chain, cooldown,
    mounting.
  \<^item> Serving: parameters and bounds, the answer of the table routes to every outcome of their
    statements, cells as JSON read back, and that the pages served are exactly what was written.

  \<^bold>\<open>Bounds and termination.\<close> No fuel is used: loops are structural or have a measure, and the one
  that may not end (\<open>chunk_loop\<close> of \<open>Persisted\<close>) is a \<open>partial_function (option)\<close>, proved to end where
  it does. Keys are 64-bit words, fees 128-bit words, counters 32-bit words; an \<open>i64\<close> is an
  \<open>int\<close> and the casts of \<open>Serving\<close> wrap as the code's do.

  \<^bold>\<open>Not modelled\<close>, and why: \<open>ServingLayer::serve\<close> (axum and tokio I/O); logging; the derived
  trait implementations; the extension traits, which only call the constructors modelled here;
  \<open>lib.rs\<close> and the \<open>mod.rs\<close> files that only re-export; examples, tests and their support code.
\<close>

end
